(* ===== verification/Prelude.thy ===== *)
theory Prelude
  imports Main "HOL-Library.Word" "HOL-Library.Code_Target_Nat"
begin

text \<open>
  Shared types, constants and generic lemmas.
  A byte is an \<open>8 word\<close> and a buffer with its length is a list of bytes.
  \<open>uint64_t\<close> values (hash codes, deadlines, sequence numbers, memory charges) are
  \<open>64 word\<close>, so their arithmetic wraps as in the source.
  A \<open>size_t\<close> that counts or indexes something that exists in memory is a \<open>nat\<close>;
  where the source guards such a value against \<open>SIZE_MAX\<close> the guard is kept.
\<close>

unbundle bit_operations_syntax

type_synonym byte = "8 word"
type_synonym bytes = "byte list"
type_synonym u64 = "64 word"

definition SIZE_MAX :: nat where
  "SIZE_MAX = 18446744073709551615"

definition UINT64_MAX :: u64 where
  "UINT64_MAX = 18446744073709551615"

abbreviation CR :: byte where "CR \<equiv> 13"
abbreviation LF :: byte where "LF \<equiv> 10"

definition ascii :: "string \<Rightarrow> bytes" where
  "ascii s = map of_char s"

named_theorems wf_simps \<open>facts that unfold the well-formedness invariants\<close>
named_theorems op_defs \<open>definitions of small operations that proofs unfold together\<close>

subsection \<open>Decimal digits\<close>

text \<open>
  The \<open>do ... while\<close> loop that stores the decimal digits of a number, lowest first
  (\<open>encode_unsigned_line\<close> and \<open>resp_encode_integer\<close> of \<open>protocol/resp.c\<close>,
  \<open>encode_unsigned\<close> of \<open>persistence/aof.c\<close>).
\<close>

fun decimal_reverse :: "nat \<Rightarrow> bytes" where
  "decimal_reverse value =
     (if value < 10 then [48 + of_nat value]
      else (48 + of_nat (value mod 10)) # decimal_reverse (value div 10))"

declare decimal_reverse.simps [simp del]

definition decimal_text :: "nat \<Rightarrow> bytes" where
  "decimal_text value = rev (decimal_reverse value)"

definition is_digit :: "byte \<Rightarrow> bool" where
  "is_digit b \<longleftrightarrow> 48 \<le> b \<and> b \<le> 57"

definition digit_value :: "byte \<Rightarrow> nat" where
  "digit_value b = unat (b - 48)"

definition decimal_value :: "nat \<Rightarrow> bytes \<Rightarrow> nat" where
  "decimal_value = foldl (\<lambda>v b. v * 10 + digit_value b)"

lemma decimal_value_simps [simp]:
  "decimal_value v [] = v"
  "decimal_value v (b # bs) = decimal_value (v * 10 + digit_value b) bs"
  "decimal_value v (bs @ cs) = decimal_value (decimal_value v bs) cs"
  by (simp_all add: decimal_value_def)

lemma unat_digit_byte: "d < 10 \<Longrightarrow> unat (48 + of_nat d :: byte) = 48 + d"
  by (simp add: unat_word_ariths unat_of_nat)

lemma digit_byte [simp]:
  assumes "d < 10"
  shows "is_digit (48 + of_nat d)" and "digit_value (48 + of_nat d) = d"
  using unat_digit_byte [OF assms] assms
  by (auto simp: is_digit_def digit_value_def word_le_nat_alt unat_of_nat)

lemma digit_value_le: "is_digit b \<Longrightarrow> digit_value b \<le> 9"
proof -
  assume "is_digit b"
  then have le: "48 \<le> b" and "unat b \<le> 57"
    by (simp_all add: is_digit_def word_le_nat_alt)
  moreover have "unat (b - 48) = unat b - 48"
    using le by (simp add: unat_sub)
  ultimately show ?thesis by (simp add: digit_value_def)
qed

lemma is_digit_not_CR: "is_digit b \<Longrightarrow> b \<noteq> CR"
  by (auto simp: is_digit_def word_le_nat_alt)

lemma decimal_reverse_digits: "\<forall>b \<in> set (decimal_reverse v). is_digit b"
proof (induction v rule: decimal_reverse.induct)
  case (1 v)
  show ?case
    by (subst decimal_reverse.simps) (use "1.IH" in auto)
qed

lemma decimal_text_digits: "b \<in> set (decimal_text v) \<Longrightarrow> is_digit b"
  using decimal_reverse_digits by (auto simp: decimal_text_def)

lemma decimal_reverse_nonempty [simp]: "decimal_reverse v \<noteq> []"
  by (subst decimal_reverse.simps) simp

lemma decimal_text_nonempty [simp]: "decimal_text v \<noteq> []"
  by (simp add: decimal_text_def)

lemma decimal_text_unfold:
  "decimal_text v = (if v < 10 then [48 + of_nat v]
     else decimal_text (v div 10) @ [48 + of_nat (v mod 10)])"
  unfolding decimal_text_def by (subst decimal_reverse.simps) simp

text \<open>Reading the digits of \<open>v\<close> gives \<open>v\<close> back.\<close>

lemma decimal_value_text [simp]: "decimal_value 0 (decimal_text v) = v"
proof (induction v rule: less_induct)
  case (less v)
  show ?case
  proof (cases "v < 10")
    case True
    then show ?thesis by (subst decimal_text_unfold) simp
  next
    case False
    then have "decimal_value 0 (decimal_text (v div 10)) = v div 10"
      by (intro less.IH) simp
    with False show ?thesis
      by (subst decimal_text_unfold) simp
  qed
qed

lemma length_decimal_text: "v < 10 ^ n \<Longrightarrow> 0 < n \<Longrightarrow> length (decimal_text v) \<le> n"
proof (induction n arbitrary: v)
  case 0
  then show ?case by simp
next
  case (Suc n)
  show ?case
  proof (cases "v < 10")
    case True
    then show ?thesis by (subst decimal_text_unfold) simp
  next
    case False
    with Suc.prems have "0 < n" by (cases n) auto
    moreover from Suc.prems have "v div 10 < 10 ^ n" by (simp add: less_mult_imp_div_less)
    ultimately have "length (decimal_text (v div 10)) \<le> n" by (rule Suc.IH [rotated])
    with False show ?thesis by (subst decimal_text_unfold) simp
  qed
qed

lemma decimal_value_mono: "v \<le> decimal_value v bs"
proof (induction bs arbitrary: v)
  case Nil
  then show ?case by simp
next
  case (Cons b bs)
  have "v \<le> v * 10 + digit_value b" by simp
  also have "\<dots> \<le> decimal_value (v * 10 + digit_value b) bs" by (rule Cons.IH)
  finally show ?case by simp
qed

text \<open>The overflow guard of every decimal parser of the source.\<close>

lemma decimal_guard: "d \<le> m \<Longrightarrow> (m - d) div 10 < (p::nat) \<longleftrightarrow> m < p * 10 + d"
  by (simp add: less_mult_imp_div_less div_less_iff_less_mult) linarith

end
