(* ===== verification/Resp.thy ===== *)
theory Resp
  imports Prelude
begin

text \<open>
  The RESP2 request parser and reply encoders (\<open>src/src/protocol/resp.c\<close>).
  The parser is zero copy: an argument is a slice, an offset and a length into the
  input.  The out-parameters of the C functions are the arguments of the
  \<open>RESP_PARSE_COMPLETE\<close> constructor.  An encoder gets the capacity of its output
  buffer and returns the bytes it wrote, or \<open>None\<close> for the return value -1.
\<close>

subsection \<open>Parser\<close>

definition RESP_MAX_FRAME_SIZE :: nat where
  "RESP_MAX_FRAME_SIZE = 64 * 1024"

definition RESP_MAX_ARGUMENTS :: nat where
  "RESP_MAX_ARGUMENTS = 128"

record resp_slice =
  slice_data :: nat
  slice_length :: nat

definition slice_bytes :: "bytes \<Rightarrow> resp_slice \<Rightarrow> bytes" where
  "slice_bytes data s = take (slice_length s) (drop (slice_data s) data)"

datatype 'a resp_parse_result =
    RESP_PARSE_ERROR
  | RESP_PARSE_INCOMPLETE
  | RESP_PARSE_COMPLETE 'a

definition incomplete_or_error :: "nat \<Rightarrow> bool \<Rightarrow> nat \<Rightarrow> 'a resp_parse_result" where
  "incomplete_or_error available end_of_stream max_frame_size =
     (if end_of_stream \<or> available \<ge> max_frame_size then RESP_PARSE_ERROR
      else RESP_PARSE_INCOMPLETE)"

text \<open>The digit loop of \<open>parse_decimal_line\<close>; \<open>None\<close> is its early error return.\<close>

function decimal_loop ::
  "bytes \<Rightarrow> nat \<Rightarrow> nat \<Rightarrow> nat \<Rightarrow> nat \<Rightarrow> (nat \<times> nat \<times> nat) option" where
  "decimal_loop data max_frame_size cursor parsed digits =
     (if cursor < length data \<and> data ! cursor \<noteq> CR then
        if data ! cursor < 48 \<or> data ! cursor > 57 then None
        else let digit = unat (data ! cursor - 48) in
          if parsed > (SIZE_MAX - digit) div 10 then None
          else if cursor + 1 > max_frame_size then None
          else decimal_loop data max_frame_size (cursor + 1) (parsed * 10 + digit) (digits + 1)
      else Some (cursor, parsed, digits))"
  by pat_completeness auto
termination
  by (relation "measure (\<lambda>(data, m, cursor, p, d). length data - cursor)") auto

declare decimal_loop.simps [simp del]

text \<open>Returns the position after the line and the value.\<close>

definition parse_decimal_line ::
  "bytes \<Rightarrow> nat \<Rightarrow> bool \<Rightarrow> nat \<Rightarrow> (nat \<times> nat) resp_parse_result" where
  "parse_decimal_line data position end_of_stream max_frame_size =
     (case decimal_loop data max_frame_size position 0 0 of
        None \<Rightarrow> RESP_PARSE_ERROR
      | Some (cursor, parsed, digits) \<Rightarrow>
          if cursor \<ge> length data then
            incomplete_or_error (length data) end_of_stream max_frame_size
          else if digits = 0 \<or> cursor + 1 \<ge> length data then
            if digits = 0 then RESP_PARSE_ERROR
            else incomplete_or_error (length data) end_of_stream max_frame_size
          else if data ! (cursor + 1) \<noteq> LF then RESP_PARSE_ERROR
          else RESP_PARSE_COMPLETE (cursor + 2, parsed))"

text \<open>
  The argument loop of \<open>resp_parse_request_with_limit\<close>: \<open>remaining\<close> is
  \<open>argument_count - index\<close> and \<open>done\<close> holds the slices stored so far.
\<close>

fun parse_arguments ::
  "bytes \<Rightarrow> bool \<Rightarrow> nat \<Rightarrow> nat \<Rightarrow> nat \<Rightarrow> resp_slice list
     \<Rightarrow> (resp_slice list \<times> nat) resp_parse_result" where
  "parse_arguments data end_of_stream max_frame_size 0 position stored =
     RESP_PARSE_COMPLETE (stored, position)"
| "parse_arguments data end_of_stream max_frame_size (Suc remaining) position stored =
     (if position \<ge> length data then
        incomplete_or_error (length data) end_of_stream max_frame_size
      else if data ! position \<noteq> 36 then RESP_PARSE_ERROR
      else case parse_decimal_line data (position + 1) end_of_stream max_frame_size of
        RESP_PARSE_ERROR \<Rightarrow> RESP_PARSE_ERROR
      | RESP_PARSE_INCOMPLETE \<Rightarrow> RESP_PARSE_INCOMPLETE
      | RESP_PARSE_COMPLETE (start, bulk_length) \<Rightarrow>
          if bulk_length > max_frame_size \<or> start > max_frame_size - bulk_length then
            RESP_PARSE_ERROR
          else if length data - start < bulk_length then
            incomplete_or_error (length data) end_of_stream max_frame_size
          else let stop = start + bulk_length in
            if stop + 2 > length data then
              incomplete_or_error (length data) end_of_stream max_frame_size
            else if stop + 2 > max_frame_size \<or> data ! stop \<noteq> CR
                    \<or> data ! (stop + 1) \<noteq> LF then RESP_PARSE_ERROR
            else parse_arguments data end_of_stream max_frame_size remaining (stop + 2)
                   (stored @ [\<lparr>slice_data = start, slice_length = bulk_length\<rparr>]))"

text \<open>Returns the argument slices and the number of bytes consumed.\<close>

definition resp_parse_request_with_limit ::
  "bytes \<Rightarrow> bool \<Rightarrow> nat \<Rightarrow> (resp_slice list \<times> nat) resp_parse_result" where
  "resp_parse_request_with_limit data end_of_stream max_frame_size =
     (if max_frame_size = 0 then RESP_PARSE_ERROR
      else if length data = 0 then
        (if end_of_stream then RESP_PARSE_ERROR else RESP_PARSE_INCOMPLETE)
      else if data ! 0 \<noteq> 42 then RESP_PARSE_ERROR
      else case parse_decimal_line data 1 end_of_stream max_frame_size of
        RESP_PARSE_ERROR \<Rightarrow> RESP_PARSE_ERROR
      | RESP_PARSE_INCOMPLETE \<Rightarrow> RESP_PARSE_INCOMPLETE
      | RESP_PARSE_COMPLETE (position, argument_count) \<Rightarrow>
          if argument_count = 0 \<or> argument_count > RESP_MAX_ARGUMENTS then RESP_PARSE_ERROR
          else parse_arguments data end_of_stream max_frame_size argument_count position [])"

definition resp_parse_request :: "bytes \<Rightarrow> bool \<Rightarrow> (resp_slice list \<times> nat) resp_parse_result" where
  "resp_parse_request data end_of_stream =
     resp_parse_request_with_limit data end_of_stream RESP_MAX_FRAME_SIZE"

subsection \<open>Encoders\<close>

definition encode_unsigned_line :: "byte \<Rightarrow> nat \<Rightarrow> nat \<Rightarrow> bytes option" where
  "encode_unsigned_line prefix value capacity =
     (let digits = decimal_reverse value; count = length digits in
      if capacity < count + 3 then None
      else Some (prefix # rev digits @ [CR, LF]))"

definition encode_line :: "byte \<Rightarrow> nat \<Rightarrow> bytes \<Rightarrow> bytes option" where
  "encode_line prefix capacity txt =
     (if length txt > capacity \<or> capacity - length txt < 3 then None
      else Some (prefix # txt @ [CR, LF]))"

definition resp_encode_simple_string :: "nat \<Rightarrow> bytes \<Rightarrow> bytes option" where
  "resp_encode_simple_string = encode_line 43"

definition resp_encode_error :: "nat \<Rightarrow> bytes \<Rightarrow> bytes option" where
  "resp_encode_error = encode_line 45"

text \<open>\<open>value\<close> is an \<open>int64_t\<close>: the magnitude of a negative one is \<open>-(value + 1) + 1\<close> in \<open>uint64_t\<close>.\<close>

definition resp_encode_integer :: "nat \<Rightarrow> 64 word \<Rightarrow> bytes option" where
  "resp_encode_integer capacity value =
     (if capacity = 0 then None
      else let negative = (sint value < 0) in
        if negative \<and> capacity < 2 then None
        else let magnitude = (if negative then (- (value + 1)) + 1 else value) :: u64;
                 digits = decimal_reverse (unat magnitude);
                 count = length digits in
          if capacity < 1 + (if negative then 1 else 0) + count + 2 then None
          else Some ([58] @ (if negative then [45] else []) @ rev digits @ [CR, LF]))"

definition resp_encode_bulk_string :: "nat \<Rightarrow> bytes \<Rightarrow> bytes option" where
  "resp_encode_bulk_string capacity data =
     (case encode_unsigned_line 36 (length data) capacity of
        None \<Rightarrow> None
      | Some header \<Rightarrow>
          if length data > SIZE_MAX - length header - 2 then None
          else let total = length header + length data + 2 in
            if total > capacity then None
            else Some (header @ data @ [CR, LF]))"

definition resp_encode_null_bulk_string :: "nat \<Rightarrow> bytes option" where
  "resp_encode_null_bulk_string capacity =
     (if capacity < 5 then None else Some [36, 45, 49, CR, LF])"

fun encode_elements :: "nat \<Rightarrow> bytes list \<Rightarrow> bytes \<Rightarrow> bytes option" where
  "encode_elements capacity [] output = Some output"
| "encode_elements capacity (e # es) output =
     (case resp_encode_bulk_string (capacity - length output) e of
        None \<Rightarrow> None
      | Some encoded \<Rightarrow> encode_elements capacity es (output @ encoded))"

definition resp_encode_bulk_array :: "nat \<Rightarrow> bytes list \<Rightarrow> bytes option" where
  "resp_encode_bulk_array capacity elements =
     (case encode_unsigned_line 42 (length elements) capacity of
        None \<Rightarrow> None
      | Some header \<Rightarrow> encode_elements capacity elements header)"

subsection \<open>Bounds\<close>

lemma incomplete_or_error_simps [simp]:
  "incomplete_or_error a e m \<noteq> RESP_PARSE_COMPLETE r"
  "incomplete_or_error a e m = RESP_PARSE_INCOMPLETE \<longleftrightarrow> \<not> e \<and> a < m"
  by (auto simp: incomplete_or_error_def)

lemma decimal_loop_cursor:
  "decimal_loop data m c p d = Some (c', p', d') \<Longrightarrow> c \<le> length data \<Longrightarrow>
     c \<le> c' \<and> c' \<le> length data \<and> d' = d + (c' - c) \<and> (c < c' \<longrightarrow> c' \<le> m)
     \<and> (c' < length data \<longrightarrow> data ! c' = CR)"
proof (induction data m c p d arbitrary: c' p' d' rule: decimal_loop.induct)
  case (1 data m c p d)
  show ?case
  proof (cases "c < length data \<and> data ! c \<noteq> CR")
    case True
    with "1.prems" have "decimal_loop data m (c + 1) (p * 10 + unat (data ! c - 48)) (d + 1)
        = Some (c', p', d')" and g: "\<not> (data ! c < 48 \<or> data ! c > 57)"
        "\<not> (SIZE_MAX - unat (data ! c - 48)) div 10 < p" and m: "\<not> m < c + 1"
      by (auto simp: decimal_loop.simps [of data m c] Let_def split: if_splits)
    from "1.IH" [OF True g(1) refl g(2) m this(1)] True m show ?thesis by auto
  next
    case False
    with "1.prems" show ?thesis
      by (subst (asm) decimal_loop.simps) (auto split: if_splits)
  qed
qed

lemma parse_decimal_line_bounds:
  assumes "parse_decimal_line data pos e m = RESP_PARSE_COMPLETE (pos', v)" "pos \<le> length data"
  shows "pos + 3 \<le> pos' \<and> pos' \<le> length data \<and> pos' \<le> m + 2"
proof -
  from assms(1) obtain c p d where loop: "decimal_loop data m pos 0 0 = Some (c, p, d)"
    and c: "c + 1 < length data" "d \<noteq> 0" "pos' = c + 2"
    by (auto simp: parse_decimal_line_def split: option.splits if_splits prod.splits)
  from decimal_loop_cursor [OF loop assms(2)] c show ?thesis by auto
qed

lemma parse_decimal_line_incomplete:
  "parse_decimal_line data pos e m = RESP_PARSE_INCOMPLETE \<Longrightarrow> \<not> e \<and> length data < m"
  by (auto simp: parse_decimal_line_def split: option.splits if_splits prod.splits)

definition slice_ok :: "nat \<Rightarrow> resp_slice \<Rightarrow> bool" where
  "slice_ok limit s \<longleftrightarrow> slice_data s + slice_length s + 2 \<le> limit"

lemma parse_arguments_bounds:
  "parse_arguments data e m n pos stored = RESP_PARSE_COMPLETE (slices, pos') \<Longrightarrow>
     pos \<le> length data \<Longrightarrow> list_all (slice_ok pos) stored \<Longrightarrow>
     pos \<le> pos' \<and> pos' \<le> length data \<and> (0 < n \<longrightarrow> pos' \<le> m)
     \<and> length slices = length stored + n \<and> list_all (slice_ok pos') slices"
proof (induction data e m n pos stored rule: parse_arguments.induct)
  case (1 data e m pos stored)
  then show ?case by auto
next
  case (2 data e m n pos stored)
  from "2.prems"(1) obtain start len where
    line: "parse_decimal_line data (pos + 1) e m = RESP_PARSE_COMPLETE (start, len)"
    and pos: "\<not> length data \<le> pos" "\<not> data ! pos \<noteq> 36"
    and guards: "\<not> (m < len \<or> m - len < start)" "\<not> length data - start < len"
      "\<not> length data < start + len + 2"
      "\<not> (m < start + len + 2 \<or> data ! (start + len) \<noteq> CR \<or> data ! (start + len + 1) \<noteq> LF)"
    and rest: "parse_arguments data e m n (start + len + 2)
      (stored @ [\<lparr>slice_data = start, slice_length = len\<rparr>]) = RESP_PARSE_COMPLETE (slices, pos')"
    by (auto simp: Let_def split: resp_parse_result.splits if_splits)
  have le: "pos \<le> start" using parse_decimal_line_bounds [OF line] pos by simp
  have stored: "list_all (slice_ok (start + len + 2))
      (stored @ [\<lparr>slice_data = start, slice_length = len\<rparr>])"
    using "2.prems"(3) le by (auto simp: list_all_iff slice_ok_def)
  have "start + len + 2 \<le> pos' \<and> pos' \<le> length data \<and> (0 < n \<longrightarrow> pos' \<le> m)
     \<and> length slices = length (stored @ [\<lparr>slice_data = start, slice_length = len\<rparr>]) + n
     \<and> list_all (slice_ok pos') slices"
    using "2.IH" [OF pos line refl guards(1,2) refl guards(3,4) rest _ stored] guards(3) by simp
  moreover have "n = 0 \<longrightarrow> pos' = start + len + 2" using rest by auto
  ultimately show ?case using le guards(4) by auto
qed

lemma parse_arguments_incomplete:
  "parse_arguments data e m n pos stored = RESP_PARSE_INCOMPLETE \<Longrightarrow> \<not> e \<and> length data < m"
proof (induction n arbitrary: pos stored)
  case 0
  then show ?case by simp
next
  case (Suc n)
  then show ?case
    by (auto simp: Let_def dest: parse_decimal_line_incomplete
      split: resp_parse_result.splits if_splits)
qed

subsection \<open>More input does not change a complete frame\<close>

lemma decimal_loop_append:
  "decimal_loop data m c p d = Some (c', p', d') \<Longrightarrow> c' < length data \<Longrightarrow>
     decimal_loop (data @ tail) m c p d = Some (c', p', d')"
proof (induction data m c p d arbitrary: c' p' d' rule: decimal_loop.induct)
  case (1 data m c p d)
  show ?case
  proof (cases "c < length data \<and> data ! c \<noteq> CR")
    case True
    with "1.prems" have rest: "decimal_loop data m (c + 1) (p * 10 + unat (data ! c - 48)) (d + 1)
        = Some (c', p', d')" and g: "\<not> (data ! c < 48 \<or> data ! c > 57)"
        "\<not> (SIZE_MAX - unat (data ! c - 48)) div 10 < p" and m: "\<not> m < c + 1"
      by (auto simp: decimal_loop.simps [of data m c] Let_def split: if_splits)
    from "1.IH" [OF True g(1) refl g(2) m rest "1.prems"(2)] True g m show ?thesis
      by (subst decimal_loop.simps) (simp add: nth_append Let_def)
  next
    case False
    with "1.prems" have "c = c' \<and> p = p' \<and> d = d'"
      by (subst (asm) decimal_loop.simps) (auto split: if_splits)
    with False "1.prems"(2) show ?thesis
      by (subst decimal_loop.simps) (auto simp: nth_append)
  qed
qed

lemma parse_decimal_line_append:
  assumes "parse_decimal_line data pos e m = RESP_PARSE_COMPLETE r"
  shows "parse_decimal_line (data @ tail) pos e' m = RESP_PARSE_COMPLETE r"
proof -
  from assms obtain c p d where loop: "decimal_loop data m pos 0 0 = Some (c, p, d)"
    and c: "c + 1 < length data" "d \<noteq> 0" "data ! (c + 1) = LF" "r = (c + 2, p)"
    by (auto simp: parse_decimal_line_def split: option.splits if_splits prod.splits)
  then have "decimal_loop (data @ tail) m pos 0 0 = Some (c, p, d)"
    by (intro decimal_loop_append) simp_all
  with c show ?thesis by (simp add: parse_decimal_line_def nth_append)
qed

lemma parse_arguments_append:
  "parse_arguments data e m n pos stored = RESP_PARSE_COMPLETE r \<Longrightarrow>
     parse_arguments (data @ tail) e' m n pos stored = RESP_PARSE_COMPLETE r"
proof (induction data e m n pos stored rule: parse_arguments.induct)
  case (1 data e m pos stored)
  then show ?case by simp
next
  case (2 data e m n pos stored)
  from "2.prems" obtain start len where
    line: "parse_decimal_line data (pos + 1) e m = RESP_PARSE_COMPLETE (start, len)"
    and pos: "\<not> length data \<le> pos" "\<not> data ! pos \<noteq> 36"
    and guards: "\<not> (m < len \<or> m - len < start)" "\<not> length data - start < len"
      "\<not> length data < start + len + 2"
      "\<not> (m < start + len + 2 \<or> data ! (start + len) \<noteq> CR \<or> data ! (start + len + 1) \<noteq> LF)"
    and rest: "parse_arguments data e m n (start + len + 2)
      (stored @ [\<lparr>slice_data = start, slice_length = len\<rparr>]) = RESP_PARSE_COMPLETE r"
    by (auto simp: Let_def split: resp_parse_result.splits if_splits)
  from "2.IH" [OF pos line refl guards(1,2) refl guards(3,4) rest]
    parse_decimal_line_append [OF line] pos guards
  show ?case by (simp add: nth_append Let_def)
qed

subsection \<open>Encoders against the wire format\<close>

text \<open>The wire format of a bulk string and of an array of bulk strings.\<close>

definition resp_bulk :: "bytes \<Rightarrow> bytes" where
  "resp_bulk e = 36 # decimal_text (length e) @ [CR, LF] @ e @ [CR, LF]"

definition resp_frame :: "bytes list \<Rightarrow> bytes" where
  "resp_frame es = 42 # decimal_text (length es) @ [CR, LF] @ concat (map resp_bulk es)"

lemma encode_unsigned_line_eq:
  "encode_unsigned_line prefix v capacity =
     (if length (decimal_text v) + 3 \<le> capacity
      then Some (prefix # decimal_text v @ [CR, LF]) else None)"
  by (simp add: encode_unsigned_line_def decimal_text_def Let_def)

lemma resp_encode_bulk_string_eq:
  "capacity \<le> SIZE_MAX \<Longrightarrow> resp_encode_bulk_string capacity e =
     (if length (resp_bulk e) \<le> capacity then Some (resp_bulk e) else None)"
  by (auto simp: resp_encode_bulk_string_def encode_unsigned_line_eq resp_bulk_def Let_def)

lemma encode_elements_eq:
  "capacity \<le> SIZE_MAX \<Longrightarrow> length sofar \<le> capacity \<Longrightarrow> encode_elements capacity es sofar =
     (if length sofar + length (concat (map resp_bulk es)) \<le> capacity
      then Some (sofar @ concat (map resp_bulk es)) else None)"
proof (induction es arbitrary: sofar)
  case Nil
  then show ?case by simp
next
  case (Cons e es)
  have e: "resp_encode_bulk_string (capacity - length sofar) e =
     (if length (resp_bulk e) \<le> capacity - length sofar then Some (resp_bulk e) else None)"
    using Cons.prems by (intro resp_encode_bulk_string_eq) simp
  show ?case
  proof (cases "length (resp_bulk e) \<le> capacity - length sofar")
    case True
    with Cons.prems have "length (sofar @ resp_bulk e) \<le> capacity" by simp
    from Cons.IH [OF Cons.prems(1) this] True show ?thesis by (simp add: e add.assoc)
  next
    case False
    then show ?thesis by (simp add: e)
  qed
qed

lemma resp_encode_bulk_array_eq:
  "capacity \<le> SIZE_MAX \<Longrightarrow> resp_encode_bulk_array capacity es =
     (if length (resp_frame es) \<le> capacity then Some (resp_frame es) else None)"
  by (auto simp: resp_encode_bulk_array_def encode_unsigned_line_eq resp_frame_def
      encode_elements_eq)

subsection \<open>Round trip\<close>

lemma decimal_loop_text:
  "\<forall>b \<in> set ds. is_digit b \<Longrightarrow> decimal_value p ds \<le> SIZE_MAX \<Longrightarrow> length pre + length ds \<le> m \<Longrightarrow>
     decimal_loop (pre @ ds @ CR # post) m (length pre) p d =
       Some (length pre + length ds, decimal_value p ds, d + length ds)"
proof (induction ds arbitrary: pre p d)
  case Nil
  then show ?case by (subst decimal_loop.simps) simp
next
  case (Cons b ds)
  from Cons.prems have b: "is_digit b" by simp
  have le: "p * 10 + digit_value b \<le> SIZE_MAX"
    using decimal_value_mono [of "p * 10 + digit_value b" ds] Cons.prems(2) by simp
  have "digit_value b \<le> SIZE_MAX" using le by simp
  from decimal_guard [OF this, of p] le
  have guard: "\<not> (SIZE_MAX - unat (b - 48)) div 10 < p" by (simp add: digit_value_def)
  have "decimal_loop ((pre @ [b]) @ ds @ CR # post) m (length (pre @ [b]))
      (p * 10 + digit_value b) (d + 1) =
    Some (length (pre @ [b]) + length ds, decimal_value (p * 10 + digit_value b) ds,
      d + 1 + length ds)"
    by (rule Cons.IH) (use Cons.prems in auto)
  with guard b is_digit_not_CR [OF b] Cons.prems(3) show ?case
    by (subst decimal_loop.simps)
      (auto simp: Let_def is_digit_def digit_value_def not_less [symmetric])
qed

lemma parse_decimal_line_text:
  assumes "v \<le> SIZE_MAX" "length pre + length (decimal_text v) \<le> m"
  shows "parse_decimal_line (pre @ decimal_text v @ CR # LF # post) (length pre) e m =
    RESP_PARSE_COMPLETE (length pre + length (decimal_text v) + 2, v)"
proof -
  have "decimal_loop (pre @ decimal_text v @ CR # LF # post) m (length pre) 0 0 =
      Some (length pre + length (decimal_text v), v, length (decimal_text v))"
    using decimal_loop_text [of "decimal_text v" 0 pre m "LF # post" 0] assms
    by (simp add: decimal_text_digits)
  then show ?thesis by (simp add: parse_decimal_line_def nth_append)
qed

fun frame_slices :: "nat \<Rightarrow> bytes list \<Rightarrow> resp_slice list" where
  "frame_slices pos [] = []"
| "frame_slices pos (e # es) =
     \<lparr>slice_data = pos + length (decimal_text (length e)) + 3, slice_length = length e\<rparr>
     # frame_slices (pos + length (resp_bulk e)) es"

lemma parse_arguments_frame:
  "m \<le> SIZE_MAX \<Longrightarrow> length pre + length (concat (map resp_bulk es)) \<le> m \<Longrightarrow>
     parse_arguments (pre @ concat (map resp_bulk es) @ post) e m (length es) (length pre) stored =
       RESP_PARSE_COMPLETE (stored @ frame_slices (length pre) es,
         length pre + length (concat (map resp_bulk es)))"
proof (induction es arbitrary: pre stored)
  case Nil
  then show ?case by simp
next
  case (Cons x es)
  let ?t = "decimal_text (length x)"
  let ?tail = "concat (map resp_bulk es) @ post"
  let ?data = "pre @ concat (map resp_bulk (x # es)) @ post"
  have data: "?data = (pre @ [36]) @ ?t @ CR # LF # x @ CR # LF # ?tail"
    by (simp add: resp_bulk_def)
  have len: "length (resp_bulk x) = length ?t + length x + 5" by (simp add: resp_bulk_def)
  have line: "parse_decimal_line ?data (length pre + 1) e m =
      RESP_PARSE_COMPLETE (length pre + 1 + length ?t + 2, length x)"
    unfolding data
    using parse_decimal_line_text [of "length x" "pre @ [36]" m "x @ CR # LF # ?tail" e]
      Cons.prems len by simp
  have IH: "parse_arguments ((pre @ resp_bulk x) @ concat (map resp_bulk es) @ post) e m (length es)
      (length (pre @ resp_bulk x)) (stored @ [s]) =
    RESP_PARSE_COMPLETE ((stored @ [s]) @ frame_slices (length (pre @ resp_bulk x)) es,
      length (pre @ resp_bulk x) + length (concat (map resp_bulk es)))" for s
    by (rule Cons.IH) (use Cons.prems in auto)
  have at: "?data ! length pre = 36" "?data ! (length pre + 1 + length ?t + 2 + length x) = CR"
    "?data ! (length pre + 1 + length ?t + 2 + length x + 1) = LF"
    unfolding data by (simp_all add: nth_append nth_Cons')
  have total: "length ?data = length pre + length (resp_bulk x) + length ?tail" by simp
  show ?case
    using line IH at total Cons.prems len
    by (simp add: Let_def eval_nat_numeral add.assoc)
qed

lemma frame_slices_bytes:
  "map (slice_bytes (pre @ concat (map resp_bulk es) @ post)) (frame_slices (length pre) es) = es"
proof (induction es arbitrary: pre)
  case Nil
  then show ?case by simp
next
  case (Cons x es)
  have "map (slice_bytes ((pre @ resp_bulk x) @ concat (map resp_bulk es) @ post))
     (frame_slices (length (pre @ resp_bulk x)) es) = es" by (rule Cons.IH)
  moreover have "slice_bytes (pre @ resp_bulk x @ concat (map resp_bulk es) @ post)
     \<lparr>slice_data = length pre + length (decimal_text (length x)) + 3, slice_length = length x\<rparr> = x"
    by (simp add: slice_bytes_def resp_bulk_def eval_nat_numeral)
  ultimately show ?case by simp
qed

subsection \<open>An error is final\<close>

lemma decimal_loop_append_None:
  "decimal_loop data m c p d = None \<Longrightarrow> decimal_loop (data @ tail) m c p d = None"
proof (induction data m c p d rule: decimal_loop.induct)
  case (1 data m c p d)
  then have c: "c < length data \<and> data ! c \<noteq> CR"
    by (subst (asm) (2) decimal_loop.simps) (auto split: if_splits)
  with 1 show ?case
    by (subst decimal_loop.simps, subst (asm) (2) decimal_loop.simps)
      (auto simp: Let_def nth_append split: if_splits)
qed

lemma decimal_loop_append_end:
  "decimal_loop data m c p d = Some (c', p', d') \<Longrightarrow> c' = length data \<Longrightarrow>
     decimal_loop (data @ tail) m c p d = decimal_loop (data @ tail) m c' p' d'"
proof (induction data m c p d arbitrary: c' p' d' rule: decimal_loop.induct)
  case (1 data m c p d)
  show ?case
  proof (cases "c < length data \<and> data ! c \<noteq> CR")
    case True
    with "1.prems" have rest: "decimal_loop data m (c + 1) (p * 10 + unat (data ! c - 48)) (d + 1)
        = Some (c', p', d')" and g: "\<not> (data ! c < 48 \<or> data ! c > 57)"
        "\<not> (SIZE_MAX - unat (data ! c - 48)) div 10 < p" and m: "\<not> m < c + 1"
      by (auto simp: decimal_loop.simps [of data m c] Let_def split: if_splits)
    from "1.IH" [OF True g(1) refl g(2) m rest "1.prems"(2)] True g m show ?thesis
      by (subst decimal_loop.simps) (simp add: nth_append Let_def)
  next
    case False
    with "1.prems" show ?thesis
      by (subst (asm) decimal_loop.simps) (auto split: if_splits)
  qed
qed

text \<open>Past the frame limit no line can be read.\<close>

lemma decimal_loop_limit:
  "m \<le> c \<Longrightarrow> decimal_loop data m c p d = None \<or> decimal_loop data m c p d = Some (c, p, d)"
  by (subst (1 2) decimal_loop.simps) (simp add: Let_def)

lemma parse_decimal_line_limit:
  assumes "m < pos" "m \<le> length data"
  shows "parse_decimal_line data pos e m = RESP_PARSE_ERROR"
  using decimal_loop_limit [of m pos data 0 0] assms
  by (auto simp: parse_decimal_line_def incomplete_or_error_def)

lemma parse_arguments_limit:
  "m < pos \<Longrightarrow> m \<le> length data \<Longrightarrow> 0 < n \<Longrightarrow>
     parse_arguments data e m n pos stored = RESP_PARSE_ERROR"
  by (cases n) (auto simp: incomplete_or_error_def parse_decimal_line_limit)

lemma parse_decimal_line_error:
  assumes err: "parse_decimal_line data pos False m = RESP_PARSE_ERROR" and pos: "pos \<le> length data"
  shows "parse_decimal_line (data @ tail) pos e m = RESP_PARSE_ERROR
    \<or> m \<le> length data \<and> (\<exists>p v. parse_decimal_line (data @ tail) pos e m = RESP_PARSE_COMPLETE (p, v) \<and> m < p)"
proof (cases "decimal_loop data m pos 0 0")
  case None
  then show ?thesis by (simp add: parse_decimal_line_def decimal_loop_append_None)
next
  case (Some r)
  obtain c p d where r: "r = (c, p, d)" by (cases r)
  note loop = Some [unfolded r]
  have c: "c \<le> length data" using decimal_loop_cursor [OF loop pos] by simp
  show ?thesis
  proof (cases "c = length data")
    case True
    with err loop have m: "m \<le> c"
      by (auto simp: parse_decimal_line_def incomplete_or_error_def split: if_splits)
    from decimal_loop_append_end [OF loop True, of tail]
      decimal_loop_limit [OF m, of "data @ tail" p d] m True
    show ?thesis
      by (auto simp: parse_decimal_line_def incomplete_or_error_def split: if_splits)
  next
    case False
    with c have lt: "c < length data" by simp
    from decimal_loop_append [OF loop lt, of tail] err loop lt show ?thesis
      by (auto simp: parse_decimal_line_def incomplete_or_error_def nth_append split: if_splits)
  qed
qed

lemma parse_arguments_error:
  "parse_arguments data False m n pos stored = RESP_PARSE_ERROR \<Longrightarrow> pos \<le> length data \<Longrightarrow>
     parse_arguments (data @ tail) e m n pos stored = RESP_PARSE_ERROR"
proof (induction n arbitrary: pos stored)
  case 0
  then show ?case by simp
next
  case (Suc n)
  show ?case
  proof (cases "pos < length data \<and> data ! pos = 36")
    case False
    with Suc.prems show ?thesis
      by (auto simp: incomplete_or_error_def nth_append parse_decimal_line_limit split: if_splits)
  next
    case True
    show ?thesis
    proof (cases "parse_decimal_line data (pos + 1) False m")
      case RESP_PARSE_ERROR
      from parse_decimal_line_error [OF this, of tail e] True show ?thesis
        by (auto simp: nth_append)
    next
      case RESP_PARSE_INCOMPLETE
      with Suc.prems True show ?thesis by simp
    next
      case (RESP_PARSE_COMPLETE r)
      obtain start len where r: "r = (start, len)" by (cases r)
      note line = RESP_PARSE_COMPLETE [unfolded r]
      have start: "start \<le> length data" using parse_decimal_line_bounds [OF line] True by simp
      note line' = parse_decimal_line_append [OF line, of tail e]
      consider "m < len \<or> m - len < start" | "\<not> (m < len \<or> m - len < start)" "length data < start + len + 2"
        | "\<not> (m < len \<or> m - len < start)" "start + len + 2 \<le> length data" by linarith
      then show ?thesis
      proof cases
        case 1
        with True line' show ?thesis by (simp add: nth_append)
      next
        case 2
        with Suc.prems(1) True line have "m \<le> length data"
          by (simp add: Let_def incomplete_or_error_def split: if_splits)
        with 2 True line' show ?thesis
          by (simp add: Let_def incomplete_or_error_def nth_append)
      next
        case 3
        then have "\<not> length data - start < len" "\<not> length data + length tail - start < len" by linarith+
        with 3 Suc.prems(1) True line line' Suc.IH [of "start + len + 2"] show ?thesis
          by (auto simp: Let_def nth_append split: if_splits)
      qed
    qed
  qed
qed

lemma uint_sint_mod: "uint (w::64 word) = sint w mod 2 ^ 64"
  by (simp add: uint_sint [of w] take_bit_eq_mod del: sint_uint)

lemma negative_magnitude:
  assumes "sint (w::64 word) < 0"
  shows "unat (- w) = nat (- sint w)"
proof -
  have "uint (- w) = (- (sint w mod 2 ^ 64)) mod 2 ^ 64"
    by (simp add: uint_word_ariths uint_sint_mod [of w])
  also have "\<dots> = (- sint w) mod 2 ^ 64" by (rule mod_minus_eq)
  also have "\<dots> = - sint w" using sint_ge [of w] assms by simp
  finally show ?thesis by (metis nat_uint_eq)
qed

lemma nonnegative_magnitude: "0 \<le> sint (w::64 word) \<Longrightarrow> unat w = nat (sint w)"
  using sint_lt [of w] uint_sint_mod [of w] by (simp flip: nat_uint_eq)

definition integer_text :: "int \<Rightarrow> bytes" where
  "integer_text v = (if v < 0 then 45 # decimal_text (nat (- v)) else decimal_text (nat v))"

lemma resp_encode_integer_eq:
  "resp_encode_integer capacity w =
     (if length (integer_text (sint w)) + 3 \<le> capacity
      then Some (58 # integer_text (sint w) @ [CR, LF]) else None)"
proof (cases "sint w < 0")
  case True
  then show ?thesis
    using negative_magnitude [OF True]
    by (auto simp: resp_encode_integer_def integer_text_def decimal_text_def Let_def)
next
  case False
  then show ?thesis
    using nonnegative_magnitude [of w]
    by (auto simp: resp_encode_integer_def integer_text_def decimal_text_def Let_def)
qed

lemma resp_parse_complete_iff:
  "resp_parse_request_with_limit data e m = RESP_PARSE_COMPLETE r \<longleftrightarrow>
     0 < m \<and> data \<noteq> [] \<and> data ! 0 = 42 \<and>
     (\<exists>pos n. parse_decimal_line data 1 e m = RESP_PARSE_COMPLETE (pos, n)
        \<and> 0 < n \<and> n \<le> RESP_MAX_ARGUMENTS \<and> parse_arguments data e m n pos [] = RESP_PARSE_COMPLETE r)"
  by (auto simp: resp_parse_request_with_limit_def split: resp_parse_result.splits if_splits)

lemma parse_request_bounds:
  assumes "resp_parse_request_with_limit data e m = RESP_PARSE_COMPLETE (slices, consumed)"
  shows "consumed \<le> length data \<and> consumed \<le> m \<and>
    1 \<le> length slices \<and> length slices \<le> RESP_MAX_ARGUMENTS \<and>
    list_all (slice_ok consumed) slices"
proof -
  from assms obtain pos n where line: "parse_decimal_line data 1 e m = RESP_PARSE_COMPLETE (pos, n)"
    and n: "n \<noteq> 0" "n \<le> RESP_MAX_ARGUMENTS" and len: "1 \<le> length data"
    and args: "parse_arguments data e m n pos [] = RESP_PARSE_COMPLETE (slices, consumed)"
    by (auto simp: resp_parse_complete_iff Suc_le_eq)
  from parse_arguments_bounds [OF args] parse_decimal_line_bounds [OF line] n len
  show ?thesis by auto
qed

lemma parse_complete_append:
  assumes "resp_parse_request_with_limit data e m = RESP_PARSE_COMPLETE r"
  shows "resp_parse_request_with_limit (data @ tail) e' m = RESP_PARSE_COMPLETE r"
  using assms unfolding resp_parse_complete_iff
  by (auto simp: nth_append intro: parse_decimal_line_append parse_arguments_append)

lemma parse_error_append:
  assumes "resp_parse_request_with_limit data False m = RESP_PARSE_ERROR"
  shows "resp_parse_request_with_limit (data @ tail) e m = RESP_PARSE_ERROR"
proof (cases "m = 0 \<or> data = [] \<or> data ! 0 \<noteq> 42")
  case True
  with assms show ?thesis by (auto simp: resp_parse_request_with_limit_def nth_append split: if_splits)
next
  case False
  then have len: "1 \<le> length data" by (simp add: Suc_le_eq)
  show ?thesis
  proof (cases "parse_decimal_line data 1 False m")
    case RESP_PARSE_ERROR
    from parse_decimal_line_error [OF this len, of tail e] False show ?thesis
      by (auto simp: resp_parse_request_with_limit_def nth_append parse_arguments_limit)
  next
    case RESP_PARSE_INCOMPLETE
    with assms False show ?thesis by (simp add: resp_parse_request_with_limit_def)
  next
    case (RESP_PARSE_COMPLETE r)
    obtain pos n where r: "r = (pos, n)" by (cases r)
    note line = RESP_PARSE_COMPLETE [unfolded r]
    have "pos \<le> length data" using parse_decimal_line_bounds [OF line len] by simp
    with assms False line parse_decimal_line_append [OF line, of tail e] show ?thesis
      by (auto simp: resp_parse_request_with_limit_def nth_append
          intro: parse_arguments_error split: if_splits)
  qed
qed

lemma parse_frame:
  assumes "1 \<le> length args" "length args \<le> RESP_MAX_ARGUMENTS" "length (resp_frame args) \<le> m" "m \<le> SIZE_MAX"
  shows "\<exists>slices. resp_parse_request_with_limit (resp_frame args @ rest) e m =
      RESP_PARSE_COMPLETE (slices, length (resp_frame args))
    \<and> map (slice_bytes (resp_frame args @ rest)) slices = args"
proof -
  let ?h = "42 # decimal_text (length args) @ [CR, LF]"
  have frame: "resp_frame args = ?h @ concat (map resp_bulk args)" by (simp add: resp_frame_def)
  have "length args \<le> SIZE_MAX" using assms(2) by (simp add: RESP_MAX_ARGUMENTS_def SIZE_MAX_def)
  then have line: "parse_decimal_line (resp_frame args @ rest) 1 e m =
      RESP_PARSE_COMPLETE (length ?h, length args)"
    using parse_decimal_line_text [of "length args" "[42]" m "concat (map resp_bulk args) @ rest" e]
      assms(3) by (simp add: frame)
  have "parse_arguments (?h @ concat (map resp_bulk args) @ rest) e m (length args) (length ?h) [] =
      RESP_PARSE_COMPLETE ([] @ frame_slices (length ?h) args,
        length ?h + length (concat (map resp_bulk args)))"
    by (rule parse_arguments_frame) (use assms(3,4) frame in auto)
  then have "resp_parse_request_with_limit (resp_frame args @ rest) e m =
      RESP_PARSE_COMPLETE (frame_slices (length ?h) args, length (resp_frame args))"
    using line assms(1,2,3) by (auto simp: resp_parse_request_with_limit_def frame)
  moreover have "map (slice_bytes (resp_frame args @ rest)) (frame_slices (length ?h) args) = args"
    using frame_slices_bytes [of ?h args rest] by (simp add: frame)
  ultimately show ?thesis by blast
qed

text \<open>A proper prefix of a frame is neither accepted nor rejected.\<close>

lemma parse_frame_prefix:
  assumes args: "1 \<le> length args" "length args \<le> RESP_MAX_ARGUMENTS" "length (resp_frame args) \<le> m" "m \<le> SIZE_MAX"
    and pre: "resp_frame args = pre @ tail" "tail \<noteq> []"
  shows "resp_parse_request_with_limit pre False m = RESP_PARSE_INCOMPLETE"
proof (cases "resp_parse_request_with_limit pre False m")
  case RESP_PARSE_ERROR
  with parse_error_append [OF this, of tail False] parse_frame [OF args, of "[]" False] pre show ?thesis by simp
next
  case (RESP_PARSE_COMPLETE r)
  obtain slices n where r: "r = (slices, n)" by (cases r)
  have "n \<le> length pre" using parse_request_bounds RESP_PARSE_COMPLETE r by blast
  with parse_complete_append [OF RESP_PARSE_COMPLETE, of tail False] parse_frame [OF args, of "[]" False] pre r
  show ?thesis by simp
qed

subsection \<open>Properties\<close>

text \<open>
  C11. Memory safety and limits of the parser: a request it accepts was read from inside
  the input and inside the frame limit, has between 1 and 128 arguments, and every argument
  slice with its trailing CRLF lies before the consumed position.
\<close>

theorem resp_parse_bounds:
  assumes "resp_parse_request_with_limit data e m = RESP_PARSE_COMPLETE (slices, consumed)"
  shows "consumed \<le> length data \<and> consumed \<le> m \<and>
    1 \<le> length slices \<and> length slices \<le> RESP_MAX_ARGUMENTS \<and>
    list_all (slice_ok consumed) slices"
  using assms by (rule parse_request_bounds)

theorem resp_parse_bounds_witness:
  "resp_parse_request_with_limit (ascii ''*1'' @ [13,10] @ ascii ''$1'' @ [13,10,65,13,10,42]) False 64
     = RESP_PARSE_COMPLETE ([\<lparr>slice_data = 8, slice_length = 1\<rparr>], 11) \<and>
   list_all (slice_ok 11) [\<lparr>slice_data = 8, slice_length = 1\<rparr>]"
proof -
  have *: "resp_parse_request_with_limit (ascii ''*1'' @ [13,10] @ ascii ''$1'' @ [13,10,65,13,10,42]) False 64
     = RESP_PARSE_COMPLETE ([\<lparr>slice_data = 8, slice_length = 1\<rparr>], 11)"
    by code_simp
  from resp_parse_bounds [OF *] * show ?thesis by blast
qed

text \<open>
  C10. Round trip: the bytes \<open>resp_encode_bulk_array\<close> writes for 1 to 128 arguments are parsed
  back to the same arguments, whatever follows them in the input, and exactly they are consumed.
\<close>

theorem resp_roundtrip:
  assumes "resp_encode_bulk_array capacity args = Some frame"
    and "1 \<le> length args" "length args \<le> RESP_MAX_ARGUMENTS"
    and "capacity \<le> SIZE_MAX" "length frame \<le> m" "m \<le> SIZE_MAX"
  shows "\<exists>slices. resp_parse_request_with_limit (frame @ rest) e m =
      RESP_PARSE_COMPLETE (slices, length frame)
    \<and> map (slice_bytes (frame @ rest)) slices = args"
  using assms parse_frame [of args m rest e] by (simp add: resp_encode_bulk_array_eq split: if_splits)

theorem resp_roundtrip_witness:
  "\<exists>slices. resp_parse_request_with_limit ((ascii ''*1'' @ [13,10] @ ascii ''$2'' @ [13,10,65,66,13,10]) @ [7]) True 64
     = RESP_PARSE_COMPLETE (slices, length (ascii ''*1'' @ [13,10] @ ascii ''$2'' @ [13,10,65,66,13,10])) \<and>
     map (slice_bytes ((ascii ''*1'' @ [13,10] @ ascii ''$2'' @ [13,10,65,66,13,10]) @ [7])) slices = [[65,66]]"
proof -
  have "resp_encode_bulk_array 100 [[65,66]] =
      Some (ascii ''*1'' @ [13,10] @ ascii ''$2'' @ [13,10,65,66,13,10])"
    by code_simp
  then show ?thesis
    by (rule resp_roundtrip) (simp_all add: RESP_MAX_ARGUMENTS_def SIZE_MAX_def ascii_def)
qed

text \<open>
  C12. The verdict on a byte stream does not depend on how the stream is cut into reads:
  once a prefix gives a complete request, every longer input gives the same request and the
  same consumed length.
\<close>

theorem resp_complete_stable:
  assumes "resp_parse_request_with_limit data e m = RESP_PARSE_COMPLETE r"
  shows "resp_parse_request_with_limit (data @ tail) e' m = RESP_PARSE_COMPLETE r"
  using assms by (rule parse_complete_append)

theorem resp_complete_stable_witness:
  "resp_parse_request_with_limit (ascii ''*1'' @ [13,10] @ ascii ''$0'' @ [13,10,13,10] @ [1,2,3]) True 64
     = RESP_PARSE_COMPLETE ([\<lparr>slice_data = 8, slice_length = 0\<rparr>], 10)"
proof -
  have "resp_parse_request_with_limit (ascii ''*1'' @ [13,10] @ ascii ''$0'' @ [13,10,13,10]) False 64
     = RESP_PARSE_COMPLETE ([\<lparr>slice_data = 8, slice_length = 0\<rparr>], 10)" by code_simp
  from resp_complete_stable [OF this, of "[1,2,3]" True] show ?thesis by (simp add: ascii_def)
qed

text \<open>
  C13. A protocol error is final: when a prefix of a stream that is still open is rejected,
  no further input turns it into a request, so closing the connection loses none.
\<close>

theorem resp_error_final:
  assumes "resp_parse_request_with_limit data False m = RESP_PARSE_ERROR"
  shows "resp_parse_request_with_limit (data @ tail) e m = RESP_PARSE_ERROR"
  using assms by (rule parse_error_append)

theorem resp_error_final_witness:
  "resp_parse_request_with_limit (ascii ''*x'' @ [13,10]) True 64 = RESP_PARSE_ERROR"
proof -
  have "resp_parse_request_with_limit (ascii ''*x'') False 64 = RESP_PARSE_ERROR" by code_simp
  from resp_error_final [OF this] show ?thesis by blast
qed

text \<open>
  C14. The parser asks for more input only while the stream is open and fewer bytes than the
  frame limit are buffered, so a connection's unparsed input never exceeds the limit unnoticed.
\<close>

theorem resp_incomplete_bounded:
  assumes "resp_parse_request_with_limit data e m = RESP_PARSE_INCOMPLETE"
  shows "\<not> e \<and> length data < m"
  using assms
  by (auto simp: resp_parse_request_with_limit_def split: if_splits resp_parse_result.splits
      dest: parse_decimal_line_incomplete parse_arguments_incomplete)

theorem resp_incomplete_bounded_witness:
  "resp_parse_request_with_limit (ascii ''*2'') False 64 = RESP_PARSE_INCOMPLETE
   \<and> \<not> False \<and> length (ascii ''*2'') < 64"
proof -
  have "resp_parse_request_with_limit (ascii ''*2'') False 64 = RESP_PARSE_INCOMPLETE" by code_simp
  from this resp_incomplete_bounded [OF this] show ?thesis by blast
qed

text \<open>
  C37. The integer encoder is exact on the whole \<open>int64_t\<close> range, the smallest value included:
  it writes the colon, the decimal text of the signed value and CRLF when they fit the buffer and
  nothing otherwise; the text never has more than 20 characters, so the 20-byte digit array of the
  source is large enough.
\<close>

theorem resp_encode_integer_exact:
  "resp_encode_integer capacity w =
     (if length (integer_text (sint w)) + 3 \<le> capacity
      then Some (58 # integer_text (sint w) @ [CR, LF]) else None)
   \<and> length (decimal_reverse (unat w)) \<le> 20"
proof -
  have "unat w < 10 ^ 20" using unsigned_less [of w, where 'a = nat] by simp
  then have "length (decimal_reverse (unat w)) \<le> 20"
    using length_decimal_text [of "unat w" 20] by (simp add: decimal_text_def)
  then show ?thesis using resp_encode_integer_eq by blast
qed

end
