(* ===== verification/Buffer.thy ===== *)
theory Buffer
  imports Prelude
begin

text \<open>
  The growable network buffer (\<open>src/src/net/buffer.c\<close>): one allocation with a read
  and a write position.  Memory is a function from offsets to bytes, so bytes that
  \<open>malloc\<close> and \<open>realloc\<close> leave uninitialised are arbitrary in every theorem; the answer of
  the allocator is a parameter.  The functions are refined to an unbounded byte queue by
  \<open>contents\<close>, the bytes between the two positions.
\<close>

record net_buffer =
  buf_data :: "nat \<Rightarrow> byte"
  capacity :: nat
  read_pos :: nat
  write_pos :: nat

definition net_buffer_readable :: "net_buffer \<Rightarrow> nat" where
  "net_buffer_readable b = (if write_pos b < read_pos b then 0 else write_pos b - read_pos b)"

text \<open>\<open>memmove\<close> and \<open>memcpy\<close> into the buffer's memory.\<close>

definition memory_move :: "(nat \<Rightarrow> byte) \<Rightarrow> nat \<Rightarrow> nat \<Rightarrow> nat \<Rightarrow> (nat \<Rightarrow> byte)" where
  "memory_move m dst src n = (\<lambda>i. if dst \<le> i \<and> i < dst + n then m (src + (i - dst)) else m i)"

definition memory_copy :: "(nat \<Rightarrow> byte) \<Rightarrow> nat \<Rightarrow> bytes \<Rightarrow> (nat \<Rightarrow> byte)" where
  "memory_copy m dst xs = (\<lambda>i. if dst \<le> i \<and> i < dst + length xs then xs ! (i - dst) else m i)"

definition net_buffer_compact :: "net_buffer \<Rightarrow> net_buffer" where
  "net_buffer_compact b =
     (if read_pos b = 0 then b
      else let readable = net_buffer_readable b in
        b\<lparr>buf_data := (if readable > 0 then memory_move (buf_data b) 0 (read_pos b) readable
                      else buf_data b),
          read_pos := 0, write_pos := readable\<rparr>)"

text \<open>\<open>allocated\<close> is what \<open>malloc\<close> returns: \<open>None\<close> for NULL, or memory with some contents.\<close>

definition net_buffer_init :: "(nat \<Rightarrow> byte) option \<Rightarrow> nat \<Rightarrow> net_buffer option" where
  "net_buffer_init allocated initial_capacity =
     (if initial_capacity = 0 then
        Some \<lparr>buf_data = (\<lambda>_. 0), capacity = 0, read_pos = 0, write_pos = 0\<rparr>
      else case allocated of
        None \<Rightarrow> None
      | Some mem \<Rightarrow>
          Some \<lparr>buf_data = mem, capacity = initial_capacity, read_pos = 0, write_pos = 0\<rparr>)"

definition net_buffer_reset :: "net_buffer \<Rightarrow> net_buffer" where
  "net_buffer_reset b = b\<lparr>read_pos := 0, write_pos := 0\<rparr>"

text \<open>
  The doubling loop of \<open>net_buffer_reserve\<close>.  The source enters it with a capacity of at
  least one (an empty buffer starts at 512), so the test \<open>0 < c\<close> only makes it total.
\<close>

function grow_capacity :: "nat \<Rightarrow> nat \<Rightarrow> nat" where
  "grow_capacity c required =
     (if 0 < c \<and> c < required then
        if c > SIZE_MAX div 2 then required else grow_capacity (c * 2) required
      else c)"
  by pat_completeness auto
termination
  by (relation "measure (\<lambda>(c, required). required - c)") auto

declare grow_capacity.simps [simp del]

text \<open>The boolean is whether the source returns 0; \<open>ok\<close> is whether \<open>realloc\<close> succeeds.\<close>

definition net_buffer_reserve :: "bool \<Rightarrow> net_buffer \<Rightarrow> nat \<Rightarrow> net_buffer \<times> bool" where
  "net_buffer_reserve ok b additional =
     (if additional > SIZE_MAX - net_buffer_readable b then (b, False)
      else if capacity b - write_pos b \<ge> additional then (b, True)
      else let b = net_buffer_compact b in
        if capacity b - write_pos b \<ge> additional then (b, True)
        else let required = write_pos b + additional;
                 new_capacity = grow_capacity (if capacity b = 0 then 512 else capacity b) required in
          if \<not> ok then (b, False)
          else (b\<lparr>capacity := new_capacity\<rparr>, True))"

definition net_buffer_append :: "bool \<Rightarrow> net_buffer \<Rightarrow> bytes \<Rightarrow> net_buffer \<times> bool" where
  "net_buffer_append ok b xs =
     (case net_buffer_reserve ok b (length xs) of
        (b, False) \<Rightarrow> (b, False)
      | (b, True) \<Rightarrow>
          if length xs > 0 then
            (b\<lparr>buf_data := memory_copy (buf_data b) (write_pos b) xs,
               write_pos := write_pos b + length xs\<rparr>, True)
          else (b, True))"

text \<open>Returns the writable capacity behind the returned pointer, \<open>None\<close> for NULL.\<close>

definition net_buffer_write_pointer :: "bool \<Rightarrow> net_buffer \<Rightarrow> nat \<Rightarrow> net_buffer \<times> nat option" where
  "net_buffer_write_pointer ok b additional =
     (case net_buffer_reserve ok b additional of
        (b, False) \<Rightarrow> (b, None)
      | (b, True) \<Rightarrow> (b, Some (capacity b - write_pos b)))"

text \<open>The caller's writes through that pointer: the bytes at \<open>write_pos\<close>, not yet committed.\<close>

definition write_through :: "net_buffer \<Rightarrow> bytes \<Rightarrow> net_buffer" where
  "write_through b xs = b\<lparr>buf_data := memory_copy (buf_data b) (write_pos b) xs\<rparr>"

definition net_buffer_commit :: "net_buffer \<Rightarrow> nat \<Rightarrow> net_buffer \<times> bool" where
  "net_buffer_commit b n =
     (if n > capacity b - write_pos b then (b, False)
      else (b\<lparr>write_pos := write_pos b + n\<rparr>, True))"

definition net_buffer_consume :: "net_buffer \<Rightarrow> nat \<Rightarrow> net_buffer" where
  "net_buffer_consume b n =
     (let readable = net_buffer_readable b in
      if n \<ge> readable then net_buffer_reset b
      else b\<lparr>read_pos := read_pos b + n\<rparr>)"

text \<open>The bytes between the positions: what the buffer holds.\<close>

definition contents :: "net_buffer \<Rightarrow> bytes" where
  "contents b = map (buf_data b) [read_pos b..<write_pos b]"

text \<open>What one call of \<open>send\<close> answers: a byte count, or -1 with an \<open>errno\<close>.\<close>

datatype send_result = Sent nat | Send_EINTR | Send_EAGAIN | Send_failed

text \<open>
  The flush loop over the answers of the kernel.  The result is the return value, the buffer,
  and the bytes handed to the kernel; \<open>None\<close> means the answers given so far do not end it.
\<close>

fun net_buffer_flush_fd ::
  "send_result list \<Rightarrow> net_buffer \<Rightarrow> bytes \<Rightarrow> (int \<times> net_buffer \<times> bytes) option" where
  "net_buffer_flush_fd [] b sent =
     (if net_buffer_readable b > 0 then None else Some (1, b, sent))"
| "net_buffer_flush_fd (answer # answers) b sent =
     (if net_buffer_readable b > 0 then
        case answer of
          Sent n \<Rightarrow>
            if n > 0 then net_buffer_flush_fd answers (net_buffer_consume b n)
                            (sent @ take n (contents b))
            else Some (- 1, b, sent)
        | Send_EINTR \<Rightarrow> net_buffer_flush_fd answers b sent
        | Send_EAGAIN \<Rightarrow> Some (0, b, sent)
        | Send_failed \<Rightarrow> Some (- 1, b, sent)
      else Some (1, b, sent))"

subsection \<open>Invariant and refinement\<close>

definition buffer_inv :: "net_buffer \<Rightarrow> bool" where
  "buffer_inv b \<longleftrightarrow> read_pos b \<le> write_pos b \<and> write_pos b \<le> capacity b \<and> capacity b \<le> SIZE_MAX"

lemma length_contents [simp]: "length (contents b) = write_pos b - read_pos b"
  by (simp add: contents_def)

lemma contents_empty_iff: "contents b = [] \<longleftrightarrow> write_pos b \<le> read_pos b"
  by (auto simp: contents_def)

lemma readable_length: "net_buffer_readable b = length (contents b)"
  by (simp add: net_buffer_readable_def)

lemma contents_nth: "i < write_pos b - read_pos b \<Longrightarrow> contents b ! i = buf_data b (read_pos b + i)"
  by (simp add: contents_def)

lemma compact_ok:
  assumes "buffer_inv b"
  shows "buffer_inv (net_buffer_compact b)" "contents (net_buffer_compact b) = contents b"
    "capacity (net_buffer_compact b) = capacity b" "read_pos (net_buffer_compact b) = 0"
    "write_pos (net_buffer_compact b) = length (contents b)"
proof -
  show "contents (net_buffer_compact b) = contents b"
    using assms
    by (intro nth_equalityI)
      (auto simp: net_buffer_compact_def net_buffer_readable_def buffer_inv_def contents_nth
        memory_move_def Let_def contents_def)
qed (use assms in \<open>auto simp: net_buffer_compact_def net_buffer_readable_def buffer_inv_def Let_def\<close>)

lemma grow_capacity_bounds:
  "0 < c \<Longrightarrow> required \<le> SIZE_MAX \<Longrightarrow> c \<le> SIZE_MAX \<Longrightarrow>
     required \<le> grow_capacity c required \<and> c \<le> grow_capacity c required
     \<and> grow_capacity c required \<le> SIZE_MAX"
proof (induction c required rule: grow_capacity.induct)
  case (1 c required)
  show ?case
  proof (cases "c < required \<and> \<not> c > SIZE_MAX div 2")
    case True
    then have "c * 2 \<le> SIZE_MAX" by (simp add: SIZE_MAX_def)
    with 1 True show ?thesis by (subst (1 2 3) grow_capacity.simps) auto
  next
    case False
    with 1 show ?thesis by (subst (1 2 3) grow_capacity.simps) auto
  qed
qed

lemma reserve_ok:
  assumes inv: "buffer_inv b" and res: "net_buffer_reserve ok b n = (b', r)"
  shows "buffer_inv b' \<and> contents b' = contents b \<and> (r \<longrightarrow> n \<le> capacity b' - write_pos b')
    \<and> r = (length (contents b) + n \<le> SIZE_MAX \<and> (ok \<or> length (contents b) + n \<le> capacity b))"
proof (cases "n > SIZE_MAX - net_buffer_readable b \<or> capacity b - write_pos b \<ge> n")
  case True
  with assms show ?thesis by (auto simp: net_buffer_reserve_def readable_length buffer_inv_def split: if_splits)
next
  case False
  let ?c = "net_buffer_compact b"
  note c = compact_ok [OF inv]
  have n: "length (contents b) + n \<le> SIZE_MAX"
    using False inv by (auto simp: readable_length buffer_inv_def)
  show ?thesis
  proof (cases "capacity ?c - write_pos ?c \<ge> n")
    case True
    with False res c n show ?thesis by (auto simp: net_buffer_reserve_def Let_def buffer_inv_def)
  next
    case full: False
    let ?g = "grow_capacity (if capacity ?c = 0 then 512 else capacity ?c) (write_pos ?c + n)"
    have g: "write_pos ?c + n \<le> ?g \<and> (if capacity ?c = 0 then 512 else capacity ?c) \<le> ?g \<and> ?g \<le> SIZE_MAX"
      by (rule grow_capacity_bounds) (use c n in \<open>auto simp: buffer_inv_def SIZE_MAX_def\<close>)
    from False full res have "b' = (if ok then ?c\<lparr>capacity := ?g\<rparr> else ?c) \<and> r = ok"
      by (auto simp: net_buffer_reserve_def Let_def split: if_splits)
    moreover have "\<not> length (contents b) + n \<le> capacity b" using full c by auto
    ultimately show ?thesis using c g n by (auto simp: buffer_inv_def contents_def)
  qed
qed

lemma contents_copy:
  assumes "read_pos b \<le> write_pos b"
  shows "contents (b\<lparr>buf_data := memory_copy (buf_data b) (write_pos b) xs,
    write_pos := write_pos b + length xs\<rparr>) = contents b @ xs"
  using assms
  by (intro nth_equalityI) (auto simp: contents_nth nth_append memory_copy_def contents_def ac_simps)

lemma append_ok:
  assumes inv: "buffer_inv b" and app: "net_buffer_append ok b xs = (b', r)"
  shows "buffer_inv b' \<and> contents b' = (if r then contents b @ xs else contents b)
    \<and> r = (length (contents b) + length xs \<le> SIZE_MAX \<and> (ok \<or> length (contents b) + length xs \<le> capacity b))"
proof -
  obtain c s where res: "net_buffer_reserve ok b (length xs) = (c, s)" by fastforce
  note c = reserve_ok [OF inv res]
  show ?thesis
  proof (cases s)
    case True
    with app res c show ?thesis
      by (cases "xs = []") (auto simp: net_buffer_append_def buffer_inv_def contents_copy)
  next
    case False
    then have "b' = c" "\<not> r" using app res by (simp_all add: net_buffer_append_def)
    with False c show ?thesis by presburger
  qed
qed

text \<open>
  The input path: ask for room, let somebody write \<open>xs\<close> through the pointer, never more than the room
  that was reported, and commit the bytes written.
\<close>

definition net_buffer_fill :: "bool \<Rightarrow> net_buffer \<Rightarrow> nat \<Rightarrow> bytes \<Rightarrow> net_buffer \<times> bool" where
  "net_buffer_fill ok b additional xs =
     (case net_buffer_write_pointer ok b additional of
        (b, None) \<Rightarrow> (b, False)
      | (b, Some room) \<Rightarrow> if length xs \<le> room then net_buffer_commit (write_through b xs) (length xs) else (b, False))"

lemma fill_buffer_ok:
  assumes inv: "buffer_inv b" and f: "net_buffer_fill ok b n xs = (b', r)"
  shows "buffer_inv b' \<and> contents b' = (if r then contents b @ xs else contents b)
    \<and> (ok \<and> length (contents b) + n \<le> SIZE_MAX \<and> length xs \<le> n \<longrightarrow> r)"
proof -
  obtain c s where res: "net_buffer_reserve ok b n = (c, s)" by fastforce
  note c = reserve_ok [OF inv res]
  show ?thesis
  proof (cases "s \<and> length xs \<le> capacity c - write_pos c")
    case True
    have "net_buffer_commit (write_through c xs) (length xs) =
        (c\<lparr>buf_data := memory_copy (buf_data c) (write_pos c) xs, write_pos := write_pos c + length xs\<rparr>, True)"
      using True by (simp add: net_buffer_commit_def write_through_def)
    with True f res c contents_copy [of c xs] show ?thesis
      by (auto simp: net_buffer_fill_def net_buffer_write_pointer_def buffer_inv_def)
  next
    case False
    with f res c show ?thesis by (auto simp: net_buffer_fill_def net_buffer_write_pointer_def split: if_splits)
  qed
qed

lemma reset_ok: "buffer_inv b \<Longrightarrow> buffer_inv (net_buffer_reset b) \<and> contents (net_buffer_reset b) = []"
  by (simp add: net_buffer_reset_def buffer_inv_def contents_def)

lemma consume_ok:
  assumes "buffer_inv b"
  shows "buffer_inv (net_buffer_consume b n)" "contents (net_buffer_consume b n) = drop n (contents b)"
proof -
  show "contents (net_buffer_consume b n) = drop n (contents b)"
    using assms by (auto simp: net_buffer_consume_def net_buffer_reset_def net_buffer_readable_def
        Let_def contents_def drop_map buffer_inv_def)
qed (use assms in \<open>auto simp: net_buffer_consume_def net_buffer_reset_def net_buffer_readable_def
        Let_def buffer_inv_def\<close>)

subsection \<open>Flushing\<close>

lemma flush_stream:
  "buffer_inv b \<Longrightarrow> net_buffer_flush_fd answers b sent = Some (code, b', sent') \<Longrightarrow>
     sent' @ contents b' = sent @ contents b \<and> buffer_inv b'
     \<and> (code = 1 \<longleftrightarrow> contents b' = []) \<and> code \<in> {- 1, 0, 1}"
proof (induction answers arbitrary: b sent)
  case Nil
  then show ?case by (auto simp: readable_length contents_empty_iff split: if_splits)
next
  case (Cons a answers)
  show ?case
  proof (cases "net_buffer_readable b > 0")
    case True
    then have ne: "contents b \<noteq> []" by (auto simp: readable_length contents_empty_iff)
    show ?thesis
    proof (cases a)
      case (Sent n)
      with True ne Cons.prems consume_ok [OF Cons.prems(1), of n] show ?thesis
        using Cons.IH [of "net_buffer_consume b n" "sent @ take n (contents b)"]
        by (cases "n = 0") auto
    qed (use True ne Cons in auto)
  next
    case False
    with Cons.prems show ?thesis by (auto simp: readable_length contents_empty_iff)
  qed
qed

fun sent_count :: "send_result \<Rightarrow> nat" where
  "sent_count (Sent n) = n"
| "sent_count _ = 0"

fun final_answer :: "send_result \<Rightarrow> bool" where
  "final_answer (Sent n) = (n = 0)"
| "final_answer Send_EINTR = False"
| "final_answer _ = True"

lemma flush_returns:
  "buffer_inv b \<Longrightarrow> list_ex final_answer answers \<or>
     length (contents b) \<le> sum_list (map sent_count answers) \<Longrightarrow>
     \<exists>r. net_buffer_flush_fd answers b sent = Some r"
proof (induction answers arbitrary: b sent)
  case Nil
  then show ?case by (simp add: readable_length)
next
  case (Cons a answers)
  have IH: "\<exists>r. net_buffer_flush_fd answers (net_buffer_consume b n) sent' = Some r"
    if "list_ex final_answer answers \<or>
      length (contents b) - n \<le> sum_list (map sent_count answers)" for n sent'
    by (rule Cons.IH) (use consume_ok [OF Cons.prems(1)] that in auto)
  show ?case
    using Cons.prems Cons.IH [OF Cons.prems(1)] IH
    by (cases a) (auto simp: le_diff_conv2 le_diff_conv add.commute)
qed

text \<open>A flush of which the kernel's answers are given up to its last one, after which the socket would block.\<close>

definition net_buffer_send :: "send_result list \<Rightarrow> net_buffer \<Rightarrow> net_buffer \<times> bytes" where
  "net_buffer_send answers b =
     (case net_buffer_flush_fd (answers @ [Send_EAGAIN]) b [] of
        None \<Rightarrow> (b, [])
      | Some (code, b', sent) \<Rightarrow> (b', sent))"

lemma send_ok:
  assumes "buffer_inv b" "net_buffer_send answers b = (b', sent)"
  shows "buffer_inv b' \<and> sent @ contents b' = contents b"
proof -
  have "list_ex final_answer (answers @ [Send_EAGAIN])" by simp
  then obtain code c x where r: "net_buffer_flush_fd (answers @ [Send_EAGAIN]) b [] = Some (code, c, x)"
    using flush_returns [OF assms(1), of "answers @ [Send_EAGAIN]" "[]"] by auto
  from flush_stream [OF assms(1) r] r assms(2) show ?thesis by (simp add: net_buffer_send_def)
qed

subsection \<open>The byte queue a connection relies on\<close>

datatype buffer_op =
    Op_append bool bytes
  | Op_fill bool nat bytes
  | Op_reserve bool nat
  | Op_consume nat
  | Op_flush "send_result list"
  | Op_reset

record 'b byte_queue =
  op_append :: "bool \<Rightarrow> 'b \<Rightarrow> bytes \<Rightarrow> 'b \<times> bool"
  op_fill :: "bool \<Rightarrow> 'b \<Rightarrow> nat \<Rightarrow> bytes \<Rightarrow> 'b \<times> bool"
  op_reserve :: "bool \<Rightarrow> 'b \<Rightarrow> nat \<Rightarrow> 'b \<times> bool"
  op_consume :: "'b \<Rightarrow> nat \<Rightarrow> 'b"
  op_flush :: "send_result list \<Rightarrow> 'b \<Rightarrow> 'b \<times> bytes"
  op_reset :: "'b \<Rightarrow> 'b"

text \<open>One call: the buffer, the bytes it accepted and the bytes that left it.\<close>

fun buffer_call :: "'b byte_queue \<Rightarrow> ('b \<Rightarrow> bytes) \<Rightarrow> buffer_op \<Rightarrow> 'b \<Rightarrow> 'b \<times> bytes \<times> bytes" where
  "buffer_call q held (Op_append ok xs) b = (case op_append q ok b xs of (b, r) \<Rightarrow> (b, if r then xs else [], []))"
| "buffer_call q held (Op_fill ok n xs) b = (case op_fill q ok b n xs of (b, r) \<Rightarrow> (b, if r then xs else [], []))"
| "buffer_call q held (Op_reserve ok n) b = (fst (op_reserve q ok b n), [], [])"
| "buffer_call q held (Op_consume n) b = (op_consume q b n, [], take n (held b))"
| "buffer_call q held (Op_flush answers) b = (case op_flush q answers b of (b, sent) \<Rightarrow> (b, [], sent))"
| "buffer_call q held Op_reset b = (op_reset q b, [], held b)"

text \<open>A sequence of calls, with all bytes accepted and all bytes that left.\<close>

fun run_buffer :: "'b byte_queue \<Rightarrow> ('b \<Rightarrow> bytes) \<Rightarrow> buffer_op list \<Rightarrow> 'b \<Rightarrow> 'b \<times> bytes \<times> bytes" where
  "run_buffer q held [] b = (b, [], [])"
| "run_buffer q held (call # calls) b =
     (let (b, xs, ys) = buffer_call q held call b; (b, accepted, taken) = run_buffer q held calls b in
      (b, xs @ accepted, ys @ taken))"

locale byte_fifo =
  fixes inv :: "'b \<Rightarrow> bool"
    and held :: "'b \<Rightarrow> bytes"
    and q :: "'b byte_queue"
  assumes app_law: "inv b \<Longrightarrow> op_append q ok b xs = (b', r) \<Longrightarrow> inv b' \<and> held b' = (if r then held b @ xs else held b)"
    and fil_law: "inv b \<Longrightarrow> op_fill q ok b n xs = (b', r) \<Longrightarrow> inv b' \<and> held b' = (if r then held b @ xs else held b)"
    and rsv_law: "inv b \<Longrightarrow> op_reserve q ok b n = (b', r) \<Longrightarrow> inv b' \<and> held b' = held b"
    and con_law: "inv b \<Longrightarrow> inv (op_consume q b n) \<and> held (op_consume q b n) = drop n (held b)"
    and flu_law: "inv b \<Longrightarrow> op_flush q answers b = (b', sent) \<Longrightarrow> inv b' \<and> sent @ held b' = held b"
    and rst_law: "inv b \<Longrightarrow> inv (op_reset q b) \<and> held (op_reset q b) = []"
begin

lemma call_fifo:
  "inv b \<Longrightarrow> buffer_call q held call b = (b', xs, ys) \<Longrightarrow> inv b' \<and> ys @ held b' = held b @ xs"
proof (cases call)
  case (Op_append ok zs)
  assume "inv b" "buffer_call q held call b = (b', xs, ys)"
  with Op_append app_law [of b ok zs] show ?thesis by (auto split: prod.splits)
next
  case (Op_fill ok n zs)
  assume "inv b" "buffer_call q held call b = (b', xs, ys)"
  with Op_fill fil_law [of b ok n zs] show ?thesis by (auto split: prod.splits)
next
  case (Op_reserve ok n)
  assume "inv b" "buffer_call q held call b = (b', xs, ys)"
  with Op_reserve rsv_law [of b ok n] show ?thesis by (cases "op_reserve q ok b n") auto
next
  case (Op_consume n)
  assume "inv b" "buffer_call q held call b = (b', xs, ys)"
  with Op_consume con_law [of b n] show ?thesis by auto
next
  case (Op_flush answers)
  assume "inv b" "buffer_call q held call b = (b', xs, ys)"
  with Op_flush flu_law [of b answers] show ?thesis by (auto split: prod.splits)
next
  case Op_reset
  assume "inv b" "buffer_call q held call b = (b', xs, ys)"
  with Op_reset rst_law [of b] show ?thesis by auto
qed

lemma run_fifo:
  "inv b \<Longrightarrow> run_buffer q held calls b = (b', accepted, taken) \<Longrightarrow> inv b' \<and> taken @ held b' = held b @ accepted"
proof (induction calls arbitrary: b accepted taken)
  case Nil
  then show ?case by simp
next
  case (Cons call calls)
  obtain c xs ys where c: "buffer_call q held call b = (c, xs, ys)" by (metis prod_cases3)
  obtain as ts where r: "run_buffer q held calls c = (b', as, ts)" "accepted = xs @ as" "taken = ys @ ts"
    using Cons.prems(2) c by (auto split: prod.splits)
  note k = call_fifo [OF Cons.prems(1) c]
  from Cons.IH [OF _ r(1)] k have "inv b'" "ts @ held b' = held c @ as" by auto
  with k r(2,3) show ?case by (metis append.assoc)
qed

end

definition net_buffer_queue :: "net_buffer byte_queue" where
  "net_buffer_queue = \<lparr>op_append = net_buffer_append, op_fill = net_buffer_fill, op_reserve = net_buffer_reserve,
     op_consume = net_buffer_consume, op_flush = net_buffer_send, op_reset = net_buffer_reset\<rparr>"

lemma net_buffer_queue_simps [simp]:
  "op_append net_buffer_queue = net_buffer_append" "op_fill net_buffer_queue = net_buffer_fill"
  "op_reserve net_buffer_queue = net_buffer_reserve" "op_consume net_buffer_queue = net_buffer_consume"
  "op_flush net_buffer_queue = net_buffer_send" "op_reset net_buffer_queue = net_buffer_reset"
  by (simp_all add: net_buffer_queue_def)

interpretation net_buffer: byte_fifo buffer_inv contents net_buffer_queue
proof (unfold_locales, unfold net_buffer_queue_simps, goal_cases)
  case 1
  from append_ok [OF 1] show ?case by blast
next
  case 2
  from fill_buffer_ok [OF 2] show ?case by blast
next
  case 3
  from reserve_ok [OF 3] show ?case by blast
next
  case 4
  from consume_ok [OF 4] show ?case by blast
next
  case 5
  from send_ok [OF 5] show ?case by blast
next
  case 6
  from reset_ok [OF 6] show ?case by blast
qed

subsection \<open>Properties\<close>

text \<open>
  C20. The network buffer is a byte queue: over any sequence of appends, fills through the write
  pointer with their commit, reservations (whose reallocation may fail), consumes, flushes to a socket
  and resets, the bytes that left it (consumed, sent or discarded by a reset) followed by the bytes
  still held are exactly the bytes accepted, in order, and the positions stay inside the allocation.
\<close>

theorem buffer_fifo:
  assumes "net_buffer_init (Some mem) initial = Some b" "initial \<le> SIZE_MAX"
    and "run_buffer net_buffer_queue contents calls b = (b', accepted, taken)"
  shows "taken @ contents b' = accepted \<and> buffer_inv b'"
proof -
  have b: "buffer_inv b" "contents b = []"
    using assms(1,2) by (auto simp: net_buffer_init_def buffer_inv_def contents_def split: if_splits)
  from net_buffer.run_fifo [OF b(1) assms(3)] b(2) show ?thesis by simp
qed

theorem buffer_fifo_witness:
  "\<exists>b b' accepted taken. net_buffer_init (Some (\<lambda>_. 255)) 2 = Some b \<and>
     run_buffer net_buffer_queue contents
       [Op_append True [1,2], Op_consume 1, Op_append False [3,4,5], Op_fill True 4 [6,7], Op_flush [Sent 2]] b
       = (b', accepted, taken) \<and> accepted = [1,2,6,7] \<and> taken @ contents b' = accepted"
proof -
  let ?calls = "[Op_append True [1,2], Op_consume 1, Op_append False [3,4,5], Op_fill True 4 [6,7], Op_flush [Sent 2]]"
  obtain b where b: "net_buffer_init (Some (\<lambda>_. 255)) 2 = Some b"
    by (simp add: net_buffer_init_def)
  obtain b' accepted taken where r: "run_buffer net_buffer_queue contents ?calls b = (b', accepted, taken)" by (metis prod_cases3)
  have "fst (snd (run_buffer net_buffer_queue contents ?calls \<lparr>buf_data = \<lambda>_. 255, capacity = 2, read_pos = 0, write_pos = 0\<rparr>)) = [1,2,6,7]"
    by code_simp
  then have "accepted = [1,2,6,7]" using r b by (simp add: net_buffer_init_def)
  with buffer_fifo [OF b _ r] b r show ?thesis by (auto simp: SIZE_MAX_def)
qed

text \<open>
  C21. An append succeeds exactly when the total does not pass \<open>SIZE_MAX\<close> and either fits the
  allocation (after the bytes held are moved to its start) or the reallocation succeeds.  Then the new
  bytes are at the end, inside the allocation; otherwise the bytes held are unchanged.
\<close>

theorem buffer_append_total:
  assumes "buffer_inv b" "net_buffer_append ok b xs = (b', r)"
  shows "buffer_inv b' \<and> contents b' = (if r then contents b @ xs else contents b)
    \<and> (r \<longleftrightarrow> length (contents b) + length xs \<le> SIZE_MAX \<and> (ok \<or> length (contents b) + length xs \<le> capacity b))"
  using append_ok [OF assms] by blast

theorem buffer_append_total_witness:
  "contents (fst (net_buffer_append True \<lparr>buf_data = (\<lambda>_. 9), capacity = 2, read_pos = 1, write_pos = 2\<rparr> [4,5,6]))
     = [9,4,5,6]"
proof -
  let ?b = "\<lparr>buf_data = (\<lambda>_. 9), capacity = 2, read_pos = 1, write_pos = 2\<rparr>"
  obtain b' r where r: "net_buffer_append True ?b [4,5,6] = (b', r)" by fastforce
  have "contents ?b = [9]" by (simp add: contents_def upt_rec)
  with buffer_append_total [OF _ r] r show ?thesis by (simp add: buffer_inv_def SIZE_MAX_def)
qed

text \<open>
  C22. Flushing to a socket loses, repeats and reorders nothing: the bytes handed to the
  kernel followed by the bytes kept are the bytes held before.  The return value is 1 exactly
  when nothing is left.
\<close>

theorem buffer_flush_stream:
  assumes "buffer_inv b" "net_buffer_flush_fd answers b [] = Some (code, b', sent)"
  shows "sent @ contents b' = contents b \<and> buffer_inv b' \<and> (code = 1 \<longleftrightarrow> contents b' = [])"
  using flush_stream [OF assms] by simp

theorem buffer_flush_stream_witness:
  "\<exists>b'. net_buffer_flush_fd [Sent 2, Send_EINTR, Send_EAGAIN]
      \<lparr>buf_data = of_nat, capacity = 8, read_pos = 1, write_pos = 5\<rparr> [] = Some (0, b', [1, 2])
    \<and> [1, 2] @ contents b' = [1, 2, 3, 4]"
proof -
  let ?b = "\<lparr>buf_data = of_nat, capacity = 8, read_pos = 1, write_pos = 5\<rparr>"
  have inv: "buffer_inv ?b" by (simp add: buffer_inv_def SIZE_MAX_def)
  have c: "contents ?b = [1, 2, 3, 4]" by (simp add: contents_def upt_rec)
  obtain b' where r: "net_buffer_flush_fd [Sent 2, Send_EINTR, Send_EAGAIN] ?b [] = Some (0, b', [1, 2])"
    using c by (simp add: net_buffer_readable_def net_buffer_consume_def)
  from buffer_flush_stream [OF inv r] r c show ?thesis by auto
qed

text \<open>
  C23. The flush loop returns: as soon as the kernel's answers include a final one (would
  block, error, zero) or their byte counts cover what is held, whatever interruptions occur.
\<close>

theorem buffer_flush_returns:
  assumes "buffer_inv b" "list_ex final_answer answers \<or>
     length (contents b) \<le> sum_list (map sent_count answers)"
  shows "\<exists>code b' sent. net_buffer_flush_fd answers b [] = Some (code, b', sent)"
  using flush_returns [OF assms, of "[]"] by auto

theorem buffer_flush_returns_witness:
  "\<exists>code b' sent. net_buffer_flush_fd [Send_EINTR, Sent 1, Sent 3]
     \<lparr>buf_data = (\<lambda>_. 7), capacity = 8, read_pos = 1, write_pos = 5\<rparr> [] = Some (code, b', sent)"
  by (rule buffer_flush_returns) (simp_all add: buffer_inv_def SIZE_MAX_def)

end
