(* ===== verification/HashTable.thy ===== *)
theory HashTable
  imports Prelude "HOL-Library.Multiset"
begin

text \<open>
  The chained hash table with incremental rehashing (\<open>src/src/kvstore_hash.c\<close>).
  A bucket is the list of its nodes in chain order.  A pointer to a node is represented by
  the node's key, which is unique in a table (\<open>hash_inv\<close>), so comparing node pointers is
  comparing keys and writing through one updates the node with that key.
  \<open>rehash_index = None\<close> is \<open>HASH_REHASH_NONE\<close>.  Answers of the allocator are parameters.
\<close>

subsection \<open>Data\<close>

record 'p kv_hash_node =
  node_key :: bytes
  hash_code :: u64
  payload :: 'p

type_synonym 'p kv_hash_table = "'p kv_hash_node list list"

abbreviation slots :: "'p kv_hash_table \<Rightarrow> nat" where "slots \<equiv> length"

record 'p hashtable =
  table0 :: "'p kv_hash_table"
  table1 :: "'p kv_hash_table"
  hash_count :: nat
  rehash_index :: "nat option"

text \<open>The answers of the allocator in one insertion: for a bucket array and for the node.\<close>

record hash_alloc =
  buckets_allocated :: bool
  node_allocated :: bool

definition HASH_INITIAL_SLOTS :: nat where "HASH_INITIAL_SLOTS = 16"
definition sizeof_pointer :: nat where "sizeof_pointer = 8"
definition sizeof_kv_hash_node :: nat where "sizeof_kv_hash_node = 32"
definition sizeof_hashtable :: nat where "sizeof_hashtable = 48"

subsection \<open>Hashing\<close>

definition fnv_prime :: u64 where "fnv_prime = 1099511628211"

definition fnv_step :: "u64 \<Rightarrow> byte \<Rightarrow> u64" where
  "fnv_step lane b = (lane XOR ucast b) * fnv_prime"

fun hash_lanes :: "bytes \<Rightarrow> u64 \<Rightarrow> u64 \<Rightarrow> u64 \<Rightarrow> u64 \<Rightarrow> u64 \<times> u64 \<times> u64 \<times> u64" where
  "hash_lanes (b0 # b1 # b2 # b3 # rest) lane0 lane1 lane2 lane3 =
     hash_lanes rest (fnv_step lane0 b0) (fnv_step lane1 b1) (fnv_step lane2 b2) (fnv_step lane3 b3)"
| "hash_lanes rest lane0 lane1 lane2 lane3 = (foldl fnv_step lane0 rest, lane1, lane2, lane3)"

definition rotate_left :: "nat \<Rightarrow> u64 \<Rightarrow> u64" where
  "rotate_left n w = push_bit n w OR drop_bit (64 - n) w"

definition hash_bytes :: "bytes \<Rightarrow> u64" where
  "hash_bytes key =
     (let lane0 = 14695981039346656037;
          lane1 = lane0 XOR 0x9e3779b185ebca87;
          lane2 = lane0 XOR 0xc2b2ae3d27d4eb4f;
          lane3 = lane0 XOR 0x165667b19e3779f9 in
      case hash_lanes key lane0 lane1 lane2 lane3 of (lane0, lane1, lane2, lane3) \<Rightarrow>
        let v = lane0 XOR rotate_left 13 lane1 XOR rotate_left 29 lane2 XOR rotate_left 47 lane3
                XOR (of_nat (length key) * 0x9e3779b185ebca87);
            v = v XOR drop_bit 33 v;
            v = v * 0xff51afd7ed558ccd;
            v = v XOR drop_bit 33 v;
            v = v * 0xc4ceb9fe1a85ec53
        in v XOR drop_bit 33 v)"

definition bucket_index :: "u64 \<Rightarrow> nat \<Rightarrow> nat" where
  "bucket_index code n = unat (code AND of_nat (n - 1))"

subsection \<open>Operations\<close>

definition key_equals :: "'p kv_hash_node \<Rightarrow> bytes \<Rightarrow> u64 \<Rightarrow> bool" where
  "key_equals node key code \<longleftrightarrow>
     hash_code node = code \<and> length (node_key node) = length key \<and> node_key node = key"

definition table_allocate :: "bool \<Rightarrow> nat \<Rightarrow> 'p kv_hash_table option" where
  "table_allocate allocated n =
     (if n = 0 \<or> n > SIZE_MAX div sizeof_pointer then None
      else if \<not> allocated then None
      else Some (replicate n []))"

definition hash_init :: "bool \<Rightarrow> 'p hashtable option" where
  "hash_init allocated =
     (case table_allocate allocated HASH_INITIAL_SLOTS of
        None \<Rightarrow> None
      | Some t \<Rightarrow> Some \<lparr>table0 = t, table1 = [], hash_count = 0, rehash_index = None\<rparr>)"

text \<open>The first flag is the answer for the structure, the second for its buckets.\<close>

definition kv_hash_create :: "bool \<Rightarrow> bool \<Rightarrow> 'p hashtable option" where
  "kv_hash_create struct_allocated allocated =
     (if \<not> struct_allocated then None else hash_init allocated)"

text \<open>\<open>hash_clear\<close> calls the payload destructor on every node in this order.\<close>

definition hash_clear :: "'p hashtable \<Rightarrow> 'p hashtable \<times> 'p list" where
  "hash_clear h =
     (\<lparr>table0 = [], table1 = [], hash_count = 0, rehash_index = None\<rparr>,
      map payload (concat (table0 h) @ concat (table1 h)))"

definition kv_hash_is_rehashing :: "'p hashtable \<Rightarrow> bool" where
  "kv_hash_is_rehashing h \<longleftrightarrow> rehash_index h \<noteq> None"

definition start_expand :: "bool \<Rightarrow> 'p hashtable \<Rightarrow> 'p hashtable option" where
  "start_expand allocated h =
     (if kv_hash_is_rehashing h then Some h
      else if slots (table0 h) > SIZE_MAX div 2 then None
      else case table_allocate allocated (slots (table0 h) * 2) of
        None \<Rightarrow> None
      | Some t \<Rightarrow> Some (h\<lparr>table1 := t, rehash_index := Some 0\<rparr>))"

definition maybe_expand :: "bool \<Rightarrow> 'p hashtable \<Rightarrow> 'p hashtable option" where
  "maybe_expand allocated h =
     (if kv_hash_is_rehashing h then Some h
      else let n = slots (table0 h); threshold = n - n div 4 in
        if hash_count h + 1 \<le> threshold then Some h
        else start_expand allocated h)"

definition find_in_table :: "'p kv_hash_table \<Rightarrow> bytes \<Rightarrow> u64 \<Rightarrow> 'p kv_hash_node option" where
  "find_in_table t key code =
     (if slots t = 0 then None
      else List.find (\<lambda>node. key_equals node key code) (t ! bucket_index code (slots t)))"

text \<open>The walk along the links of one bucket up to the node \<open>key\<close>, and its unlinking.\<close>

fun chain_unlink :: "bytes \<Rightarrow> 'p kv_hash_node list \<Rightarrow> ('p \<times> 'p kv_hash_node list) option" where
  "chain_unlink key [] = None"
| "chain_unlink key (node # next) =
     (if node_key node = key then Some (payload node, next)
      else case chain_unlink key next of
        None \<Rightarrow> None
      | Some (p, next') \<Rightarrow> Some (p, node # next'))"

definition unlink_in_table :: "'p kv_hash_table \<Rightarrow> bytes \<Rightarrow> u64 \<Rightarrow> ('p \<times> 'p kv_hash_table) option" where
  "unlink_in_table t key code =
     (if slots t = 0 then None
      else let b = bucket_index code (slots t) in
        case chain_unlink key (t ! b) of
          None \<Rightarrow> None
        | Some (p, chain) \<Rightarrow> Some (p, t[b := chain]))"

definition remove_target ::
  "'p hashtable \<Rightarrow> 'p kv_hash_node option \<Rightarrow> 'p hashtable \<times> 'p option" where
  "remove_target h target =
     (case target of
        None \<Rightarrow> (h, None)
      | Some node \<Rightarrow>
          (case unlink_in_table (table0 h) (node_key node) (hash_code node) of
             Some (p, t) \<Rightarrow> (h\<lparr>table0 := t, hash_count := hash_count h - 1\<rparr>, Some p)
           | None \<Rightarrow>
               (case unlink_in_table (table1 h) (node_key node) (hash_code node) of
                  Some (p, t) \<Rightarrow> (h\<lparr>table1 := t, hash_count := hash_count h - 1\<rparr>, Some p)
                | None \<Rightarrow> (h, None))))"

definition kv_hash_find :: "'p hashtable \<Rightarrow> bytes \<Rightarrow> 'p kv_hash_node option" where
  "kv_hash_find h key =
     (let code = hash_bytes key in
      case find_in_table (table0 h) key code of
        Some node \<Rightarrow> Some node
      | None \<Rightarrow> if kv_hash_is_rehashing h then find_in_table (table1 h) key code else None)"

definition push_node :: "'p kv_hash_table \<Rightarrow> 'p kv_hash_node \<Rightarrow> 'p kv_hash_table" where
  "push_node t node =
     (let b = bucket_index (hash_code node) (slots t) in t[b := node # t ! b])"

text \<open>Returns the node on success; a failure may still have started an expansion.\<close>

definition kv_hash_insert ::
  "hash_alloc \<Rightarrow> 'p hashtable \<Rightarrow> bytes \<Rightarrow> 'p \<Rightarrow> 'p hashtable \<times> 'p kv_hash_node option" where
  "kv_hash_insert alloc h key p =
     (if length key = SIZE_MAX then (h, None)
      else let code = hash_bytes key in
        if find_in_table (table0 h) key code \<noteq> None \<or>
           (kv_hash_is_rehashing h \<and> find_in_table (table1 h) key code \<noteq> None) then (h, None)
        else case maybe_expand (buckets_allocated alloc) h of
          None \<Rightarrow> (h, None)
        | Some h \<Rightarrow>
            if sizeof_kv_hash_node > SIZE_MAX - length key - 1 then (h, None)
            else if \<not> node_allocated alloc then (h, None)
            else let node = \<lparr>node_key = key, hash_code = code, payload = p\<rparr> in
              if kv_hash_is_rehashing h
              then (h\<lparr>table1 := push_node (table1 h) node, hash_count := hash_count h + 1\<rparr>, Some node)
              else (h\<lparr>table0 := push_node (table0 h) node, hash_count := hash_count h + 1\<rparr>, Some node))"

definition kv_hash_remove :: "'p hashtable \<Rightarrow> bytes \<Rightarrow> 'p hashtable \<times> 'p option" where
  "kv_hash_remove h key = remove_target h (kv_hash_find h key)"

definition kv_hash_remove_node :: "'p hashtable \<Rightarrow> 'p kv_hash_node \<Rightarrow> 'p hashtable \<times> 'p option" where
  "kv_hash_remove_node h target = remove_target h (Some target)"

text \<open>Writing the payload of the node with a given key.\<close>

definition set_payload_table :: "bytes \<Rightarrow> 'p \<Rightarrow> 'p kv_hash_table \<Rightarrow> 'p kv_hash_table" where
  "set_payload_table key p =
     map (map (\<lambda>node. if node_key node = key then node\<lparr>payload := p\<rparr> else node))"

definition kv_hash_node_set_payload :: "'p hashtable \<Rightarrow> bytes \<Rightarrow> 'p \<Rightarrow> 'p hashtable" where
  "kv_hash_node_set_payload h key p =
     h\<lparr>table0 := set_payload_table key p (table0 h), table1 := set_payload_table key p (table1 h)\<rparr>"

definition kv_hash_count :: "'p hashtable \<Rightarrow> nat" where
  "kv_hash_count h = hash_count h"

definition kv_hash_slot_count :: "'p hashtable \<Rightarrow> nat" where
  "kv_hash_slot_count h = (if kv_hash_is_rehashing h then slots (table1 h) else slots (table0 h))"

definition kv_hash_index_memory :: "'p hashtable \<Rightarrow> u64" where
  "kv_hash_index_memory h =
     of_nat sizeof_hashtable + of_nat (slots (table0 h)) * of_nat sizeof_pointer
     + of_nat (slots (table1 h)) * of_nat sizeof_pointer"

definition kv_hash_node_memory_for_key :: "nat \<Rightarrow> u64" where
  "kv_hash_node_memory_for_key key_length =
     (if key_length = SIZE_MAX \<or> sizeof_kv_hash_node > SIZE_MAX - key_length - 1
      then of_nat SIZE_MAX
      else of_nat (sizeof_kv_hash_node + key_length + 1))"

text \<open>The main loop of \<open>kv_hash_rehash_step\<close>.\<close>

function rehash_loop ::
  "'p kv_hash_table \<Rightarrow> 'p kv_hash_table \<Rightarrow> nat \<Rightarrow> nat \<Rightarrow> nat \<Rightarrow> nat
     \<Rightarrow> 'p kv_hash_table \<times> 'p kv_hash_table \<times> nat \<times> nat" where
  "rehash_loop t0 t1 index bucket_budget empty_budget moved =
     (if bucket_budget > 0 \<and> index < slots t0 then
        if t0 ! index = [] \<and> empty_budget > 0 then
          rehash_loop t0 t1 (index + 1) bucket_budget (empty_budget - 1) moved
        else
          rehash_loop (t0[index := []]) (foldl push_node t1 (t0 ! index)) (index + 1)
            (bucket_budget - 1) empty_budget (moved + 1)
      else (t0, t1, index, moved))"
  by pat_completeness auto
termination
  by (relation "measure (\<lambda>(t0, t1, index, b, e, m). slots t0 - index)") auto

declare rehash_loop.simps [simp del]

definition kv_hash_rehash_step :: "'p hashtable \<Rightarrow> nat \<Rightarrow> 'p hashtable \<times> nat" where
  "kv_hash_rehash_step h bucket_budget =
     (case rehash_index h of
        None \<Rightarrow> (h, 0)
      | Some index \<Rightarrow>
          let empty_budget = (if bucket_budget > SIZE_MAX div 10 then SIZE_MAX else bucket_budget * 10) in
          case rehash_loop (table0 h) (table1 h) index bucket_budget empty_budget 0 of
            (t0, t1, index, moved) \<Rightarrow>
              if index = slots t0
              then (h\<lparr>table0 := t1, table1 := [], rehash_index := None\<rparr>, moved)
              else (h\<lparr>table0 := t0, table1 := t1, rehash_index := Some index\<rparr>, moved))"

subsection \<open>Iterator\<close>

text \<open>\<open>iter_next\<close> is the rest of the current chain (\<open>[]\<close> for a NULL \<open>next\<close>).\<close>

record 'p kv_hash_iterator =
  table_index :: nat
  iter_bucket :: nat
  iter_next :: "'p kv_hash_node list"

definition kv_hash_iterator_begin :: "'p kv_hash_iterator" where
  "kv_hash_iterator_begin = \<lparr>table_index = 0, iter_bucket = 0, iter_next = []\<rparr>"

function scan_table ::
  "'p kv_hash_table \<Rightarrow> nat \<Rightarrow> ('p kv_hash_node \<times> 'p kv_hash_node list \<times> nat) option" where
  "scan_table t bucket =
     (if bucket < slots t then
        case t ! bucket of
          [] \<Rightarrow> scan_table t (bucket + 1)
        | node # next \<Rightarrow> Some (node, next, bucket + 1)
      else None)"
  by pat_completeness auto
termination
  by (relation "measure (\<lambda>(t, bucket). slots t - bucket)") auto

declare scan_table.simps [simp del]

function scan_tables ::
  "'p hashtable \<Rightarrow> nat \<Rightarrow> nat \<Rightarrow> 'p kv_hash_node option \<times> 'p kv_hash_iterator" where
  "scan_tables h ti bucket =
     (if ti < 2 then
        case scan_table (if ti = 0 then table0 h else table1 h) bucket of
          Some (node, next, bucket') \<Rightarrow>
            (Some node, \<lparr>table_index = ti, iter_bucket = bucket', iter_next = next\<rparr>)
        | None \<Rightarrow> scan_tables h (ti + 1) 0
      else (None, \<lparr>table_index = ti, iter_bucket = bucket, iter_next = []\<rparr>))"
  by pat_completeness auto
termination
  by (relation "measure (\<lambda>(h, ti, bucket). 2 - ti)") auto

declare scan_tables.simps [simp del]

definition kv_hash_iterator_next ::
  "'p hashtable \<Rightarrow> 'p kv_hash_iterator \<Rightarrow> 'p kv_hash_node option \<times> 'p kv_hash_iterator" where
  "kv_hash_iterator_next h it =
     (case iter_next it of
        node # next \<Rightarrow> (Some node, it\<lparr>iter_next := next\<rparr>)
      | [] \<Rightarrow> scan_tables h (table_index it) (iter_bucket it))"

subsection \<open>Invariant and abstraction\<close>

definition nodes :: "'p hashtable \<Rightarrow> 'p kv_hash_node list" where
  "nodes h = concat (table0 h) @ concat (table1 h)"

definition table_ok :: "'p kv_hash_table \<Rightarrow> bool" where
  "table_ok t \<longleftrightarrow> slots t \<le> SIZE_MAX div sizeof_pointer \<and>
     (\<forall>i < slots t. \<forall>node \<in> set (t ! i).
        hash_code node = hash_bytes (node_key node) \<and> bucket_index (hash_code node) (slots t) = i)"

definition rehash_ok :: "'p hashtable \<Rightarrow> bool" where
  "rehash_ok h \<longleftrightarrow> (case rehash_index h of
     None \<Rightarrow> table1 h = []
   | Some i \<Rightarrow> i < slots (table0 h) \<and> slots (table1 h) = 2 * slots (table0 h)
       \<and> (\<forall>j < i. table0 h ! j = []))"

definition hash_inv :: "'p hashtable \<Rightarrow> bool" where
  "hash_inv h \<longleftrightarrow> table0 h \<noteq> [] \<and> table_ok (table0 h) \<and> table_ok (table1 h) \<and> rehash_ok h
     \<and> distinct (map node_key (nodes h)) \<and> hash_count h = length (nodes h)"

definition hash_map :: "'p hashtable \<Rightarrow> bytes \<Rightarrow> 'p option" where
  "hash_map h = map_of (map (\<lambda>node. (node_key node, payload node)) (nodes h))"

lemma bucket_index_less: "0 < n \<Longrightarrow> n \<le> SIZE_MAX div sizeof_pointer \<Longrightarrow> bucket_index code n < n"
proof -
  assume n: "0 < n" "n \<le> SIZE_MAX div sizeof_pointer"
  then have "n < 2 ^ 64" by (simp add: SIZE_MAX_def sizeof_pointer_def)
  then have "unat (of_nat (n - 1) :: u64) = n - 1" by (simp add: unat_of_nat)
  moreover have "unat (code AND of_nat (n - 1)) \<le> unat (of_nat (n - 1) :: u64)"
    by (simp add: word_and_le1 flip: word_le_nat_alt)
  ultimately show ?thesis using n by (simp add: bucket_index_def)
qed

lemma table_bucket_less: "table_ok t \<Longrightarrow> t \<noteq> [] \<Longrightarrow> bucket_index code (slots t) < slots t"
  by (rule bucket_index_less) (simp_all add: table_ok_def)

lemma table_ok_Nil: "table_ok []"
  by (simp add: table_ok_def)

lemma table_okD:
  "table_ok t \<Longrightarrow> i < slots t \<Longrightarrow> node \<in> set (t ! i) \<Longrightarrow>
     hash_code node = hash_bytes (node_key node) \<and> bucket_index (hash_bytes (node_key node)) (slots t) = i"
  unfolding table_ok_def by metis

lemma table_ok_update:
  assumes t: "table_ok t"
    and b: "\<And>node. node \<in> set b \<Longrightarrow> hash_code node = hash_bytes (node_key node)
      \<and> bucket_index (hash_bytes (node_key node)) (slots t) = i"
  shows "table_ok (t[i := b])"
  unfolding table_ok_def
proof (intro conjI allI impI ballI)
  show "slots (t[i := b]) \<le> SIZE_MAX div sizeof_pointer" using t by (simp add: table_ok_def)
  fix j node assume j: "j < slots (t[i := b])" and node: "node \<in> set (t[i := b] ! j)"
  then have "node \<in> set b \<and> i = j \<or> node \<in> set (t ! j)" by (cases "i = j") auto
  then show "hash_code node = hash_bytes (node_key node)"
    "bucket_index (hash_code node) (slots (t[i := b])) = j"
    using b [of node] table_okD [OF t, of j node] j by auto
qed

lemma mset_concat_update:
  "i < length t \<Longrightarrow> mset (concat (t[i := b])) + mset (t ! i) = mset (concat t) + mset b"
proof (induction t arbitrary: i)
  case Nil
  then show ?case by simp
next
  case (Cons c t)
  show ?case
  proof (cases i)
    case 0
    then show ?thesis by (simp add: ac_simps)
  next
    case (Suc j)
    with Cons.IH [of j] Cons.prems show ?thesis by (simp add: ac_simps)
  qed
qed

lemma hash_map_eq_Some_iff:
  "distinct (map node_key (nodes h)) \<Longrightarrow>
     hash_map h k = Some p \<longleftrightarrow> (\<exists>node \<in> set (nodes h). node_key node = k \<and> payload node = p)"
  unfolding hash_map_def by (subst map_of_eq_Some_iff) (auto simp: comp_def)

lemma hash_map_eq_None_iff: "hash_map h k = None \<longleftrightarrow> k \<notin> node_key ` set (nodes h)"
  by (auto simp: hash_map_def map_of_eq_None_iff image_image)

lemma distinct_keys_unique:
  "distinct (map node_key ns) \<Longrightarrow> n \<in> set ns \<Longrightarrow> m \<in> set ns \<Longrightarrow> node_key n = node_key m \<Longrightarrow> n = m"
  by (auto simp: distinct_map dest: inj_onD)

lemma find_in_table_Some:
  assumes t: "table_ok t" and f: "find_in_table t k code = Some node"
  shows "node \<in> set (concat t) \<and> node_key node = k \<and> t \<noteq> [] \<and> hash_code node = code"
proof -
  from f have ne: "t \<noteq> []" and
    f: "List.find (\<lambda>node. key_equals node k code) (t ! bucket_index code (slots t)) = Some node"
    by (auto simp: find_in_table_def split: if_splits)
  from table_bucket_less [OF t ne, of code] f ne show ?thesis
    by (auto simp: find_Some_iff key_equals_def intro!: bexI [of _ "t ! bucket_index code (slots t)"])
qed

lemma find_in_table_None:
  assumes t: "table_ok t" and f: "find_in_table t k (hash_bytes k) = None"
  shows "k \<notin> node_key ` set (concat t)"
proof
  assume "k \<in> node_key ` set (concat t)"
  then obtain node b where b: "b \<in> set t" "node \<in> set b" "node_key node = k" by auto
  then obtain i where node: "i < slots t" "node \<in> set (t ! i)" "node_key node = k"
    by (metis in_set_conv_nth)
  then have "bucket_index (hash_bytes k) (slots t) = i \<and> hash_code node = hash_bytes k"
    using table_okD [OF t] by auto
  with f node show False
    by (auto simp: find_in_table_def find_None_iff key_equals_def split: if_splits)
qed

lemma not_rehashing_table1: "hash_inv h \<Longrightarrow> \<not> kv_hash_is_rehashing h \<Longrightarrow> table1 h = []"
  by (simp add: hash_inv_def rehash_ok_def kv_hash_is_rehashing_def)

lemma kv_hash_find_Some:
  assumes inv: "hash_inv h" and f: "kv_hash_find h k = Some node"
  shows "node \<in> set (nodes h) \<and> node_key node = k \<and> hash_code node = hash_bytes k"
  using f inv find_in_table_Some [of "table0 h" k "hash_bytes k"]
    find_in_table_Some [of "table1 h" k "hash_bytes k"]
  by (auto simp: kv_hash_find_def nodes_def hash_inv_def Let_def split: option.splits if_splits)

lemma kv_hash_find_None:
  assumes inv: "hash_inv h" and f: "kv_hash_find h k = None"
  shows "k \<notin> node_key ` set (nodes h)"
  using f inv find_in_table_None [of "table0 h" k] find_in_table_None [of "table1 h" k]
    not_rehashing_table1 [OF inv]
  by (auto simp: kv_hash_find_def nodes_def hash_inv_def Let_def split: option.splits if_splits)

lemma kv_hash_find_map: "hash_inv h \<Longrightarrow> map_option payload (kv_hash_find h k) = hash_map h k"
proof (cases "kv_hash_find h k")
  case None
  assume "hash_inv h"
  from kv_hash_find_None [OF this None] None show ?thesis
    by (simp add: hash_map_eq_None_iff [THEN iffD2])
next
  case (Some node)
  assume inv: "hash_inv h"
  then have "hash_map h k = Some (payload node)"
    using kv_hash_find_Some [OF inv Some] hash_map_eq_Some_iff [of h k "payload node"]
    by (auto simp: hash_inv_def)
  with Some show ?thesis by simp
qed

subsection \<open>Insertion\<close>

lemma table_ok_replicate: "n \<le> SIZE_MAX div sizeof_pointer \<Longrightarrow> table_ok (replicate n [])"
  by (simp add: table_ok_def)

lemma concat_replicate_Nil [simp]: "concat (replicate n []) = []"
  by (induction n) simp_all

lemma length_push_node [simp]: "length (push_node t node) = length t"
  by (simp add: push_node_def Let_def)

lemma mset_push_node:
  assumes "table_ok t" "t \<noteq> []"
  shows "mset (concat (push_node t node)) = add_mset node (mset (concat t))"
  using mset_concat_update [OF table_bucket_less [OF assms, of "hash_code node"],
      of "node # t ! bucket_index (hash_code node) (slots t)"]
  by (simp add: push_node_def Let_def)

lemma table_ok_push_node:
  assumes "table_ok t" "hash_code node = hash_bytes (node_key node)"
  shows "table_ok (push_node t node)"
proof (cases "t = []")
  case True
  with assms show ?thesis by (simp add: push_node_def Let_def)
next
  case False
  have "table_ok (t[bucket_index (hash_code node) (slots t) :=
      node # t ! bucket_index (hash_code node) (slots t)])"
    by (rule table_ok_update [OF assms(1)])
      (use assms table_bucket_less [OF assms(1) False] table_okD [OF assms(1)] in fastforce)
  then show ?thesis by (simp add: push_node_def Let_def)
qed

lemma maybe_expand_ok:
  assumes inv: "hash_inv h" and e: "maybe_expand a h = Some h'"
  shows "hash_inv h' \<and> nodes h' = nodes h \<and> (kv_hash_is_rehashing h' \<longrightarrow> table1 h' \<noteq> [])
    \<and> hash_count h' = hash_count h"
proof (cases "h' = h")
  case True
  with inv show ?thesis
    by (auto simp: hash_inv_def rehash_ok_def kv_hash_is_rehashing_def split: option.splits)
next
  case False
  with e have h': "h' = h\<lparr>table1 := replicate (slots (table0 h) * 2) [], rehash_index := Some 0\<rparr>"
    and le: "slots (table0 h) * 2 \<le> SIZE_MAX div sizeof_pointer" and nr: "\<not> kv_hash_is_rehashing h"
    by (auto simp: maybe_expand_def start_expand_def table_allocate_def Let_def
        split: if_splits option.splits)
  from inv nr not_rehashing_table1 [OF inv nr] table_ok_replicate [OF le] show ?thesis
    by (auto simp: h' hash_inv_def nodes_def rehash_ok_def)
qed

lemma hash_inv_mset:
  assumes "mset (nodes h') = mset (nodes h)" "distinct (map node_key (nodes h))"
  shows "distinct (map node_key (nodes h')) \<and> length (nodes h') = length (nodes h) \<and> hash_map h' = hash_map h"
proof -
  from assms(1) have "mset (map node_key (nodes h')) = mset (map node_key (nodes h))" by simp
  then have d: "distinct (map node_key (nodes h'))"
    using assms(2) mset_eq_imp_distinct_iff by blast
  have "hash_map h' k = hash_map h k" for k
  proof (cases "hash_map h k")
    case None
    then have "hash_map h' k = None"
      using mset_eq_setD [OF assms(1)] by (simp add: hash_map_eq_None_iff)
    with None show ?thesis by simp
  next
    case (Some p)
    then show ?thesis using mset_eq_setD [OF assms(1)] hash_map_eq_Some_iff d assms(2) by metis
  qed
  with d show ?thesis using assms(1) mset_eq_length by blast
qed

text \<open>Every change of one node is described by the multiset of nodes it leaves.\<close>

lemma added_node:
  assumes m: "mset (nodes h') = add_mset node (mset (nodes h))"
    and d: "distinct (map node_key (nodes h))" and k: "node_key node \<notin> node_key ` set (nodes h)"
  shows "distinct (map node_key (nodes h')) \<and> length (nodes h') = Suc (length (nodes h))
    \<and> hash_map h' = (hash_map h)(node_key node \<mapsto> payload node)"
proof -
  have "mset (map node_key (nodes h')) = mset (map node_key (node # nodes h))" using m by simp
  then have d': "distinct (map node_key (nodes h'))"
    using d k mset_eq_imp_distinct_iff by fastforce
  have s: "set (nodes h') = insert node (set (nodes h))"
    using m by (metis set_mset_add_mset_insert set_mset_mset)
  have "hash_map h' x = ((hash_map h)(node_key node \<mapsto> payload node)) x" for x
  proof (cases "((hash_map h)(node_key node \<mapsto> payload node)) x")
    case None
    then have "hash_map h' x = None" by (auto simp: hash_map_eq_None_iff s split: if_splits)
    with None show ?thesis by simp
  next
    case (Some p)
    then show ?thesis
      using k by (auto simp: hash_map_eq_Some_iff [OF d'] hash_map_eq_Some_iff [OF d] s split: if_splits)
  qed
  moreover have "length (nodes h') = Suc (length (nodes h))"
    using m by (metis size_add_mset size_mset)
  ultimately show ?thesis using d' by blast
qed

lemma insert_node_ok:
  assumes inv: "hash_inv h" and k: "node_key node \<notin> node_key ` set (nodes h)"
    and code: "hash_code node = hash_bytes (node_key node)"
    and h': "h' = (if kv_hash_is_rehashing h
      then h\<lparr>table1 := push_node (table1 h) node, hash_count := hash_count h + 1\<rparr>
      else h\<lparr>table0 := push_node (table0 h) node, hash_count := hash_count h + 1\<rparr>)"
  shows "hash_inv h' \<and> hash_map h' = (hash_map h)(node_key node \<mapsto> payload node)
    \<and> mset (nodes h') = add_mset node (mset (nodes h))"
proof -
  note t = inv [unfolded hash_inv_def]
  have r: "kv_hash_is_rehashing h \<Longrightarrow> table1 h \<noteq> []"
    using t by (auto simp: kv_hash_is_rehashing_def rehash_ok_def)
  have m: "mset (nodes h') = add_mset node (mset (nodes h))"
    using t r mset_push_node [of "table0 h" node] mset_push_node [of "table1 h" node]
    by (simp add: h' nodes_def)
  have "table_ok (table0 h')" "table_ok (table1 h')" "table0 h' \<noteq> []"
    using t table_ok_push_node [OF _ code] length_push_node [of "table0 h" node]
    by (auto simp: h' simp flip: length_greater_0_conv)
  moreover have "rehash_ok h'"
    using t by (auto simp: rehash_ok_def h' kv_hash_is_rehashing_def split: option.splits)
  ultimately show ?thesis
    using added_node [OF m _ k] t m by (simp add: hash_inv_def h')
qed

text \<open>An insertion adds the key when it is absent and memory is available, and changes no mapping otherwise.\<close>

lemma kv_hash_insert_ok:
  assumes inv: "hash_inv h" and i: "kv_hash_insert alloc h k p = (h', r)"
  shows "hash_inv h' \<and> (case r of
       None \<Rightarrow> hash_map h' = hash_map h
     | Some node \<Rightarrow> hash_map h k = None \<and> hash_map h' = (hash_map h)(k \<mapsto> p)
         \<and> node = \<lparr>node_key = k, hash_code = hash_bytes k, payload = p\<rparr>
         \<and> mset (nodes h') = add_mset node (mset (nodes h)))"
proof (cases "length k = SIZE_MAX \<or> kv_hash_find h k \<noteq> None \<or> maybe_expand (buckets_allocated alloc) h = None")
  case True
  with i inv show ?thesis
    by (auto simp: kv_hash_insert_def kv_hash_find_def Let_def split: option.splits if_splits)
next
  case False
  then obtain e where e: "maybe_expand (buckets_allocated alloc) h = Some e" by auto
  note eok = maybe_expand_ok [OF inv e]
  have emap: "hash_map e = hash_map h" using eok by (simp add: hash_map_def)
  let ?node = "\<lparr>node_key = k, hash_code = hash_bytes k, payload = p\<rparr>"
  have absent: "k \<notin> node_key ` set (nodes h)" using kv_hash_find_None [OF inv] False by blast
  have step: "kv_hash_insert alloc h k p =
     (if sizeof_kv_hash_node > SIZE_MAX - length k - 1 \<or> \<not> node_allocated alloc then (e, None)
      else (if kv_hash_is_rehashing e
      then e\<lparr>table1 := push_node (table1 e) ?node, hash_count := hash_count e + 1\<rparr>
      else e\<lparr>table0 := push_node (table0 e) ?node, hash_count := hash_count e + 1\<rparr>, Some ?node))"
    using False e by (auto simp: kv_hash_insert_def kv_hash_find_def Let_def split: option.splits if_splits)
  show ?thesis
  proof (cases r)
    case None
    with step i eok emap show ?thesis by (auto split: if_splits)
  next
    case (Some node)
    with step i have h': "h' = (if kv_hash_is_rehashing e
      then e\<lparr>table1 := push_node (table1 e) ?node, hash_count := hash_count e + 1\<rparr>
      else e\<lparr>table0 := push_node (table0 e) ?node, hash_count := hash_count e + 1\<rparr>)" "node = ?node"
      by (auto split: if_splits)
    have "hash_inv h' \<and> hash_map h' = (hash_map e)(node_key ?node \<mapsto> payload ?node)
        \<and> mset (nodes h') = add_mset ?node (mset (nodes e))"
      by (rule insert_node_ok) (use eok absent h' in auto)
    with h' Some emap eok absent show ?thesis by (simp add: hash_map_eq_None_iff)
  qed
qed

lemma kv_hash_insert_succeeds:
  assumes "hash_inv h" "hash_map h k = None" "buckets_allocated alloc" "node_allocated alloc"
    and "length k + sizeof_kv_hash_node < SIZE_MAX" "slots (table0 h) * 2 \<le> SIZE_MAX div sizeof_pointer"
  shows "\<exists>node. snd (kv_hash_insert alloc h k p) = Some node"
proof -
  have "kv_hash_find h k = None"
    using kv_hash_find_map [OF assms(1), of k] assms(2) by simp
  moreover have "maybe_expand True h \<noteq> None"
    using assms(1,6) by (auto simp: maybe_expand_def start_expand_def table_allocate_def Let_def
        hash_inv_def sizeof_pointer_def SIZE_MAX_def)
  moreover have "length k \<noteq> SIZE_MAX" "\<not> sizeof_kv_hash_node > SIZE_MAX - length k - 1"
    using assms(5) by linarith+
  ultimately show ?thesis
    using assms(3,4) by (auto simp: kv_hash_insert_def kv_hash_find_def Let_def split: option.splits if_splits)
qed

subsection \<open>Removal\<close>

lemma chain_unlink_Some:
  "chain_unlink k c = Some (p, c') \<Longrightarrow>
     \<exists>node. mset c = add_mset node (mset c') \<and> node_key node = k \<and> payload node = p"
proof (induction c arbitrary: c')
  case Nil
  then show ?case by simp
next
  case (Cons n c)
  then show ?case by (fastforce split: if_splits option.splits)
qed

lemma chain_unlink_None: "chain_unlink k c = None \<longleftrightarrow> k \<notin> node_key ` set c"
  by (induction c) (auto split: option.splits)

lemma unlink_in_table_Some:
  assumes t: "table_ok t" and u: "unlink_in_table t k code = Some (p, t')"
  shows "table_ok t' \<and> slots t' = slots t \<and> (\<forall>j < slots t. t ! j = [] \<longrightarrow> t' ! j = [])
    \<and> (\<exists>node. mset (concat t) = add_mset node (mset (concat t')) \<and> node_key node = k \<and> payload node = p)"
proof -
  let ?b = "bucket_index code (slots t)"
  from u obtain c where ne: "t \<noteq> []" and c: "chain_unlink k (t ! ?b) = Some (p, c)" and t': "t' = t[?b := c]"
    by (auto simp: unlink_in_table_def Let_def split: if_splits option.splits)
  have b: "?b < slots t" by (rule table_bucket_less [OF t ne])
  from chain_unlink_Some [OF c] obtain node where
    node: "mset (t ! ?b) = add_mset node (mset c)" "node_key node = k" "payload node = p" by blast
  have sub: "set c \<subseteq> set (t ! ?b)" using node(1) by (metis set_mset_add_mset_insert set_mset_mset subset_insertI)
  have "table_ok t'"
    unfolding t' by (rule table_ok_update [OF t]) (use sub table_okD [OF t b] in blast)
  moreover have "mset (concat t) = add_mset node (mset (concat t'))"
    using mset_concat_update [OF b, of c] node(1) by (simp add: t')
  moreover have "t ! j = [] \<longrightarrow> t' ! j = []" for j
    using sub b by (cases "j = ?b") (auto simp: t')
  ultimately show ?thesis using node t' by auto
qed

lemma unlink_in_table_None:
  assumes t: "table_ok t" and u: "unlink_in_table t k (hash_bytes k) = None"
  shows "k \<notin> node_key ` set (concat t)"
proof
  assume "k \<in> node_key ` set (concat t)"
  then obtain node b where b: "b \<in> set t" "node \<in> set b" "node_key node = k" by auto
  then obtain i where node: "i < slots t" "node \<in> set (t ! i)" by (metis in_set_conv_nth)
  with table_okD [OF t node] b u show False
    by (auto simp: unlink_in_table_def chain_unlink_None Let_def split: if_splits option.splits)
qed

lemma removed_node:
  assumes m: "mset (nodes h) = add_mset node (mset (nodes h'))"
    and d: "distinct (map node_key (nodes h))"
  shows "distinct (map node_key (nodes h')) \<and> length (nodes h) = Suc (length (nodes h'))
    \<and> hash_map h' = (hash_map h)(node_key node := None) \<and> hash_map h (node_key node) = Some (payload node)"
proof -
  have "mset (map node_key (nodes h)) = mset (map node_key (node # nodes h'))" using m by simp
  then have "distinct (map node_key (node # nodes h'))" using d mset_eq_imp_distinct_iff by blast
  then have d': "distinct (map node_key (nodes h'))" and k: "node_key node \<notin> node_key ` set (nodes h')" by auto
  from added_node [OF m d' k] have "length (nodes h) = Suc (length (nodes h'))"
    and "hash_map h = (hash_map h')(node_key node \<mapsto> payload node)" by blast+
  moreover have "hash_map h' (node_key node) = None" using k by (simp add: hash_map_eq_None_iff)
  ultimately show ?thesis using d' by auto
qed

lemma remove_target_ok:
  assumes inv: "hash_inv h" and code: "hash_code node = hash_bytes (node_key node)"
    and r: "remove_target h (Some node) = (h', p)"
  shows "hash_inv h' \<and> p = hash_map h (node_key node) \<and> hash_map h' = (hash_map h)(node_key node := None)
    \<and> (p \<noteq> None \<longrightarrow> hash_count h = Suc (hash_count h'))
    \<and> (\<exists>ns. mset (nodes h) = mset ns + mset (nodes h'))"
proof -
  note t = inv [unfolded hash_inv_def]
  let ?k = "node_key node"
  consider (first) v t0 where "unlink_in_table (table0 h) ?k (hash_bytes ?k) = Some (v, t0)"
      "h' = h\<lparr>table0 := t0, hash_count := hash_count h - 1\<rparr>" "p = Some v"
    | (second) v t1 where "unlink_in_table (table1 h) ?k (hash_bytes ?k) = Some (v, t1)"
      "h' = h\<lparr>table1 := t1, hash_count := hash_count h - 1\<rparr>" "p = Some v"
    | (absent) "unlink_in_table (table0 h) ?k (hash_bytes ?k) = None"
      "unlink_in_table (table1 h) ?k (hash_bytes ?k) = None" "h' = h" "p = None"
    using r code by (auto simp: remove_target_def split: option.splits)
  then show ?thesis
  proof cases
    case first
    from t have "table_ok (table0 h)" by blast
    from unlink_in_table_Some [OF this first(1)] obtain n where u: "table_ok t0" "slots t0 = slots (table0 h)"
      "\<forall>j < slots (table0 h). table0 h ! j = [] \<longrightarrow> t0 ! j = []"
      "mset (concat (table0 h)) = add_mset n (mset (concat t0))" "node_key n = ?k" "payload n = v" by blast
    then have m: "mset (nodes h) = add_mset n (mset (nodes h'))" by (simp add: nodes_def first(2))
    have "rehash_ok h'" using t u by (auto simp: rehash_ok_def first(2) split: option.splits)
    with removed_node [OF m] t u m show ?thesis
      by (auto simp: hash_inv_def first intro!: exI [of _ "[n]"] simp flip: length_greater_0_conv)
  next
    case second
    from t have "table_ok (table1 h)" by blast
    from unlink_in_table_Some [OF this second(1)] obtain n where u: "table_ok t1" "slots t1 = slots (table1 h)"
      "mset (concat (table1 h)) = add_mset n (mset (concat t1))" "node_key n = ?k" "payload n = v" by blast
    then have m: "mset (nodes h) = add_mset n (mset (nodes h'))" by (simp add: nodes_def second(2))
    have "rehash_ok h'" using t u by (auto simp: rehash_ok_def second(2) split: option.splits)
    with removed_node [OF m] t u m show ?thesis
      by (auto simp: hash_inv_def second intro!: exI [of _ "[n]"])
  next
    case absent
    then have "?k \<notin> node_key ` set (nodes h)"
      using unlink_in_table_None t by (auto simp: nodes_def)
    then have "hash_map h ?k = None" by (simp add: hash_map_eq_None_iff)
    with inv absent show ?thesis by (auto simp: fun_upd_idem_iff intro: exI [of _ "[]"])
  qed
qed

lemma kv_hash_remove_ok:
  assumes inv: "hash_inv h" and r: "kv_hash_remove h k = (h', p)"
  shows "hash_inv h' \<and> p = hash_map h k \<and> hash_map h' = (hash_map h)(k := None)
    \<and> (p \<noteq> None \<longrightarrow> hash_count h = Suc (hash_count h'))"
proof (cases "kv_hash_find h k")
  case None
  with r kv_hash_find_map [OF inv, of k] inv show ?thesis
    by (auto simp: kv_hash_remove_def remove_target_def)
next
  case (Some node)
  from kv_hash_find_Some [OF inv Some] have "node_key node = k" "hash_code node = hash_bytes (node_key node)"
    by auto
  with remove_target_ok [OF inv this(2)] r Some show ?thesis by (auto simp: kv_hash_remove_def)
qed

subsection \<open>Creation and payload updates\<close>

lemma kv_hash_create_ok:
  "kv_hash_create s a = Some h \<Longrightarrow> hash_inv h \<and> hash_map h = Map.empty \<and> nodes h = [] \<and> hash_count h = 0"
  by (auto simp: kv_hash_create_def hash_init_def table_allocate_def hash_inv_def rehash_ok_def
      nodes_def hash_map_def HASH_INITIAL_SLOTS_def table_ok_def split: if_splits option.splits)

lemma set_payload_nodes:
  "nodes (kv_hash_node_set_payload h k p) =
     map (\<lambda>node. if node_key node = k then node\<lparr>payload := p\<rparr> else node) (nodes h)"
  by (simp add: kv_hash_node_set_payload_def nodes_def set_payload_table_def map_concat)

lemma map_of_set_payload:
  "k \<in> node_key ` set ns \<Longrightarrow>
     map_of (map ((\<lambda>node. (node_key node, payload node))
       \<circ> (\<lambda>node. if node_key node = k then node\<lparr>payload := p\<rparr> else node)) ns) =
     (map_of (map (\<lambda>node. (node_key node, payload node)) ns))(k \<mapsto> p)"
proof (induction ns)
  case Nil
  then show ?case by simp
next
  case (Cons n ns)
  have absent: "map ((\<lambda>node. (node_key node, payload node))
       \<circ> (\<lambda>node. if node_key node = k then node\<lparr>payload := p\<rparr> else node)) ns =
     map (\<lambda>node. (node_key node, payload node)) ns" if "k \<notin> node_key ` set ns"
    using that by (intro map_cong) auto
  show ?case
  proof (cases "k \<in> node_key ` set ns")
    case True
    with Cons.IH show ?thesis by (auto simp: fun_upd_twist)
  next
    case False
    then have "node_key n = k" using Cons.prems by auto
    then show ?thesis by (simp add: absent [OF False, unfolded comp_def] comp_def fun_eq_iff)
  qed
qed

lemma table_ok_set_payload:
  assumes "table_ok t"
  shows "table_ok (set_payload_table k p t)"
  unfolding table_ok_def
proof (intro conjI allI impI ballI)
  show "slots (set_payload_table k p t) \<le> SIZE_MAX div sizeof_pointer"
    using assms by (simp add: table_ok_def set_payload_table_def)
  fix i node assume "i < slots (set_payload_table k p t)" "node \<in> set (set_payload_table k p t ! i)"
  then obtain n where n: "i < slots t" "n \<in> set (t ! i)" "node_key node = node_key n"
      "hash_code node = hash_code n"
    by (auto simp: set_payload_table_def)
  with table_okD [OF assms n(1,2)] show "hash_code node = hash_bytes (node_key node)"
    "bucket_index (hash_code node) (slots (set_payload_table k p t)) = i"
    by (simp_all add: set_payload_table_def)
qed

lemma kv_hash_node_set_payload_ok:
  assumes inv: "hash_inv h" and k: "hash_map h k \<noteq> None"
  shows "hash_inv (kv_hash_node_set_payload h k p)"
    and "hash_map (kv_hash_node_set_payload h k p) = (hash_map h)(k \<mapsto> p)"
    and "hash_count (kv_hash_node_set_payload h k p) = hash_count h"
proof -
  let ?h = "kv_hash_node_set_payload h k p"
  note t = inv [unfolded hash_inv_def]
  have keys: "map node_key (nodes ?h) = map node_key (nodes h)"
    by (simp add: set_payload_nodes comp_def)
  have "rehash_ok ?h"
    using t by (auto simp: rehash_ok_def kv_hash_node_set_payload_def set_payload_table_def
        split: option.splits)
  then show "hash_inv ?h"
    using t keys table_ok_set_payload
    by (auto simp: hash_inv_def kv_hash_node_set_payload_def set_payload_table_def set_payload_nodes
        dest: map_eq_imp_length_eq)
  show "hash_count ?h = hash_count h" by (simp add: kv_hash_node_set_payload_def)
  show "hash_map ?h = (hash_map h)(k \<mapsto> p)"
    using map_of_set_payload [of k "nodes h" p] k
    by (simp add: hash_map_def [of ?h] set_payload_nodes hash_map_eq_None_iff) (simp add: hash_map_def)
qed

subsection \<open>Incremental rehashing\<close>

lemma push_nodes_ok:
  "table_ok t \<Longrightarrow> t \<noteq> [] \<Longrightarrow> \<forall>node \<in> set ns. hash_code node = hash_bytes (node_key node) \<Longrightarrow>
     table_ok (foldl push_node t ns) \<and> length (foldl push_node t ns) = length t
     \<and> mset (concat (foldl push_node t ns)) = mset ns + mset (concat t)"
proof (induction ns arbitrary: t)
  case Nil
  then show ?case by simp
next
  case (Cons n ns)
  have "table_ok (push_node t n)" "push_node t n \<noteq> []"
    using Cons.prems table_ok_push_node length_push_node [of t n]
    by (auto simp flip: length_greater_0_conv)
  with Cons.IH [of "push_node t n"] Cons.prems mset_push_node [of t n] show ?case by simp
qed

definition rehash_state :: "'p kv_hash_table \<Rightarrow> 'p kv_hash_table \<Rightarrow> nat \<Rightarrow> bool" where
  "rehash_state t0 t1 i \<longleftrightarrow> table_ok t0 \<and> table_ok t1 \<and> t1 \<noteq> [] \<and> i \<le> slots t0 \<and> (\<forall>j < i. t0 ! j = [])"

lemma rehash_state_move:
  assumes st: "rehash_state t0 t1 i" and i: "i < slots t0"
  shows "rehash_state (t0[i := []]) (foldl push_node t1 (t0 ! i)) (i + 1)
    \<and> slots (foldl push_node t1 (t0 ! i)) = slots t1
    \<and> mset (concat (t0[i := []])) + mset (concat (foldl push_node t1 (t0 ! i)))
      = mset (concat t0) + mset (concat t1)"
proof -
  note s = st [unfolded rehash_state_def]
  have "\<forall>node \<in> set (t0 ! i). hash_code node = hash_bytes (node_key node)"
    using s i table_okD [of t0 i] by blast
  from push_nodes_ok [OF _ _ this, of t1] s
  have p: "table_ok (foldl push_node t1 (t0 ! i))" "slots (foldl push_node t1 (t0 ! i)) = slots t1"
    "mset (concat (foldl push_node t1 (t0 ! i))) = mset (t0 ! i) + mset (concat t1)" by auto
  have "table_ok (t0[i := []])" by (rule table_ok_update) (use s in auto)
  moreover have "\<forall>j < i + 1. t0[i := []] ! j = []"
    using s i by (auto simp: nth_list_update)
  moreover have "mset (concat (t0[i := []])) + mset (t0 ! i) = mset (concat t0)"
    using mset_concat_update [OF i, of "[]"] by simp
  moreover have "foldl push_node t1 (t0 ! i) \<noteq> []" using p(2) s by (metis length_0_conv)
  ultimately show ?thesis
    using p i unfolding rehash_state_def by (auto simp: ac_simps)
qed

lemma rehash_loop_ok:
  "rehash_state t0 t1 i \<Longrightarrow> rehash_loop t0 t1 i b e m = (t0', t1', i', m') \<Longrightarrow>
     rehash_state t0' t1' i' \<and> slots t0' = slots t0 \<and> slots t1' = slots t1 \<and> i \<le> i'
     \<and> mset (concat t0') + mset (concat t1') = mset (concat t0) + mset (concat t1)
     \<and> min (slots t0) (i + b) \<le> i' \<and> i' \<le> i + b + e \<and> m' \<le> m + b"
proof (induction t0 t1 i b e m rule: rehash_loop.induct)
  case (1 t0 t1 i b e m)
  show ?case
  proof (cases "b > 0 \<and> i < slots t0")
    case False
    with 1 show ?thesis
      by (subst (asm) (3) rehash_loop.simps) (auto simp: rehash_state_def)
  next
    case run: True
    show ?thesis
    proof (cases "t0 ! i = [] \<and> e > 0")
      case True
      have "rehash_state t0 t1 (i + 1)"
        using "1.prems"(1) run True by (auto simp: rehash_state_def less_Suc_eq)
      moreover have "rehash_loop t0 t1 (i + 1) b (e - 1) m = (t0', t1', i', m')"
        using "1.prems"(2) run True by (subst (asm) rehash_loop.simps) auto
      ultimately show ?thesis using "1.IH"(1) [OF run True] True by auto
    next
      case False
      from run have i: "i < slots t0" by simp
      note mv = rehash_state_move [OF "1.prems"(1) i]
      have "rehash_loop (t0[i := []]) (foldl push_node t1 (t0 ! i)) (i + 1) (b - 1) e (m + 1)
          = (t0', t1', i', m')"
        using "1.prems"(2) run False by (subst (asm) rehash_loop.simps) auto
      from "1.IH"(2) [OF run False _ this] mv run show ?thesis by auto
    qed
  qed
qed

lemma kv_hash_rehash_step_ok:
  assumes inv: "hash_inv h" and r: "kv_hash_rehash_step h b = (h', m)"
  shows "hash_inv h' \<and> hash_map h' = hash_map h \<and> hash_count h' = hash_count h
    \<and> mset (nodes h') = mset (nodes h)"
proof (cases "rehash_index h")
  case None
  with assms show ?thesis by (simp add: kv_hash_rehash_step_def)
next
  case (Some i)
  note t = inv [unfolded hash_inv_def]
  let ?e = "if b > SIZE_MAX div 10 then SIZE_MAX else b * 10"
  obtain t0 t1 i' m' where l: "rehash_loop (table0 h) (table1 h) i b ?e 0 = (t0, t1, i', m')"
    by (metis prod_cases4)
  have "rehash_state (table0 h) (table1 h) i"
    using t Some by (auto simp: rehash_ok_def rehash_state_def simp flip: length_greater_0_conv)
  note lok = rehash_loop_ok [OF this l]
  have h': "h' = (if i' = slots t0 then h\<lparr>table0 := t1, table1 := [], rehash_index := None\<rparr>
      else h\<lparr>table0 := t0, table1 := t1, rehash_index := Some i'\<rparr>)"
    using r Some l by (auto simp: kv_hash_rehash_step_def Let_def split: if_splits)
  have empty: "i' = slots t0 \<Longrightarrow> concat t0 = []"
    using lok by (auto simp: rehash_state_def in_set_conv_nth)
  have m: "mset (nodes h') = mset (nodes h)"
  proof (cases "i' = slots t0")
    case True
    from empty [OF True] have "mset (concat t0) = {#}" by simp
    with lok True show ?thesis by (simp only: nodes_def h') simp
  next
    case False
    with lok show ?thesis by (simp add: nodes_def h')
  qed
  have "t0 \<noteq> []" using lok t by (metis length_0_conv)
  then have "table_ok (table0 h') \<and> table_ok (table1 h') \<and> table0 h' \<noteq> []"
    using lok by (simp add: h' rehash_state_def table_ok_Nil)
  moreover have "rehash_ok h'"
    using lok t Some by (auto simp: h' rehash_ok_def rehash_state_def)
  ultimately show ?thesis
    using hash_inv_mset [OF m] t m by (auto simp: hash_inv_def h')
qed

text \<open>Work per step is bounded, and every step with a positive budget advances.\<close>

lemma kv_hash_rehash_step_progress:
  assumes inv: "hash_inv h" and i: "rehash_index h = Some i" and r: "kv_hash_rehash_step h b = (h', m)"
  shows "m \<le> b \<and> (case rehash_index h' of
      None \<Rightarrow> slots (table0 h') = slots (table1 h)
    | Some i' \<Rightarrow> i + b \<le> i' \<and> (b \<le> SIZE_MAX div 10 \<longrightarrow> i' \<le> i + 11 * b)
        \<and> slots (table0 h') = slots (table0 h))"
proof -
  note t = inv [unfolded hash_inv_def]
  let ?e = "if b > SIZE_MAX div 10 then SIZE_MAX else b * 10"
  obtain t0 t1 i' m' where l: "rehash_loop (table0 h) (table1 h) i b ?e 0 = (t0, t1, i', m')"
    by (metis prod_cases4)
  have "rehash_state (table0 h) (table1 h) i"
    using t i by (auto simp: rehash_ok_def rehash_state_def simp flip: length_greater_0_conv)
  note lok = rehash_loop_ok [OF this l]
  from r i l lok show ?thesis
    by (auto simp: kv_hash_rehash_step_def Let_def rehash_state_def split: if_splits)
qed

definition rehash_step_state :: "nat \<Rightarrow> 'p hashtable \<Rightarrow> 'p hashtable" where
  "rehash_step_state b h = fst (kv_hash_rehash_step h b)"

lemma rehash_terminates:
  "hash_inv h \<Longrightarrow> 0 < b \<Longrightarrow> (case rehash_index h of None \<Rightarrow> 0 | Some i \<Rightarrow> slots (table0 h) - i) \<le> n \<Longrightarrow>
     \<not> kv_hash_is_rehashing ((rehash_step_state b ^^ n) h)"
proof (induction n arbitrary: h)
  case 0
  then show ?case by (auto simp: kv_hash_is_rehashing_def hash_inv_def rehash_ok_def split: option.splits)
next
  case (Suc n)
  obtain h' m where r: "kv_hash_rehash_step h b = (h', m)" by fastforce
  have inv: "hash_inv h'" using kv_hash_rehash_step_ok [OF Suc.prems(1) r] by blast
  have "(case rehash_index h' of None \<Rightarrow> 0 | Some i \<Rightarrow> slots (table0 h') - i) \<le> n"
  proof (cases "rehash_index h")
    case None
    with r show ?thesis by (simp add: kv_hash_rehash_step_def)
  next
    case (Some i)
    from kv_hash_rehash_step_progress [OF Suc.prems(1) Some r] Suc.prems(2,3) Some show ?thesis
      by (auto split: option.splits)
  qed
  from Suc.IH [OF inv Suc.prems(2) this] r show ?case
    by (simp add: funpow_swap1 [symmetric] funpow_Suc_right rehash_step_state_def del: funpow.simps)
qed

subsection \<open>Iteration\<close>

text \<open>What an iterator has still to return.\<close>

definition remaining :: "'p hashtable \<Rightarrow> 'p kv_hash_iterator \<Rightarrow> 'p kv_hash_node list" where
  "remaining h it = iter_next it @
     (if table_index it = 0 then concat (drop (iter_bucket it) (table0 h)) @ concat (table1 h)
      else if table_index it = 1 then concat (drop (iter_bucket it) (table1 h))
      else [])"

lemma scan_table_eq:
  "(case scan_table t b of
      None \<Rightarrow> concat (drop b t) = []
    | Some (node, next, b') \<Rightarrow> concat (drop b t) = node # next @ concat (drop b' t))"
proof (induction t b rule: scan_table.induct)
  case (1 t b)
  show ?case
  proof (cases "b < slots t")
    case True
    then have "drop b t = t ! b # drop (Suc b) t" by (simp add: Cons_nth_drop_Suc)
    with 1 True show ?thesis
      by (subst scan_table.simps) (auto split: list.splits option.splits)
  next
    case False
    then show ?thesis by (subst scan_table.simps) simp
  qed
qed

lemma scan_tables_eq:
  "(case scan_tables h ti b of
      (None, it) \<Rightarrow> remaining h \<lparr>table_index = ti, iter_bucket = b, iter_next = []\<rparr> = []
    | (Some node, it) \<Rightarrow>
        remaining h \<lparr>table_index = ti, iter_bucket = b, iter_next = []\<rparr> = node # remaining h it)"
proof (induction h ti b rule: scan_tables.induct)
  case (1 h ti b)
  show ?case
  proof (cases "ti < 2")
    case True
    let ?t = "if ti = 0 then table0 h else table1 h"
    show ?thesis
    proof (cases "scan_table ?t b")
      case None
      with scan_table_eq [of b ?t] "1.IH" [OF True None] True show ?thesis
        by (subst scan_tables.simps)
          (cases "ti = 0"; auto simp: remaining_def split: prod.splits option.splits)
    next
      case (Some r)
      with scan_table_eq [of b ?t] True show ?thesis
        by (subst scan_tables.simps) (cases r; cases "ti = 0"; auto simp: remaining_def)
    qed
  next
    case False
    then show ?thesis by (subst scan_tables.simps) (simp add: remaining_def)
  qed
qed

lemma kv_hash_iterator_next_eq:
  "(case kv_hash_iterator_next h it of
      (None, it') \<Rightarrow> remaining h it = []
    | (Some node, it') \<Rightarrow> remaining h it = node # remaining h it')"
proof (cases "iter_next it")
  case Nil
  then have "remaining h it =
      remaining h \<lparr>table_index = table_index it, iter_bucket = iter_bucket it, iter_next = []\<rparr>"
    by (simp add: remaining_def)
  with scan_tables_eq [of h "table_index it" "iter_bucket it"] Nil show ?thesis
    by (simp add: kv_hash_iterator_next_def split: prod.splits option.splits)
next
  case (Cons n ns)
  then show ?thesis by (simp add: kv_hash_iterator_next_def remaining_def)
qed

lemma iterator_next_Some:
  "kv_hash_iterator_next h it = (Some node, it') \<Longrightarrow> remaining h it = node # remaining h it'"
  using kv_hash_iterator_next_eq [of h it] by simp

text \<open>The loop \<open>while ((node = kv_hash_iterator_next(&iterator)) != NULL)\<close> of the clients.\<close>

function iterator_collect :: "'p hashtable \<Rightarrow> 'p kv_hash_iterator \<Rightarrow> 'p kv_hash_node list" where
  "iterator_collect h it =
     (case kv_hash_iterator_next h it of
        (None, it') \<Rightarrow> []
      | (Some node, it') \<Rightarrow> node # iterator_collect h it')"
  by pat_completeness auto
termination
  apply (relation "measure (\<lambda>(h, it). length (remaining h it))")
   apply simp
  subgoal premises prems for h it x y node
    using iterator_next_Some [of h it node y] prems(1) [symmetric] prems(2) by simp
  done

declare iterator_collect.simps [simp del]

lemma iterator_collect_remaining: "iterator_collect h it = remaining h it"
proof (induction h it rule: iterator_collect.induct)
  case (1 h it)
  obtain r it' where n: "kv_hash_iterator_next h it = (r, it')" by fastforce
  show ?case
  proof (cases r)
    case None
    with n kv_hash_iterator_next_eq [of h it] show ?thesis by (subst iterator_collect.simps) simp
  next
    case (Some node)
    with "1.IH" [OF n [symmetric] Some] n iterator_next_Some [of h it node it'] show ?thesis
      by (subst iterator_collect.simps) simp
  qed
qed

lemma iterator_collect_begin: "iterator_collect h kv_hash_iterator_begin = nodes h"
  by (simp add: iterator_collect_remaining kv_hash_iterator_begin_def remaining_def nodes_def)

subsection \<open>The dictionary interface\<close>

text \<open>
  What the cache index, hash objects and sorted sets rely on: a finite map with lookup,
  insertion of absent keys, payload update, removal, and maintenance that changes no mapping.
\<close>

datatype 'p dict_op =
    Dict_insert hash_alloc bytes 'p
  | Dict_update bytes 'p
  | Dict_remove bytes
  | Dict_maintain nat

text \<open>What an insertion needs for its node, and what is always enough for it.\<close>

definition node_fits :: "hash_alloc \<Rightarrow> bytes \<Rightarrow> bool" where
  "node_fits a k \<longleftrightarrow> node_allocated a \<and> length k + sizeof_kv_hash_node < SIZE_MAX"

definition plenty :: "hash_alloc \<Rightarrow> bytes \<Rightarrow> bool" where
  "plenty a k \<longleftrightarrow> node_fits a k \<and> buckets_allocated a"

text \<open>
  The effect of an operation and its answer on the abstract map: an insertion answers whether the key
  is new, and may refuse a new key only for lack of memory; a removal answers whether the key was there.
\<close>

inductive map_step :: "'p dict_op \<Rightarrow> bool \<Rightarrow> (bytes \<rightharpoonup> 'p) \<Rightarrow> (bytes \<rightharpoonup> 'p) \<Rightarrow> bool" where
  inserted: "m k = None \<Longrightarrow> node_fits a k \<Longrightarrow> map_step (Dict_insert a k p) True m (m(k \<mapsto> p))"
| not_inserted: "m k \<noteq> None \<or> \<not> plenty a k \<Longrightarrow> map_step (Dict_insert a k p) False m m"
| updated: "m k \<noteq> None \<Longrightarrow> map_step (Dict_update k p) True m (m(k \<mapsto> p))"
| not_updated: "m k = None \<Longrightarrow> map_step (Dict_update k p) True m m"
| removed: "map_step (Dict_remove k) (m k \<noteq> None) m (m(k := None))"
| maintained: "map_step (Dict_maintain n) True m m"

inductive_cases map_step_insertE: "map_step (Dict_insert a k p) r m m'"
inductive_cases map_step_removeE: "map_step (Dict_remove k) r m m'"
inductive_cases map_step_maintainE: "map_step (Dict_maintain n) r m m'"

inductive map_steps :: "'p dict_op list \<Rightarrow> bool list \<Rightarrow> (bytes \<rightharpoonup> 'p) \<Rightarrow> (bytes \<rightharpoonup> 'p) \<Rightarrow> bool" where
  none: "map_steps [] [] m m"
| more: "map_step call r m m' \<Longrightarrow> map_steps calls rs m' m'' \<Longrightarrow> map_steps (call # calls) (r # rs) m m''"

inductive_cases map_steps_consE: "map_steps (call # calls) rs m m'"
inductive_cases map_steps_nilE: "map_steps [] rs m m'"

fun dict_call ::
  "(hash_alloc \<Rightarrow> 'h \<Rightarrow> bytes \<Rightarrow> 'p \<Rightarrow> 'h \<times> bool) \<Rightarrow> ('h \<Rightarrow> bytes \<Rightarrow> 'p \<Rightarrow> 'h) \<Rightarrow> ('h \<Rightarrow> bytes \<Rightarrow> 'h \<times> bool)
     \<Rightarrow> ('h \<Rightarrow> nat \<Rightarrow> 'h) \<Rightarrow> 'p dict_op \<Rightarrow> 'h \<Rightarrow> 'h \<times> bool" where
  "dict_call ins upd rem mnt (Dict_insert a k p) h = ins a h k p"
| "dict_call ins upd rem mnt (Dict_update k p) h = (upd h k p, True)"
| "dict_call ins upd rem mnt (Dict_remove k) h = rem h k"
| "dict_call ins upd rem mnt (Dict_maintain n) h = (mnt h n, True)"

text \<open>A sequence of calls with their answers.\<close>

fun dict_run ::
  "(hash_alloc \<Rightarrow> 'h \<Rightarrow> bytes \<Rightarrow> 'p \<Rightarrow> 'h \<times> bool) \<Rightarrow> ('h \<Rightarrow> bytes \<Rightarrow> 'p \<Rightarrow> 'h) \<Rightarrow> ('h \<Rightarrow> bytes \<Rightarrow> 'h \<times> bool)
     \<Rightarrow> ('h \<Rightarrow> nat \<Rightarrow> 'h) \<Rightarrow> 'p dict_op list \<Rightarrow> 'h \<Rightarrow> 'h \<times> bool list" where
  "dict_run ins upd rem mnt [] h = (h, [])"
| "dict_run ins upd rem mnt (call # calls) h =
     (let (h, r) = dict_call ins upd rem mnt call h; (h, rs) = dict_run ins upd rem mnt calls h in (h, r # rs))"

text \<open>\<open>room n\<close>: the bucket array can grow as far as \<open>n\<close> more calls may need.\<close>

locale dictionary =
  fixes inv :: "'h \<Rightarrow> bool"
    and room :: "nat \<Rightarrow> 'h \<Rightarrow> bool"
    and lookup :: "'h \<Rightarrow> bytes \<Rightarrow> 'p option"
    and ins :: "hash_alloc \<Rightarrow> 'h \<Rightarrow> bytes \<Rightarrow> 'p \<Rightarrow> 'h \<times> bool"
    and upd :: "'h \<Rightarrow> bytes \<Rightarrow> 'p \<Rightarrow> 'h"
    and rem :: "'h \<Rightarrow> bytes \<Rightarrow> 'h \<times> bool"
    and mnt :: "'h \<Rightarrow> nat \<Rightarrow> 'h"
  assumes ins_law: "inv h \<Longrightarrow> ins a h k p = (h', r) \<Longrightarrow> inv h' \<and>
      (if r then lookup h k = None \<and> node_fits a k \<and> lookup h' = (lookup h)(k \<mapsto> p) else lookup h' = lookup h)"
    and ins_total: "inv h \<Longrightarrow> room (Suc n) h \<Longrightarrow> lookup h k = None \<Longrightarrow> plenty a k \<Longrightarrow> snd (ins a h k p)"
    and upd_law: "inv h \<Longrightarrow> lookup h k \<noteq> None \<Longrightarrow>
      inv (upd h k p) \<and> lookup (upd h k p) = (lookup h)(k \<mapsto> p)"
    and upd_absent: "inv h \<Longrightarrow> lookup h k = None \<Longrightarrow> inv (upd h k p) \<and> lookup (upd h k p) = lookup h"
    and rem_law: "inv h \<Longrightarrow> rem h k = (h', r) \<Longrightarrow> inv h' \<and> r = (lookup h k \<noteq> None) \<and> lookup h' = (lookup h)(k := None)"
    and mnt_law: "inv h \<Longrightarrow> inv (mnt h n) \<and> lookup (mnt h n) = lookup h"
    and room_law: "inv h \<Longrightarrow> room (Suc n) h \<Longrightarrow> dict_call ins upd rem mnt call h = (h', r) \<Longrightarrow> room n h'"
begin

lemma call_refines:
  assumes h: "inv h" "room (Suc n) h" and c: "dict_call ins upd rem mnt call h = (h', r)"
  shows "inv h' \<and> map_step call r (lookup h) (lookup h')"
proof (cases call)
  case (Dict_insert a k p)
  with c have i: "ins a h k p = (h', r)" by simp
  show ?thesis
  proof (cases r)
    case True
    with ins_law [OF h(1) i] Dict_insert show ?thesis by (auto intro: map_step.inserted)
  next
    case False
    then have "lookup h k \<noteq> None \<or> \<not> plenty a k" using ins_total [OF h, of k a p] i by auto
    with False ins_law [OF h(1) i] Dict_insert show ?thesis by (auto intro: map_step.not_inserted)
  qed
next
  case (Dict_update k p)
  with c upd_law [OF h(1), of k p] upd_absent [OF h(1), of k p] show ?thesis
    by (cases "lookup h k") (auto intro: map_step.updated map_step.not_updated)
next
  case (Dict_remove k)
  with c have "rem h k = (h', r)" by simp
  from rem_law [OF h(1) this] map_step.removed [of k "lookup h"] Dict_remove show ?thesis by simp
next
  case (Dict_maintain n)
  with c mnt_law [OF h(1), of n] show ?thesis by (auto intro: map_step.maintained)
qed

lemma run_refines:
  "inv h \<Longrightarrow> room (length calls) h \<Longrightarrow> dict_run ins upd rem mnt calls h = (h', rs) \<Longrightarrow>
     inv h' \<and> map_steps calls rs (lookup h) (lookup h')"
proof (induction calls arbitrary: h rs)
  case Nil
  then show ?case by (simp add: map_steps.none)
next
  case (Cons call calls)
  obtain h1 r where c: "dict_call ins upd rem mnt call h = (h1, r)" by fastforce
  obtain rs' where d: "dict_run ins upd rem mnt calls h1 = (h', rs')" "rs = r # rs'"
    using Cons.prems(3) c by (auto split: prod.splits)
  have rm: "room (Suc (length calls)) h" using Cons.prems(2) by simp
  from call_refines [OF Cons.prems(1) rm c] Cons.IH [OF _ room_law [OF Cons.prems(1) rm c] d(1)] d(2)
  show ?case by (auto intro: map_steps.more)
qed

end

definition hash_insert_state :: "hash_alloc \<Rightarrow> 'p hashtable \<Rightarrow> bytes \<Rightarrow> 'p \<Rightarrow> 'p hashtable" where
  "hash_insert_state a h k p = fst (kv_hash_insert a h k p)"

definition hash_insert_call :: "hash_alloc \<Rightarrow> 'p hashtable \<Rightarrow> bytes \<Rightarrow> 'p \<Rightarrow> 'p hashtable \<times> bool" where
  "hash_insert_call a h k p = map_prod id (\<lambda>r. r \<noteq> None) (kv_hash_insert a h k p)"

definition hash_remove_call :: "'p hashtable \<Rightarrow> bytes \<Rightarrow> 'p hashtable \<times> bool" where
  "hash_remove_call h k = map_prod id (\<lambda>r. r \<noteq> None) (kv_hash_remove h k)"

definition hash_maintain_state :: "'p hashtable \<Rightarrow> nat \<Rightarrow> 'p hashtable" where
  "hash_maintain_state h n = fst (kv_hash_rehash_step h n)"

abbreviation hash_run :: "'p dict_op list \<Rightarrow> 'p hashtable \<Rightarrow> 'p hashtable \<times> bool list" where
  "hash_run \<equiv> dict_run hash_insert_call kv_hash_node_set_payload hash_remove_call hash_maintain_state"

text \<open>When an insertion expands the table, and when it succeeds.\<close>

definition expands :: "'p hashtable \<Rightarrow> bool" where
  "expands h \<longleftrightarrow> \<not> kv_hash_is_rehashing h \<and> slots (table0 h) - slots (table0 h) div 4 < kv_hash_count h + 1"

lemma kv_hash_insert_iff:
  assumes inv: "hash_inv h" and i: "kv_hash_insert alloc h k p = (h', r)"
  shows "r \<noteq> None \<longleftrightarrow> hash_map h k = None \<and> node_fits alloc k
    \<and> (expands h \<longrightarrow> buckets_allocated alloc \<and> slots (table0 h) * 2 \<le> SIZE_MAX div sizeof_pointer)"
proof -
  have f: "hash_map h k = None \<longleftrightarrow> kv_hash_find h k = None" using kv_hash_find_map [OF inv, of k] by (metis option.map_disc_iff)
  have e: "maybe_expand b h \<noteq> None \<longleftrightarrow> (expands h \<longrightarrow> b \<and> slots (table0 h) * 2 \<le> SIZE_MAX div sizeof_pointer)" for b
    using inv by (auto simp: maybe_expand_def start_expand_def table_allocate_def expands_def Let_def kv_hash_count_def
        hash_inv_def sizeof_pointer_def SIZE_MAX_def)
  have l: "\<not> (length k = SIZE_MAX \<or> sizeof_kv_hash_node > SIZE_MAX - length k - 1) \<longleftrightarrow> length k + sizeof_kv_hash_node < SIZE_MAX"
    by (auto simp: sizeof_kv_hash_node_def SIZE_MAX_def)
  show ?thesis
    using i f e [of "buckets_allocated alloc"] l
    by (auto simp: kv_hash_insert_def kv_hash_find_def node_fits_def Let_def split: option.splits if_splits)
qed

text \<open>The sizes of the bucket arrays against the number of entries.\<close>

definition hash_room :: "nat \<Rightarrow> 'p hashtable \<Rightarrow> bool" where
  "hash_room n h \<longleftrightarrow> slots (table0 h) * 2 \<le> SIZE_MAX div sizeof_pointer \<and> slots (table1 h) * 2 \<le> SIZE_MAX div sizeof_pointer
     \<and> 8 * (hash_count h + n) \<le> SIZE_MAX div sizeof_pointer"

lemma insert_sizes:
  assumes "kv_hash_insert a h k p = (h', r)"
  shows "slots (table0 h') = slots (table0 h)" "hash_count h' = hash_count h + (if r = None then 0 else 1)"
    "slots (table1 h') = slots (table1 h) \<or> expands h \<and> slots (table1 h') = slots (table0 h) * 2"
  using assms by (auto simp: kv_hash_insert_def maybe_expand_def start_expand_def table_allocate_def expands_def
      kv_hash_count_def push_node_def Let_def split: if_splits option.splits)

lemma set_payload_absent: "k \<notin> node_key ` set (nodes h) \<Longrightarrow> kv_hash_node_set_payload h k p = h"
proof -
  assume k: "k \<notin> node_key ` set (nodes h)"
  have "set_payload_table k p t = t" if "set (concat t) \<subseteq> set (nodes h)" for t
    unfolding set_payload_table_def using that k by (intro map_idI map_idI) auto
  then show ?thesis by (simp add: kv_hash_node_set_payload_def nodes_def)
qed

lemma remove_sizes:
  assumes "kv_hash_remove h k = (h', r)"
  shows "slots (table0 h') = slots (table0 h)" "slots (table1 h') = slots (table1 h)" "hash_count h' \<le> hash_count h"
  using assms by (auto simp: kv_hash_remove_def remove_target_def unlink_in_table_def Let_def split: option.splits prod.splits if_splits)

lemma foldl_push_slots [simp]: "slots (foldl push_node t ns) = slots t"
  by (induction ns arbitrary: t) (simp_all add: push_node_def Let_def)

lemma rehash_loop_slots:
  "rehash_loop t0 t1 index b e moved = (t0', t1', index', moved') \<Longrightarrow> slots t0' = slots t0 \<and> slots t1' = slots t1"
proof (induction t0 t1 index b e moved rule: rehash_loop.induct)
  case (1 t0 t1 index b e moved)
  show ?case
  proof (cases "b > 0 \<and> index < slots t0")
    case False
    with "1.prems" show ?thesis by (auto simp: rehash_loop.simps [of t0 t1])
  next
    case True
    with "1.IH" "1.prems" show ?thesis by (cases "t0 ! index = [] \<and> e > 0") (auto simp: rehash_loop.simps [of t0 t1 index b])
  qed
qed

lemma rehash_sizes:
  assumes "kv_hash_rehash_step h n = (h', r)"
  shows "slots (table0 h') \<in> {slots (table0 h), slots (table1 h)}" "slots (table1 h') \<in> {slots (table1 h), 0}" "hash_count h' = hash_count h"
  using assms by (auto simp: kv_hash_rehash_step_def Let_def dest: rehash_loop_slots split: option.splits prod.splits if_splits)

lemma call_room:
  fixes h :: "'p hashtable"
  assumes "hash_inv h" "hash_room (Suc n) h"
    and c: "dict_call hash_insert_call kv_hash_node_set_payload hash_remove_call hash_maintain_state call h = (h', r)"
  shows "hash_room n h'"
proof (cases call)
  case (Dict_insert a k p)
  then obtain q where i: "kv_hash_insert a h k p = (h', q)" using c by (auto simp: hash_insert_call_def map_prod_def split: prod.splits)
  have "slots (table0 h) * 4 \<le> SIZE_MAX div sizeof_pointer" if "expands h"
    using that assms(2) by (auto simp: expands_def hash_room_def kv_hash_count_def)
  with insert_sizes [OF i] assms(2) show ?thesis by (auto simp: hash_room_def)
next
  case (Dict_update k p)
  then show ?thesis using c assms(2) by (auto simp: hash_room_def kv_hash_node_set_payload_def set_payload_table_def)
next
  case (Dict_remove k)
  then obtain q where "kv_hash_remove h k = (h', q)" using c by (auto simp: hash_remove_call_def map_prod_def split: prod.splits)
  from remove_sizes [OF this] assms(2) show ?thesis by (auto simp: hash_room_def)
next
  case (Dict_maintain m)
  obtain q where "kv_hash_rehash_step h m = (h', q)" using c Dict_maintain by (cases "kv_hash_rehash_step h m") (auto simp: hash_maintain_state_def)
  from rehash_sizes [OF this] assms(2) show ?thesis by (auto simp: hash_room_def)
qed

interpretation kv_hash: dictionary hash_inv hash_room hash_map hash_insert_call kv_hash_node_set_payload
  hash_remove_call hash_maintain_state
proof
  fix h h' :: "'p hashtable" and a k p r
  assume inv: "hash_inv h" and c: "hash_insert_call a h k p = (h', r)"
  obtain q where i: "kv_hash_insert a h k p = (h', q)" "r = (q \<noteq> None)"
    using c by (auto simp: hash_insert_call_def map_prod_def split: prod.splits)
  from kv_hash_insert_ok [OF inv i(1)] kv_hash_insert_iff [OF inv i(1)] i(2)
  show "hash_inv h' \<and> (if r then hash_map h k = None \<and> node_fits a k \<and> hash_map h' = (hash_map h)(k \<mapsto> p)
      else hash_map h' = hash_map h)" by (auto split: option.splits)
next
  fix h :: "'p hashtable" and n k a p
  assume inv: "hash_inv h" "hash_room (Suc n) h" "hash_map h k = None" "plenty a k"
  obtain h' q where i: "kv_hash_insert a h k p = (h', q)" by fastforce
  from kv_hash_insert_iff [OF inv(1) i] inv(2-) i show "snd (hash_insert_call a h k p)"
    by (auto simp: hash_insert_call_def plenty_def hash_room_def)
next
  fix h :: "'p hashtable" and k p
  assume inv: "hash_inv h"
  show "hash_map h k \<noteq> None \<Longrightarrow> hash_inv (kv_hash_node_set_payload h k p) \<and>
      hash_map (kv_hash_node_set_payload h k p) = (hash_map h)(k \<mapsto> p)"
    using kv_hash_node_set_payload_ok [OF inv, of k p] by blast
  show "hash_map h k = None \<Longrightarrow> hash_inv (kv_hash_node_set_payload h k p) \<and>
      hash_map (kv_hash_node_set_payload h k p) = hash_map h"
    using set_payload_absent [of k h p] inv by (simp add: hash_map_eq_None_iff)
next
  fix h h' :: "'p hashtable" and k r
  assume inv: "hash_inv h" and c: "hash_remove_call h k = (h', r)"
  obtain q where "kv_hash_remove h k = (h', q)" "r = (q \<noteq> None)"
    using c by (auto simp: hash_remove_call_def map_prod_def split: prod.splits)
  with kv_hash_remove_ok [OF inv this(1)]
  show "hash_inv h' \<and> r = (hash_map h k \<noteq> None) \<and> hash_map h' = (hash_map h)(k := None)" by simp
next
  fix h :: "'p hashtable" and n
  assume inv: "hash_inv h"
  obtain h' r where "kv_hash_rehash_step h n = (h', r)" by fastforce
  from kv_hash_rehash_step_ok [OF inv this] this
  show "hash_inv (hash_maintain_state h n) \<and> hash_map (hash_maintain_state h n) = hash_map h"
    by (simp add: hash_maintain_state_def)
qed (rule call_room)

lemma kv_hash_create_some: "\<exists>h. kv_hash_create True True = Some (h :: 'p hashtable)"
  by (simp add: kv_hash_create_def hash_init_def table_allocate_def HASH_INITIAL_SLOTS_def
      SIZE_MAX_def sizeof_pointer_def)

subsection \<open>Properties\<close>

lemma fresh_room:
  assumes "kv_hash_create True True = Some h" "n < 2 ^ 57"
  shows "hash_room n h"
  using assms by (auto simp: kv_hash_create_def hash_init_def table_allocate_def hash_room_def HASH_INITIAL_SLOTS_def
      SIZE_MAX_def sizeof_pointer_def)

text \<open>
  C9. The hash table refines a finite map: after any sequence of fewer than \<open>2 ^ 57\<close> insertions (with
  any answers of the allocator), payload updates, removals and rehashing steps on a fresh table, the
  invariant holds and \<open>kv_hash_find\<close> answers every key as the map does that the calls and their answers
  determine.  The answers are right: an insertion is refused only if the key is there or memory was
  refused, it is accepted only for a new key, and a removal reports whether the key was there.
\<close>

theorem hash_refines_map:
  assumes "kv_hash_create True True = Some h0" "length calls < 2 ^ 57" "hash_run calls h0 = (h, answers)"
  shows "\<exists>m. map_steps calls answers Map.empty m \<and> hash_inv h \<and> (\<forall>k. map_option payload (kv_hash_find h k) = m k)"
proof -
  from kv_hash_create_ok [OF assms(1)] have h0: "hash_inv h0" "hash_map h0 = Map.empty" by auto
  have "hash_room (length calls) h0" by (rule fresh_room [OF assms(1,2)])
  from kv_hash.run_refines [OF h0(1) this assms(3)] h0(2) kv_hash_find_map [of h] show ?thesis by metis
qed

theorem hash_refines_map_witness:
  "\<exists>h0 h. kv_hash_create True True = Some h0
     \<and> hash_run [Dict_insert \<lparr>buckets_allocated = True, node_allocated = True\<rparr> [1] (7::nat), Dict_remove [2]] h0 = (h, [True, False])
     \<and> map_option payload (kv_hash_find h [1]) = Some 7"
proof -
  let ?a = "\<lparr>buckets_allocated = True, node_allocated = True\<rparr>"
  obtain h0 :: "nat hashtable" where h0: "kv_hash_create True True = Some h0"
    using kv_hash_create_some by blast
  obtain h rs where run: "hash_run [Dict_insert ?a [1] 7, Dict_remove [2]] h0 = (h, rs)" by fastforce
  obtain m where m: "map_steps [Dict_insert ?a [1] 7, Dict_remove [2]] rs Map.empty m"
    "\<forall>k. map_option payload (kv_hash_find h k) = m k" using hash_refines_map [OF h0 _ run] by auto
  have "plenty ?a [1]" by (simp add: plenty_def node_fits_def sizeof_kv_hash_node_def SIZE_MAX_def)
  with m(1) have "rs = [True, False] \<and> m [1] = Some 7"
    by (auto elim!: map_steps_consE map_steps_nilE map_step_insertE map_step_removeE)
  then have "rs = [True, False]" "map_option payload (kv_hash_find h [1]) = Some 7" using m(2) by simp_all
  with h0 run show ?thesis by blast
qed

text \<open>
  C15. Insertion: it succeeds exactly for an absent key for whose node there is memory and whose size
  is representable, provided that, when the table is due to be expanded, there is memory for the doubled
  bucket array and its size is representable; then the new key maps to the payload and every other key
  is untouched.  On failure no mapping changes, even when an expansion was started.
\<close>

theorem hash_insert_exact:
  assumes "hash_inv h" "kv_hash_insert alloc h k p = (h', r)"
  shows "hash_inv h'
    \<and> (r = None \<longrightarrow> hash_map h' = hash_map h \<and> kv_hash_count h' = kv_hash_count h)
    \<and> (r \<noteq> None \<longrightarrow> hash_map h' = (hash_map h)(k \<mapsto> p) \<and> kv_hash_count h' = kv_hash_count h + 1)
    \<and> (r \<noteq> None \<longleftrightarrow> hash_map h k = None \<and> node_allocated alloc \<and> length k + sizeof_kv_hash_node < SIZE_MAX
        \<and> (\<not> kv_hash_is_rehashing h \<and> slots (table0 h) - slots (table0 h) div 4 < kv_hash_count h + 1 \<longrightarrow>
             buckets_allocated alloc \<and> slots (table0 h) * 2 \<le> SIZE_MAX div sizeof_pointer))"
proof -
  note ok = kv_hash_insert_ok [OF assms] and iff = kv_hash_insert_iff [OF assms]
  from ok iff insert_sizes(2) [OF assms(2)] show ?thesis unfolding node_fits_def expands_def
    by (auto simp: kv_hash_count_def split: option.splits)
qed

theorem hash_insert_exact_witness:
  "\<exists>h h' r. kv_hash_create True True = Some h \<and>
     kv_hash_insert \<lparr>buckets_allocated = True, node_allocated = True\<rparr> h [1,2] (7::nat) = (h', r) \<and>
     hash_map h' [1,2] = Some 7 \<and> kv_hash_count h' = 1"
proof -
  obtain h :: "nat hashtable" where h: "kv_hash_create True True = Some h"
    using kv_hash_create_some by blast
  note hok = kv_hash_create_ok [OF h]
  obtain h' r where i: "kv_hash_insert \<lparr>buckets_allocated = True, node_allocated = True\<rparr> h [1,2] (7::nat) = (h', r)"
    by fastforce
  have "slots (table0 h) = 16"
    using h by (auto simp: kv_hash_create_def hash_init_def table_allocate_def HASH_INITIAL_SLOTS_def
        SIZE_MAX_def sizeof_pointer_def)
  then have "hash_map h' [1,2] = Some 7 \<and> kv_hash_count h' = 1"
    using hash_insert_exact [OF _ i] hok
    by (simp add: SIZE_MAX_def sizeof_pointer_def sizeof_kv_hash_node_def kv_hash_count_def)
  with h i show ?thesis by blast
qed

text \<open>
  C19. Load factor: when an insertion succeeds and no rehash is in progress afterwards, at most
  three quarters of the slots (rounded up) are counted, so the next expansion was not missed.
\<close>

theorem hash_load_factor:
  assumes "kv_hash_insert alloc h k p = (h', Some node)" "\<not> kv_hash_is_rehashing h'"
  shows "kv_hash_count h' \<le> slots (table0 h') - slots (table0 h') div 4"
  using assms
  by (auto simp: kv_hash_insert_def kv_hash_count_def maybe_expand_def start_expand_def
      kv_hash_is_rehashing_def Let_def split: if_splits option.splits)

theorem hash_load_factor_witness:
  "\<exists>h' node. kv_hash_insert \<lparr>buckets_allocated = True, node_allocated = True\<rparr>
     \<lparr>table0 = [[],[]], table1 = [], hash_count = 0, rehash_index = None\<rparr> [] (7::nat) = (h', Some node)
   \<and> kv_hash_count h' \<le> slots (table0 h') - slots (table0 h') div 4"
proof -
  let ?h = "\<lparr>table0 = [[],[]], table1 = [], hash_count = 0, rehash_index = None\<rparr> :: nat hashtable"
  have ok: "table_ok [[], [] :: nat kv_hash_node list]"
    by (auto simp: table_ok_def SIZE_MAX_def sizeof_pointer_def less_Suc_eq nth_Cons')
  from table_bucket_less [OF ok, of "hash_bytes []"]
  have "[[], [] :: nat kv_hash_node list] ! bucket_index (hash_bytes []) 2 = []"
    by (auto simp: less_Suc_eq numeral_2_eq_2 nth_Cons')
  then obtain h' node where i: "kv_hash_insert \<lparr>buckets_allocated = True, node_allocated = True\<rparr> ?h [] 7 = (h', Some node)"
      and n: "\<not> kv_hash_is_rehashing h'"
    by (auto simp: kv_hash_insert_def find_in_table_def maybe_expand_def kv_hash_is_rehashing_def
        SIZE_MAX_def sizeof_kv_hash_node_def Let_def numeral_2_eq_2)
  from hash_load_factor [OF i n] i show ?thesis by blast
qed

text \<open>
  C16. A rehashing step with budget \<open>b\<close> keeps the invariant, the number of entries and every
  mapping; it moves at most \<open>b\<close> non-empty buckets, visits at most \<open>11 b\<close> buckets, and unless it
  finishes the migration it advances by at least \<open>b\<close> buckets.
\<close>

theorem hash_rehash_step:
  assumes "hash_inv h" "rehash_index h = Some i" "kv_hash_rehash_step h b = (h', moved)"
  shows "hash_inv h' \<and> hash_map h' = hash_map h \<and> kv_hash_count h' = kv_hash_count h \<and> moved \<le> b
    \<and> (case rehash_index h' of
         None \<Rightarrow> slots (table0 h') = slots (table1 h)
       | Some i' \<Rightarrow> i + b \<le> i' \<and> (b \<le> SIZE_MAX div 10 \<longrightarrow> i' \<le> i + 11 * b)
           \<and> slots (table0 h') = slots (table0 h))"
  using kv_hash_rehash_step_ok [OF assms(1,3)] kv_hash_rehash_step_progress [OF assms]
  by (simp add: kv_hash_count_def)

theorem hash_rehash_step_witness:
  "\<exists>h' moved. kv_hash_rehash_step
      \<lparr>table0 = [[],[]], table1 = [[],[],[],[]], hash_count = 0, rehash_index = Some 0\<rparr> 1
      = (h' :: nat hashtable, moved) \<and> moved \<le> 1 \<and> hash_map h' = Map.empty"
proof -
  let ?h = "\<lparr>table0 = [[],[]], table1 = [[],[],[],[]], hash_count = 0, rehash_index = Some 0\<rparr> :: nat hashtable"
  have inv: "hash_inv ?h"
    by (auto simp: hash_inv_def table_ok_def rehash_ok_def nodes_def SIZE_MAX_def sizeof_pointer_def
        less_Suc_eq nth_Cons')
  obtain h' moved where r: "kv_hash_rehash_step ?h 1 = (h', moved)" by fastforce
  from hash_rehash_step [OF inv _ r, of 0] r show ?thesis
    by (auto simp: hash_map_def nodes_def)
qed

text \<open>
  C17. Incremental rehashing terminates: after at most as many steps as the old table has slots,
  with any positive budget, no rehash is in progress.
\<close>

theorem hash_rehash_terminates:
  assumes "hash_inv h" "0 < b" "slots (table0 h) \<le> n"
  shows "\<not> kv_hash_is_rehashing (((\<lambda>h. fst (kv_hash_rehash_step h b)) ^^ n) h)"
proof -
  have "(case rehash_index h of None \<Rightarrow> 0 | Some i \<Rightarrow> slots (table0 h) - i) \<le> n"
    using assms(3) by (auto split: option.splits)
  from rehash_terminates [OF assms(1,2) this] show ?thesis
    by (simp add: rehash_step_state_def [abs_def])
qed

theorem hash_rehash_terminates_witness:
  "\<not> kv_hash_is_rehashing (((\<lambda>h. fst (kv_hash_rehash_step h 1)) ^^ 2)
     (\<lparr>table0 = [[],[]], table1 = [[],[],[],[]], hash_count = 0, rehash_index = Some 0\<rparr> :: nat hashtable))"
  by (rule hash_rehash_terminates)
    (auto simp: hash_inv_def table_ok_def rehash_ok_def nodes_def SIZE_MAX_def sizeof_pointer_def
      less_Suc_eq nth_Cons')

text \<open>
  C18. Iterating over a table, in the middle of a rehash or not, returns every entry exactly
  once: the keys returned are distinct, they are the keys of the map, each with its payload, and
  their number is the table's count.
\<close>

theorem hash_iterator_complete:
  assumes "hash_inv h" "ns = iterator_collect h kv_hash_iterator_begin"
  shows "distinct (map node_key ns) \<and> length ns = kv_hash_count h
    \<and> (\<forall>k p. hash_map h k = Some p \<longleftrightarrow> (k, p) \<in> (\<lambda>n. (node_key n, payload n)) ` set ns)"
proof -
  have ns: "ns = nodes h" by (simp add: assms(2) iterator_collect_begin)
  have d: "distinct (map node_key (nodes h))" using assms(1) by (simp add: hash_inv_def)
  with assms(1) hash_map_eq_Some_iff [OF d] show ?thesis
    by (auto simp: ns hash_inv_def kv_hash_count_def)
qed

theorem hash_iterator_complete_witness:
  "\<exists>h. kv_hash_create True True = Some h \<and>
     (\<forall>k p. hash_map (hash_insert_state \<lparr>buckets_allocated = True, node_allocated = True\<rparr> h [1] (7::nat)) k = Some p
       \<longleftrightarrow> (k, p) \<in> (\<lambda>n. (node_key n, payload n)) ` set (iterator_collect
          (hash_insert_state \<lparr>buckets_allocated = True, node_allocated = True\<rparr> h [1] 7) kv_hash_iterator_begin))"
proof -
  obtain h :: "nat hashtable" where h: "kv_hash_create True True = Some h"
    using kv_hash_create_some by blast
  with kv_hash_insert_ok [of h "\<lparr>buckets_allocated = True, node_allocated = True\<rparr>" "[1]" 7]
  have "hash_inv (hash_insert_state \<lparr>buckets_allocated = True, node_allocated = True\<rparr> h [1] 7)"
    using kv_hash_create_ok unfolding hash_insert_state_def by (metis prod.collapse)
  from hash_iterator_complete [OF this refl] h show ?thesis by blast
qed

end
