(* ===== verification/Object.thy ===== *)
theory Object
  imports HashTable
begin

text \<open>
  Typed values (\<open>src/src/engine/object.c\<close>): strings and hashes, with the memory accounting
  the cache charges.  A sorted set is its member table and an ordered index; the two engines of
  the index are the type parameter \<open>'o\<close>, and \<open>'m\<close> is what the member table stores.
  Sizes of C structures are those of the LP64 ABI.
\<close>

subsection \<open>Data\<close>

text \<open>\<open>length\<close> of the structure is the length of \<open>hv_data\<close>.\<close>

record hash_value =
  hv_data :: bytes
  hv_capacity :: nat

record ('m, 'o) zset =
  members :: "'m hashtable"
  order :: 'o

datatype ('m, 'o) kv_value =
    KV_OBJECT_STRING bytes nat
  | KV_OBJECT_HASH "hash_value hashtable"
  | KV_OBJECT_ZSET "('m, 'o) zset"

record ('m, 'o) kv_object =
  object_value :: "('m, 'o) kv_value"
  memory_usage :: u64

datatype kv_object_type = STRING_TYPE | HASH_TYPE | ZSET_TYPE

definition sizeof_kv_object :: nat where "sizeof_kv_object = 40"
definition sizeof_hash_value :: nat where "sizeof_hash_value = 16"

subsection \<open>Operations\<close>

definition hash_value_create :: "bool \<Rightarrow> bytes \<Rightarrow> hash_value option" where
  "hash_value_create allocated v =
     (if length v = SIZE_MAX \<or> sizeof_hash_value > SIZE_MAX - length v - 1 then None
      else if \<not> allocated then None
      else Some \<lparr>hv_data = v, hv_capacity = length v\<rparr>)"

definition kv_object_create_string :: "bool \<Rightarrow> bytes \<Rightarrow> ('m, 'o) kv_object option" where
  "kv_object_create_string allocated v =
     (if length v = SIZE_MAX \<or> sizeof_kv_object > SIZE_MAX - length v - 1 then None
      else if \<not> allocated then None
      else Some \<lparr>object_value = KV_OBJECT_STRING v (length v),
                 memory_usage = of_nat (sizeof_kv_object + length v + 1)\<rparr>)"

text \<open>The flags answer for the object, the table structure and its buckets.\<close>

definition kv_object_create_hash :: "bool \<Rightarrow> bool \<Rightarrow> bool \<Rightarrow> ('m, 'o) kv_object option" where
  "kv_object_create_hash allocated table_allocated allocated_buckets =
     (if \<not> allocated then None
      else case kv_hash_create table_allocated allocated_buckets of
        None \<Rightarrow> None
      | Some t \<Rightarrow> Some \<lparr>object_value = KV_OBJECT_HASH t,
                        memory_usage = of_nat sizeof_kv_object + kv_hash_index_memory t\<rparr>)"

definition kv_object_type :: "('m, 'o) kv_object \<Rightarrow> kv_object_type" where
  "kv_object_type obj = (case object_value obj of
     KV_OBJECT_STRING _ _ \<Rightarrow> STRING_TYPE | KV_OBJECT_HASH _ \<Rightarrow> HASH_TYPE | KV_OBJECT_ZSET _ \<Rightarrow> ZSET_TYPE)"

definition kv_object_memory_usage :: "('m, 'o) kv_object \<Rightarrow> u64" where
  "kv_object_memory_usage obj = memory_usage obj"

definition kv_object_string_value :: "('m, 'o) kv_object \<Rightarrow> bytes option" where
  "kv_object_string_value obj = (case object_value obj of
     KV_OBJECT_STRING v _ \<Rightarrow> Some v | _ \<Rightarrow> None)"

text \<open>The return values -1, 0 (no room) and 1 (updated in place).\<close>

definition kv_object_string_update :: "('m, 'o) kv_object \<Rightarrow> bytes \<Rightarrow> ('m, 'o) kv_object \<times> int" where
  "kv_object_string_update obj v = (case object_value obj of
     KV_OBJECT_STRING old cap \<Rightarrow>
       if length v > cap then (obj, 0)
       else (obj\<lparr>object_value := KV_OBJECT_STRING v cap\<rparr>, 1)
   | _ \<Rightarrow> (obj, - 1))"

text \<open>\<open>None\<close> is -1; otherwise the flags \<open>added\<close> and \<open>changed\<close>.\<close>

definition kv_object_hash_set ::
  "bool \<Rightarrow> hash_alloc \<Rightarrow> ('m, 'o) kv_object \<Rightarrow> bytes \<Rightarrow> bytes
     \<Rightarrow> ('m, 'o) kv_object \<times> (bool \<times> bool) option" where
  "kv_object_hash_set value_allocated alloc obj field v = (case object_value obj of
     KV_OBJECT_HASH t \<Rightarrow>
       let t = fst (kv_hash_rehash_step t 1);
           obj = obj\<lparr>object_value := KV_OBJECT_HASH t\<rparr> in
       (case kv_hash_find t field of
          Some node \<Rightarrow>
            let old = payload node in
            if length (hv_data old) = length v \<and> hv_data old = v then (obj, Some (False, False))
            else if length v \<le> hv_capacity old then
              (obj\<lparr>object_value := KV_OBJECT_HASH
                 (kv_hash_node_set_payload t field (old\<lparr>hv_data := v\<rparr>))\<rparr>, Some (False, True))
            else (case hash_value_create value_allocated v of
              None \<Rightarrow> (obj, None)
            | Some replacement \<Rightarrow>
                (obj\<lparr>object_value := KV_OBJECT_HASH (kv_hash_node_set_payload t field replacement),
                   memory_usage := memory_usage obj - of_nat (hv_capacity old) - 1
                     + of_nat (hv_capacity replacement) + 1\<rparr>, Some (False, True)))
        | None \<Rightarrow>
            (case hash_value_create value_allocated v of
              None \<Rightarrow> (obj, None)
            | Some replacement \<Rightarrow>
                let old_index = kv_hash_index_memory t in
                case kv_hash_insert alloc t field replacement of
                  (t', None) \<Rightarrow> (obj\<lparr>object_value := KV_OBJECT_HASH t'\<rparr>, None)
                | (t', Some node) \<Rightarrow>
                    (obj\<lparr>object_value := KV_OBJECT_HASH t',
                       memory_usage := memory_usage obj + (kv_hash_index_memory t' - old_index
                         + kv_hash_node_memory_for_key (length field) + of_nat sizeof_hash_value
                         + of_nat (hv_capacity replacement) + 1)\<rparr>, Some (True, True))))
   | _ \<Rightarrow> (obj, None))"

definition kv_object_hash_get :: "('m, 'o) kv_object \<Rightarrow> bytes \<Rightarrow> ('m, 'o) kv_object \<times> bytes option" where
  "kv_object_hash_get obj field = (case object_value obj of
     KV_OBJECT_HASH t \<Rightarrow>
       let t = fst (kv_hash_rehash_step t 1) in
       (obj\<lparr>object_value := KV_OBJECT_HASH t\<rparr>,
        case kv_hash_find t field of None \<Rightarrow> None | Some node \<Rightarrow> Some (hv_data (payload node)))
   | _ \<Rightarrow> (obj, None))"

text \<open>The return values -1, 0 (absent) and 1 (removed).\<close>

definition kv_object_hash_delete :: "('m, 'o) kv_object \<Rightarrow> bytes \<Rightarrow> ('m, 'o) kv_object \<times> int" where
  "kv_object_hash_delete obj field = (case object_value obj of
     KV_OBJECT_HASH t \<Rightarrow>
       (case kv_hash_find t field of
          None \<Rightarrow> (obj, 0)
        | Some node \<Rightarrow>
            let charge = kv_hash_node_memory_for_key (length field) + of_nat sizeof_hash_value
                  + of_nat (hv_capacity (payload node)) + 1;
                t' = fst (kv_hash_remove_node t node) in
            (obj\<lparr>object_value := KV_OBJECT_HASH t', memory_usage := memory_usage obj - charge\<rparr>, 1))
   | _ \<Rightarrow> (obj, - 1))"

definition kv_object_hash_length :: "('m, 'o) kv_object \<Rightarrow> nat" where
  "kv_object_hash_length obj = (case object_value obj of KV_OBJECT_HASH t \<Rightarrow> kv_hash_count t | _ \<Rightarrow> 0)"

definition kv_object_zset_length :: "('m, 'o) kv_object \<Rightarrow> nat" where
  "kv_object_zset_length obj =
     (case object_value obj of KV_OBJECT_ZSET z \<Rightarrow> kv_hash_count (members z) | _ \<Rightarrow> 0)"

text \<open>
  The visit loop: the callback gets a field, a value and the caller's context, and a stop flag
  (its non-zero return value) ends the loop with -1, here \<open>None\<close>.
\<close>

fun visit_nodes ::
  "('p kv_hash_node \<Rightarrow> 'c \<Rightarrow> 'c \<times> bool) \<Rightarrow> 'p kv_hash_node list \<Rightarrow> 'c \<Rightarrow> 'c \<times> bool" where
  "visit_nodes callback [] c = (c, True)"
| "visit_nodes callback (node # ns) c =
     (case callback node c of
        (c', True) \<Rightarrow> (c', False)
      | (c', False) \<Rightarrow> visit_nodes callback ns c')"

definition kv_object_hash_visit ::
  "('m, 'o) kv_object \<Rightarrow> (bytes \<Rightarrow> bytes \<Rightarrow> 'c \<Rightarrow> 'c \<times> bool) \<Rightarrow> 'c \<Rightarrow> ('c \<times> bool) option" where
  "kv_object_hash_visit obj callback c = (case object_value obj of
     KV_OBJECT_HASH t \<Rightarrow>
       Some (visit_nodes (\<lambda>node. callback (node_key node) (hv_data (payload node)))
         (iterator_collect t kv_hash_iterator_begin) c)
   | _ \<Rightarrow> None)"

subsection \<open>Hash objects\<close>

definition object_fields :: "('m, 'o) kv_object \<Rightarrow> bytes \<Rightarrow> bytes option" where
  "object_fields obj k = (case object_value obj of
     KV_OBJECT_HASH t \<Rightarrow> map_option hv_data (hash_map t k) | _ \<Rightarrow> None)"

definition hash_object_inv :: "('m, 'o) kv_object \<Rightarrow> bool" where
  "hash_object_inv obj \<longleftrightarrow> (case object_value obj of
     KV_OBJECT_HASH t \<Rightarrow> hash_inv t \<and> (\<forall>k v. hash_map t k = Some v \<longrightarrow> length (hv_data v) \<le> hv_capacity v)
   | _ \<Rightarrow> False)"

text \<open>What one field is charged, and what a table with its fields occupies.\<close>

definition field_charge :: "hash_value kv_hash_node \<Rightarrow> u64" where
  "field_charge node = kv_hash_node_memory_for_key (length (node_key node)) + of_nat sizeof_hash_value
     + of_nat (hv_capacity (payload node)) + 1"

definition hash_occupied :: "hash_value hashtable \<Rightarrow> u64" where
  "hash_occupied t = of_nat sizeof_kv_object + kv_hash_index_memory t
     + sum_mset (image_mset field_charge (mset (nodes t)))"

text \<open>The accounting error left by bucket arrays that a finished rehash has freed.\<close>

definition freed_buckets :: "hash_value hashtable \<Rightarrow> u64" where
  "freed_buckets t = of_nat sizeof_pointer * (of_nat (slots (table0 t)) - of_nat HASH_INITIAL_SLOTS)"

definition hash_charged :: "('m, 'o) kv_object \<Rightarrow> bool" where
  "hash_charged obj \<longleftrightarrow> (case object_value obj of
     KV_OBJECT_HASH t \<Rightarrow> memory_usage obj = hash_occupied t + freed_buckets t | _ \<Rightarrow> False)"

lemma hash_value_create_Some:
  "hash_value_create a v = Some r \<Longrightarrow> hv_data r = v \<and> hv_capacity r = length v"
  by (auto simp: hash_value_create_def split: if_splits)

lemma map_option_upd: "(\<lambda>x. map_option f ((m(k \<mapsto> v)) x)) = (\<lambda>x. map_option f (m x))(k \<mapsto> f v)"
  by (auto simp: fun_eq_iff)

text \<open>The rehash step every access performs.\<close>

lemma rehash_step_charge:
  assumes inv: "hash_inv t" and r: "kv_hash_rehash_step t b = (t', m)"
  shows "hash_occupied t' + freed_buckets t' = hash_occupied t + freed_buckets t"
proof (cases "rehash_index t")
  case None
  with r show ?thesis by (simp add: kv_hash_rehash_step_def)
next
  case (Some i)
  have m: "mset (nodes t') = mset (nodes t)" using kv_hash_rehash_step_ok [OF assms] by blast
  have t1: "slots (table1 t) = 2 * slots (table0 t)"
    using inv Some by (simp add: hash_inv_def rehash_ok_def)
  have inv': "hash_inv t'" using kv_hash_rehash_step_ok [OF assms] by blast
  note p = kv_hash_rehash_step_progress [OF inv Some r]
  show ?thesis
  proof (cases "rehash_index t'")
    case None
    then have "table1 t' = []" using inv' by (simp add: hash_inv_def rehash_ok_def)
    with None p t1 m show ?thesis
      by (simp add: hash_occupied_def freed_buckets_def kv_hash_index_memory_def algebra_simps)
  next
    case i': (Some i')
    then have "slots (table1 t') = 2 * slots (table0 t')" using inv' by (simp add: hash_inv_def rehash_ok_def)
    with i' p t1 m show ?thesis
      by (simp add: hash_occupied_def freed_buckets_def kv_hash_index_memory_def)
  qed
qed

lemma sum_set_payload:
  "distinct (map node_key ns) \<Longrightarrow> node \<in> set ns \<Longrightarrow>
     sum_list (map f (map (\<lambda>n. if node_key n = node_key node then n\<lparr>payload := p\<rparr> else n) ns))
     = sum_list (map f ns) - f node + (f (node\<lparr>payload := p\<rparr>) :: u64)"
proof (induction ns)
  case Nil
  then show ?case by simp
next
  case (Cons n ns)
  show ?case
  proof (cases "n = node")
    case True
    have "node_key n \<notin> node_key ` set ns" using Cons.prems(1) by simp
    with True have "\<forall>x \<in> set ns. node_key x \<noteq> node_key node" by (metis image_eqI)
    then have "map (\<lambda>n. if node_key n = node_key node then n\<lparr>payload := p\<rparr> else n) ns = ns"
      by (intro map_idI) auto
    with True show ?thesis by (simp add: algebra_simps del: map_map)
  next
    case False
    with Cons.prems have "node \<in> set ns" "node_key n \<noteq> node_key node" by auto
    with Cons.IH Cons.prems show ?thesis by (simp add: algebra_simps del: map_map)
  qed
qed

lemma set_payload_charge:
  assumes inv: "hash_inv t" and f: "kv_hash_find t k = Some node"
  shows "hash_occupied (kv_hash_node_set_payload t k p) + freed_buckets (kv_hash_node_set_payload t k p)
    = hash_occupied t + freed_buckets t - of_nat (hv_capacity (payload node)) + of_nat (hv_capacity p)"
proof -
  note n = kv_hash_find_Some [OF inv f]
  have "distinct (map node_key (nodes t))" using inv by (simp add: hash_inv_def)
  from sum_set_payload [OF this, of node field_charge p] n
  have "sum_list (map field_charge (nodes (kv_hash_node_set_payload t k p))) =
     sum_list (map field_charge (nodes t)) - of_nat (hv_capacity (payload node)) + of_nat (hv_capacity p)"
    by (simp add: set_payload_nodes field_charge_def algebra_simps del: map_map)
  then show ?thesis
    by (simp add: hash_occupied_def freed_buckets_def kv_hash_index_memory_def sum_mset_sum_list
        kv_hash_node_set_payload_def set_payload_table_def algebra_simps flip: mset_map)
qed

lemma insert_charge:
  assumes inv: "hash_inv t" and i: "kv_hash_insert alloc t k p = (t', Some node)"
  shows "hash_occupied t' + freed_buckets t' = hash_occupied t + freed_buckets t
    + (kv_hash_index_memory t' - kv_hash_index_memory t + field_charge node)"
proof -
  have "mset (nodes t') = add_mset node (mset (nodes t))" using kv_hash_insert_ok [OF assms] by simp
  moreover have "slots (table0 t') = slots (table0 t)"
    using i by (auto simp: kv_hash_insert_def maybe_expand_def start_expand_def Let_def
        split: if_splits option.splits)
  ultimately show ?thesis by (simp add: hash_occupied_def freed_buckets_def algebra_simps)
qed

lemma remove_charge:
  assumes inv: "hash_inv t" and f: "kv_hash_find t k = Some node"
    and r: "kv_hash_remove_node t node = (t', q)"
  shows "hash_occupied t' + freed_buckets t' = hash_occupied t + freed_buckets t - field_charge node"
proof -
  note n = kv_hash_find_Some [OF inv f]
  have d: "distinct (map node_key (nodes t))" using inv by (simp add: hash_inv_def)
  note ok = remove_target_ok [OF inv _ r [unfolded kv_hash_remove_node_def]]
  from ok n obtain ns where ns: "mset (nodes t) = mset ns + mset (nodes t')" by auto
  have lens: "slots (table0 t') = slots (table0 t)" "slots (table1 t') = slots (table1 t)"
    using r by (auto simp: kv_hash_remove_node_def remove_target_def unlink_in_table_def Let_def
        split: option.splits if_splits)
  have "hash_map t k = Some (payload node)" using hash_map_eq_Some_iff [OF d] n by auto
  with ok n have h': "hash_map t' k = None" and "hash_count t = Suc (hash_count t')" by auto
  moreover have "size (mset (nodes t)) = size (mset ns + mset (nodes t'))" by (simp only: ns)
  ultimately have "length ns = 1" using inv ok n by (simp add: hash_inv_def)
  then obtain x where x: "ns = [x]" by (cases ns) auto
  have "node \<in> set (nodes t)" using n by blast
  then have "node \<in># mset ns + mset (nodes t')" by (simp flip: ns)
  moreover have "node \<notin> set (nodes t')" using h' n by (auto simp: hash_map_eq_None_iff)
  ultimately have "node = x" using x by simp
  with ns x lens show ?thesis
    by (simp add: hash_occupied_def freed_buckets_def kv_hash_index_memory_def algebra_simps)
qed

text \<open>Shared shape of the operations: a table \<open>t\<close> after the rehash step, with the same fields.\<close>

definition caps_ok :: "(bytes \<Rightarrow> hash_value option) \<Rightarrow> bool" where
  "caps_ok m \<longleftrightarrow> (\<forall>k v. m k = Some v \<longrightarrow> length (hv_data v) \<le> hv_capacity v)"

lemma caps_ok_upd: "caps_ok m \<Longrightarrow> length (hv_data v) \<le> hv_capacity v \<Longrightarrow> caps_ok (m(k \<mapsto> v))"
  by (auto simp: caps_ok_def)

lemma caps_ok_del: "caps_ok m \<Longrightarrow> caps_ok (m(k := None))"
  by (auto simp: caps_ok_def)

lemma object_fields_hash:
  "object_value obj = KV_OBJECT_HASH t \<Longrightarrow> object_fields obj = (\<lambda>k. map_option hv_data (hash_map t k))"
  by (simp add: object_fields_def [abs_def])

lemma map_option_del: "(\<lambda>x. map_option f ((m(k := None)) x)) = (\<lambda>x. map_option f (m x))(k := None)"
  by (auto simp: fun_eq_iff)

lemma hash_object_inv_alt:
  "hash_object_inv obj \<longleftrightarrow> (\<exists>t. object_value obj = KV_OBJECT_HASH t \<and> hash_inv t \<and> caps_ok (hash_map t))"
  by (auto simp: hash_object_inv_def caps_ok_def split: kv_value.splits)

definition hash_set_post ::
  "('m, 'o) kv_object \<Rightarrow> bytes \<Rightarrow> bytes \<Rightarrow> ('m, 'o) kv_object \<Rightarrow> (bool \<times> bool) option \<Rightarrow> bool" where
  "hash_set_post obj k v obj' r \<longleftrightarrow> hash_object_inv obj'
     \<and> (case r of
          None \<Rightarrow> object_fields obj' = object_fields obj
        | Some (added, changed) \<Rightarrow> object_fields obj' = (object_fields obj)(k \<mapsto> v)
            \<and> added = (object_fields obj k = None) \<and> changed = (object_fields obj k \<noteq> Some v)
            \<and> (hash_charged obj \<longrightarrow> hash_charged obj'))"

lemma hash_set_existing:
  assumes inv: "hash_inv t" "caps_ok (hash_map t)" and f: "kv_hash_find t k = Some node"
    and p: "hv_data p = v" "length v \<le> hv_capacity p" "hv_data (payload node) \<noteq> v"
  shows "hash_set_post \<lparr>object_value = KV_OBJECT_HASH t, memory_usage = u\<rparr> k v
    \<lparr>object_value = KV_OBJECT_HASH (kv_hash_node_set_payload t k p),
      memory_usage = u - of_nat (hv_capacity (payload node)) + of_nat (hv_capacity p)\<rparr> (Some (False, True))"
proof -
  have m: "hash_map t k = Some (payload node)" using kv_hash_find_map [OF inv(1), of k] f by simp
  have "hash_map t k \<noteq> None" using m by simp
  note ok = kv_hash_node_set_payload_ok [OF inv(1) this, of p]
  show ?thesis
    using inv ok m p set_payload_charge [OF inv(1) f, of p]
    by (auto simp: hash_set_post_def hash_object_inv_alt object_fields_hash hash_charged_def
        caps_ok_upd map_option_upd simp del: fun_upd_apply)
qed

lemma hash_set_new:
  assumes inv: "hash_inv t" "caps_ok (hash_map t)" and f: "kv_hash_find t k = None"
    and i: "kv_hash_insert alloc t k \<lparr>hv_data = v, hv_capacity = length v\<rparr> = (t', r)"
  shows "hash_set_post \<lparr>object_value = KV_OBJECT_HASH t, memory_usage = u\<rparr> k v
    (case r of None \<Rightarrow> \<lparr>object_value = KV_OBJECT_HASH t', memory_usage = u\<rparr>
     | Some node \<Rightarrow> \<lparr>object_value = KV_OBJECT_HASH t',
         memory_usage = u + (kv_hash_index_memory t' - kv_hash_index_memory t
           + kv_hash_node_memory_for_key (length k) + of_nat sizeof_hash_value
           + of_nat (length v) + 1)\<rparr>)
    (case r of None \<Rightarrow> None | Some node \<Rightarrow> Some (True, True))"
proof -
  have m: "hash_map t k = None" using kv_hash_find_map [OF inv(1), of k] f by simp
  note ok = kv_hash_insert_ok [OF inv(1) i]
  show ?thesis
  proof (cases r)
    case None
    with ok inv show ?thesis
      by (simp add: hash_set_post_def hash_object_inv_alt object_fields_hash)
  next
    case (Some node)
    note charge = insert_charge [OF inv(1) i [unfolded Some]]
    have "field_charge node = kv_hash_node_memory_for_key (length k) + of_nat sizeof_hash_value
           + of_nat (length v) + 1" using ok Some by (simp add: field_charge_def)
    with charge ok inv m Some show ?thesis
      by (simp add: hash_set_post_def hash_object_inv_alt object_fields_hash hash_charged_def
          caps_ok_upd map_option_upd algebra_simps del: fun_upd_apply)
  qed
qed

lemma rehash_object:
  assumes "hash_inv t" "caps_ok (hash_map t)" and t': "t' = fst (kv_hash_rehash_step t 1)"
  shows "hash_inv t'" "hash_map t' = hash_map t"
    "hash_occupied t' + freed_buckets t' = hash_occupied t + freed_buckets t"
  using kv_hash_rehash_step_ok [OF assms(1), of 1 t'] rehash_step_charge [OF assms(1), of 1 t']
  by (simp_all add: t' prod_eq_iff)

lemma hash_set_ok:
  assumes inv: "hash_object_inv obj" and s: "kv_object_hash_set va alloc obj k v = (obj', r)"
  shows "hash_set_post obj k v obj' r"
proof -
  from inv obtain t0 u where obj: "obj = \<lparr>object_value = KV_OBJECT_HASH t0, memory_usage = u\<rparr>"
    and i0: "hash_inv t0" "caps_ok (hash_map t0)"
    unfolding hash_object_inv_alt by (cases obj) auto
  define t where "t = fst (kv_hash_rehash_step t0 1)"
  note tok = rehash_object [OF i0 t_def]
  have i: "hash_inv t" "caps_ok (hash_map t)" using tok i0 by simp_all
  let ?o = "\<lparr>object_value = KV_OBJECT_HASH t, memory_usage = u\<rparr> :: ('a, 'b) kv_object"
  have fields: "object_fields ?o = object_fields obj" "hash_charged ?o = hash_charged obj"
    using tok by (simp_all add: obj object_fields_def hash_charged_def fun_eq_iff)
  have same: "hash_set_post ?o k v ?o None"
    using i by (simp add: hash_set_post_def hash_object_inv_alt)
  have "hash_set_post ?o k v obj' r"
  proof (cases "kv_hash_find t k")
    case None
    show ?thesis
    proof (cases "hash_value_create va v")
      case r: None
      with None s same show ?thesis by (simp add: kv_object_hash_set_def obj Let_def flip: t_def del: One_nat_def)
    next
      case (Some p)
      then have p: "p = \<lparr>hv_data = v, hv_capacity = length v\<rparr>"
        using hash_value_create_Some by fastforce
      obtain t' n where n: "kv_hash_insert alloc t k p = (t', n)" by fastforce
      from hash_set_new [OF i None n [unfolded p], of u] None Some n s show ?thesis
        by (auto simp: kv_object_hash_set_def obj Let_def p simp flip: t_def simp del: One_nat_def split: option.splits)
    qed
  next
    case (Some node)
    show ?thesis
    proof (cases "hv_data (payload node) = v")
      case True
      with Some s have "obj' = ?o \<and> r = Some (False, False)"
        by (simp add: kv_object_hash_set_def obj Let_def flip: t_def del: One_nat_def)
      moreover have "hash_map t k = Some (payload node)" using kv_hash_find_map [OF i(1), of k] Some by simp
      ultimately show ?thesis
        using i True by (auto simp: hash_set_post_def hash_object_inv_alt object_fields_def)
    next
      case False
      note e = hash_set_existing [OF i Some _ _ False, where u = u]
      have caps: "length (hv_data (payload node)) \<le> hv_capacity (payload node)"
        using i(2) kv_hash_find_map [OF i(1), of k] Some by (auto simp: caps_ok_def)
      show ?thesis
        using Some False s same e [of "(payload node)\<lparr>hv_data := v\<rparr>"]
          e [of "\<lparr>hv_data = v, hv_capacity = length v\<rparr>"]
        by (auto simp: kv_object_hash_set_def obj hash_value_create_def Let_def algebra_simps simp flip: t_def
            simp del: One_nat_def split: if_splits)
    qed
  qed
  with fields show ?thesis by (auto simp: hash_set_post_def split: option.splits)
qed

lemma hash_get_ok:
  assumes inv: "hash_object_inv obj" and s: "kv_object_hash_get obj k = (obj', r)"
  shows "hash_object_inv obj' \<and> object_fields obj' = object_fields obj \<and> r = object_fields obj k
    \<and> (hash_charged obj \<longrightarrow> hash_charged obj')"
proof -
  from inv obtain t0 where obj: "object_value obj = KV_OBJECT_HASH t0"
    and i0: "hash_inv t0" "caps_ok (hash_map t0)"
    unfolding hash_object_inv_alt by auto
  define t where "t = fst (kv_hash_rehash_step t0 1)"
  note tok = rehash_object [OF i0 t_def]
  from s obj have "obj' = obj\<lparr>object_value := KV_OBJECT_HASH t\<rparr>"
    and "r = map_option (hv_data \<circ> payload) (kv_hash_find t k)"
    by (auto simp: kv_object_hash_get_def Let_def t_def split: option.splits)
  with obj tok i0 kv_hash_find_map [OF tok(1), of k] show ?thesis
    by (auto simp: hash_object_inv_alt object_fields_hash hash_charged_def
        option.map_comp [symmetric])
qed

lemma hash_delete_ok:
  assumes inv: "hash_object_inv obj" and s: "kv_object_hash_delete obj k = (obj', r)"
  shows "hash_object_inv obj' \<and> object_fields obj' = (object_fields obj)(k := None)
    \<and> r = (if object_fields obj k = None then 0 else 1) \<and> (hash_charged obj \<longrightarrow> hash_charged obj')"
proof -
  from inv obtain t where obj: "object_value obj = KV_OBJECT_HASH t"
    and i: "hash_inv t" "caps_ok (hash_map t)" unfolding hash_object_inv_alt by auto
  show ?thesis
  proof (cases "kv_hash_find t k")
    case None
    with s obj inv kv_hash_find_map [OF i(1), of k] show ?thesis
      by (auto simp: kv_object_hash_delete_def object_fields_def fun_eq_iff)
  next
    case (Some node)
    note n = kv_hash_find_Some [OF i(1) Some]
    obtain t' q where rem: "kv_hash_remove_node t node = (t', q)" by fastforce
    note ok = remove_target_ok [OF i(1) _ rem [unfolded kv_hash_remove_node_def]]
    have charge: "field_charge node = kv_hash_node_memory_for_key (length k) + of_nat sizeof_hash_value
        + of_nat (hv_capacity (payload node)) + 1" using n by (simp add: field_charge_def)
    have o': "obj' = obj\<lparr>object_value := KV_OBJECT_HASH t', memory_usage := memory_usage obj -
        field_charge node\<rparr>" and r': "r = 1"
      using s obj Some rem by (auto simp: kv_object_hash_delete_def Let_def charge)
    have "hash_map t k = Some (payload node)" using kv_hash_find_map [OF i(1), of k] Some by simp
    with ok n obj i remove_charge [OF i(1) Some rem] show ?thesis
      by (auto simp: o' r' hash_object_inv_alt object_fields_hash hash_charged_def caps_ok_del
          map_option_del simp del: fun_upd_apply)
  qed
qed

lemma hash_length_ok: "hash_object_inv obj \<Longrightarrow> kv_object_hash_length obj = card (dom (object_fields obj))"
proof -
  assume "hash_object_inv obj"
  then obtain t where obj: "object_value obj = KV_OBJECT_HASH t" and t: "hash_inv t"
    unfolding hash_object_inv_alt by auto
  have "dom (object_fields obj) = node_key ` set (nodes t)"
    using hash_map_eq_None_iff [of t] by (auto simp: object_fields_hash [OF obj] dom_def)
  also have "card \<dots> = length (nodes t)"
    using t by (metis distinct_card hash_inv_def length_map list.set_map)
  finally show ?thesis using t obj by (simp add: kv_object_hash_length_def kv_hash_count_def hash_inv_def)
qed

text \<open>A sequence of calls on a hash object, with their answers.\<close>

datatype hash_object_op = HO_set bool hash_alloc bytes bytes | HO_get bytes | HO_delete bytes

datatype hash_object_answer = HA_set "(bool \<times> bool) option" | HA_get "bytes option" | HA_delete int

fun hash_object_call :: "hash_object_op \<Rightarrow> ('m, 'o) kv_object \<Rightarrow> ('m, 'o) kv_object \<times> hash_object_answer" where
  "hash_object_call (HO_set va alloc k v) obj = map_prod id HA_set (kv_object_hash_set va alloc obj k v)"
| "hash_object_call (HO_get k) obj = map_prod id HA_get (kv_object_hash_get obj k)"
| "hash_object_call (HO_delete k) obj = map_prod id HA_delete (kv_object_hash_delete obj k)"

fun run_hash_object ::
  "hash_object_op list \<Rightarrow> ('m, 'o) kv_object \<Rightarrow> ('m, 'o) kv_object \<times> hash_object_answer list" where
  "run_hash_object [] obj = (obj, [])"
| "run_hash_object (call # calls) obj =
     (let (obj, answer) = hash_object_call call obj; (obj, answers) = run_hash_object calls obj in (obj, answer # answers))"

text \<open>
  What a call and its answer do to the map of fields; \<open>None\<close> is an answer the call must not give.  A
  write may be refused only for lack of memory (or a size out of range) and then changes nothing.
\<close>

definition set_refused :: "bool \<Rightarrow> hash_alloc \<Rightarrow> bytes \<Rightarrow> bytes \<Rightarrow> (bytes \<rightharpoonup> bytes) \<Rightarrow> bool" where
  "set_refused va alloc k v m \<longleftrightarrow>
     \<not> va \<or> length v + sizeof_hash_value \<ge> SIZE_MAX \<or> (m k = None \<and> \<not> plenty alloc k)"

fun fields_step :: "hash_object_op \<Rightarrow> hash_object_answer \<Rightarrow> (bytes \<rightharpoonup> bytes) \<Rightarrow> (bytes \<rightharpoonup> bytes) option" where
  "fields_step (HO_set va alloc k v) (HA_set None) m = (if set_refused va alloc k v m then Some m else None)"
| "fields_step (HO_set va alloc k v) (HA_set (Some (added, changed))) m =
     (if added = (m k = None) \<and> changed = (m k \<noteq> Some v) then Some (m(k \<mapsto> v)) else None)"
| "fields_step (HO_get k) (HA_get r) m = (if r = m k then Some m else None)"
| "fields_step (HO_delete k) (HA_delete n) m =
     (if n = (if m k = None then 0 else 1) then Some (m(k := None)) else None)"
| "fields_step _ _ m = None"

fun fields_after :: "hash_object_op list \<Rightarrow> hash_object_answer list \<Rightarrow> (bytes \<rightharpoonup> bytes) \<Rightarrow> (bytes \<rightharpoonup> bytes) option" where
  "fields_after [] [] m = Some m"
| "fields_after (call # calls) (answer # answers) m = Option.bind (fields_step call answer m) (fields_after calls answers)"
| "fields_after _ _ m = None"

definition object_room :: "nat \<Rightarrow> ('m, 'o) kv_object \<Rightarrow> bool" where
  "object_room n obj \<longleftrightarrow> (case object_value obj of KV_OBJECT_HASH t \<Rightarrow> hash_room n t | _ \<Rightarrow> False)"

lemma rehash_room:
  assumes "hash_room n t"
  shows "hash_room n (fst (kv_hash_rehash_step t m))"
proof -
  obtain t' q where s: "kv_hash_rehash_step t m = (t', q)" by fastforce
  from rehash_sizes [OF s] assms s show ?thesis by (auto simp: hash_room_def)
qed

lemma insert_room:
  assumes i: "kv_hash_insert a h k p = (h', q)" and r: "hash_room (Suc n) h"
  shows "hash_room n h'"
proof -
  have "slots (table0 h) * 4 \<le> SIZE_MAX div sizeof_pointer" if "expands h"
    using that r by (auto simp: expands_def hash_room_def kv_hash_count_def)
  with insert_sizes [OF i] r show ?thesis by (auto simp: hash_room_def)
qed

lemma room_le: "hash_room (Suc n) h \<Longrightarrow> hash_room n h"
  by (simp add: hash_room_def)

lemma payload_room: "hash_room n (kv_hash_node_set_payload t k p) = hash_room n t"
  by (simp add: hash_room_def kv_hash_node_set_payload_def set_payload_table_def)

lemma remove_node_room:
  assumes "hash_room n h"
  shows "hash_room n (fst (kv_hash_remove_node h node))"
  using assms by (auto simp: hash_room_def kv_hash_remove_node_def remove_target_def unlink_in_table_def Let_def
      split: option.splits prod.splits if_splits)

lemma call_object_room:
  assumes r: "object_room (Suc n) obj" and c: "hash_object_call call obj = (obj', answer)"
  shows "object_room n obj'"
proof -
  obtain t where t: "object_value obj = KV_OBJECT_HASH t" "hash_room (Suc n) t"
    using r by (auto simp: object_room_def split: kv_value.splits)
  note st = rehash_room [OF t(2), of 1]
  show ?thesis
  proof (cases call)
    case (HO_set va alloc k v)
    have "object_room n (fst (kv_object_hash_set va alloc obj k v))"
      using t st room_le [OF st] insert_room [OF _ st]
      by (auto simp: kv_object_hash_set_def object_room_def Let_def payload_room split: option.splits prod.splits)
    with HO_set c show ?thesis by (auto simp: map_prod_def split: prod.splits)
  next
    case (HO_get k)
    with c t room_le [OF st] show ?thesis by (auto simp: kv_object_hash_get_def object_room_def Let_def)
  next
    case (HO_delete k)
    with c t room_le [OF t(2)] remove_node_room show ?thesis
      by (auto simp: kv_object_hash_delete_def object_room_def Let_def split: option.splits)
  qed
qed

lemma hash_set_refused:
  assumes inv: "hash_object_inv obj" and r: "object_room (Suc n) obj"
    and s: "kv_object_hash_set va alloc obj k v = (obj', None)"
  shows "set_refused va alloc k v (object_fields obj)"
proof -
  obtain t0 where obj: "object_value obj = KV_OBJECT_HASH t0" and i0: "hash_inv t0" "caps_ok (hash_map t0)"
    using inv unfolding hash_object_inv_alt by auto
  define t where "t = fst (kv_hash_rehash_step t0 1)"
  note tok = rehash_object [OF i0 t_def]
  have room: "hash_room (Suc n) t" using r obj rehash_room by (simp add: t_def object_room_def)
  have m: "object_fields obj k = None \<longleftrightarrow> kv_hash_find t k = None"
    using kv_hash_find_map [OF tok(1), of k] tok(2) by (auto simp: object_fields_hash [OF obj])
  have c: "va \<Longrightarrow> length v + sizeof_hash_value < SIZE_MAX \<Longrightarrow> hash_value_create va v \<noteq> None"
    by (auto simp: hash_value_create_def sizeof_hash_value_def SIZE_MAX_def)
  have i: "kv_hash_find t k = None \<Longrightarrow> plenty alloc k \<Longrightarrow> snd (kv_hash_insert alloc t k p) \<noteq> None" for p
    using kv_hash_insert_succeeds [OF tok(1), of k alloc p] room kv_hash_find_map [OF tok(1), of k]
    by (auto simp: plenty_def node_fits_def hash_room_def)
  show ?thesis
  proof (rule ccontr)
    assume "\<not> ?thesis"
    then have n: "va" "length v + sizeof_hash_value < SIZE_MAX" "kv_hash_find t k = None \<Longrightarrow> plenty alloc k"
      using m by (auto simp: set_refused_def)
    then obtain rep where "hash_value_create va v = Some rep" using c by blast
    with s obj n(3) i [of rep] show False
      by (auto simp: kv_object_hash_set_def Let_def simp flip: t_def simp del: One_nat_def
          split: option.splits prod.splits if_splits)
  qed
qed

definition writes_done :: "hash_object_answer list \<Rightarrow> bool" where
  "writes_done answers \<longleftrightarrow> HA_set None \<notin> set answers"

lemma hash_object_call_ok:
  assumes inv: "hash_object_inv obj" "object_room (Suc n) obj" and c: "hash_object_call call obj = (obj', answer)"
  shows "hash_object_inv obj' \<and> fields_step call answer (object_fields obj) = Some (object_fields obj')
    \<and> (answer \<noteq> HA_set None \<and> hash_charged obj \<longrightarrow> hash_charged obj')"
proof (cases call)
  case (HO_set va alloc k v)
  then obtain r where s: "kv_object_hash_set va alloc obj k v = (obj', r)" "answer = HA_set r"
    using c by (auto simp: map_prod_def split: prod.splits)
  note p = hash_set_ok [OF inv(1) s(1), unfolded hash_set_post_def]
  show ?thesis
  proof (cases r)
    case None
    with p s hash_set_refused [OF inv, of va alloc k v] HO_set show ?thesis by simp
  next
    case (Some x)
    with p s HO_set show ?thesis by (cases x) simp
  qed
next
  case (HO_get k)
  with c hash_get_ok [OF inv(1), of k] show ?thesis by (auto simp: map_prod_def split: prod.splits)
next
  case (HO_delete k)
  then obtain r where s: "kv_object_hash_delete obj k = (obj', r)" "answer = HA_delete r"
    using c by (auto simp: map_prod_def split: prod.splits)
  with hash_delete_ok [OF inv(1) s(1)] HO_delete show ?thesis by (simp del: fun_upd_apply)
qed

lemma run_hash_object_ok:
  "hash_object_inv obj \<Longrightarrow> object_room (length calls) obj \<Longrightarrow> run_hash_object calls obj = (obj', answers) \<Longrightarrow>
     hash_object_inv obj' \<and> fields_after calls answers (object_fields obj) = Some (object_fields obj')
     \<and> (writes_done answers \<and> hash_charged obj \<longrightarrow> hash_charged obj')"
proof (induction calls arbitrary: obj answers)
  case Nil
  then show ?case by simp
next
  case (Cons call calls)
  obtain o1 a where c: "hash_object_call call obj = (o1, a)" by fastforce
  obtain as where r: "run_hash_object calls o1 = (obj', as)" "answers = a # as"
    using Cons.prems(3) c by (auto split: prod.splits)
  have "object_room (Suc (length calls)) obj" using Cons.prems(2) by simp
  note k = hash_object_call_ok [OF Cons.prems(1) this c] and m = call_object_room [OF this c]
  with Cons.IH [OF _ m r(1)] r(2) show ?case by (auto simp: writes_done_def)
qed

lemma create_hash_ok:
  assumes "kv_object_create_hash a b c = Some obj"
  shows "hash_object_inv obj \<and> object_fields obj = Map.empty \<and> hash_charged obj"
proof -
  from assms obtain t where t: "kv_hash_create b c = Some t"
    and obj: "object_value obj = KV_OBJECT_HASH t"
      "memory_usage obj = of_nat sizeof_kv_object + kv_hash_index_memory t"
    by (auto simp: kv_object_create_hash_def split: if_splits option.splits)
  have "slots (table0 t) = HASH_INITIAL_SLOTS"
    using t by (auto simp: kv_hash_create_def hash_init_def table_allocate_def split: if_splits option.splits)
  with kv_hash_create_ok [OF t] obj show ?thesis
    by (simp add: hash_object_inv_alt caps_ok_def object_fields_hash hash_charged_def hash_occupied_def
        freed_buckets_def)
qed

lemma set_without_memory: "kv_object_hash_set False alloc obj k v \<noteq> (obj', Some (True, c))"
  by (auto simp: kv_object_hash_set_def hash_value_create_def Let_def split: kv_value.splits option.splits if_splits)

lemma create_hash_room:
  assumes "kv_object_create_hash True True True = Some obj" "n < 2 ^ 57"
  shows "object_room n obj"
proof -
  obtain t where "kv_hash_create True True = Some t" "object_value obj = KV_OBJECT_HASH t"
    using assms(1) by (auto simp: kv_object_create_hash_def split: option.splits)
  with fresh_room [OF _ assms(2)] show ?thesis by (simp add: object_room_def)
qed

lemma create_hash_some: "\<exists>obj. kv_object_create_hash True True True = Some (obj :: ('m, 'o) kv_object)"
  using kv_hash_create_some [where 'p = hash_value] by (auto simp: kv_object_create_hash_def)

subsection \<open>Properties\<close>

text \<open>
  C27. A hash object refines a map from fields to values: over any sequence of fewer than \<open>2 ^ 57\<close>
  writes, reads and deletions on a new object, whatever the allocator answers, every answer is the one
  of the map: a read gives the value of the field, a write tells whether the field is new and whether
  its value changes, a deletion whether the field was there; a write fails only for lack of memory and
  then leaves the fields alone.  The length is the number of fields.
\<close>

theorem hash_object_refines:
  assumes "kv_object_create_hash True True True = Some obj0" "length calls < 2 ^ 57"
    and "run_hash_object calls obj0 = (obj, answers)"
  shows "\<exists>m. fields_after calls answers Map.empty = Some m
    \<and> (\<forall>k. snd (kv_object_hash_get obj k) = m k) \<and> kv_object_hash_length obj = card (dom m)"
proof -
  note c = create_hash_ok [OF assms(1)]
  have inv: "hash_object_inv obj" and f: "fields_after calls answers Map.empty = Some (object_fields obj)"
    using run_hash_object_ok [OF _ create_hash_room [OF assms(1,2)] assms(3)] c by auto
  have "snd (kv_object_hash_get obj k) = object_fields obj k" for k
    using hash_get_ok [OF inv, of k "fst (kv_object_hash_get obj k)"] by (simp add: prod_eq_iff)
  with f hash_length_ok [OF inv] show ?thesis by blast
qed

theorem hash_object_refines_witness:
  "\<exists>obj0 obj. kv_object_create_hash True True True = Some (obj0 :: (nat, nat) kv_object)
     \<and> run_hash_object [HO_set True \<lparr>buckets_allocated = True, node_allocated = True\<rparr> [1] [7],
           HO_set False \<lparr>buckets_allocated = True, node_allocated = True\<rparr> [2] [8], HO_delete [3]] obj0
         = (obj, [HA_set (Some (True, True)), HA_set None, HA_delete 0])
     \<and> snd (kv_object_hash_get obj [1]) = Some [7] \<and> snd (kv_object_hash_get obj [2]) = None \<and> kv_object_hash_length obj = 1"
proof -
  let ?a = "\<lparr>buckets_allocated = True, node_allocated = True\<rparr>"
  let ?calls = "[HO_set True ?a [1] [7], HO_set False ?a [2] [8], HO_delete [3]]"
  obtain obj0 :: "(nat, nat) kv_object" where o0: "kv_object_create_hash True True True = Some obj0"
    using create_hash_some by blast
  obtain obj answers where r: "run_hash_object ?calls obj0 = (obj, answers)" by fastforce
  obtain m where m: "fields_after ?calls answers Map.empty = Some m" "\<forall>k. snd (kv_object_hash_get obj k) = m k"
    "kv_object_hash_length obj = card (dom m)" using hash_object_refines [OF o0 _ r] by auto
  obtain x y z where ans: "answers = [HA_set x, HA_set y, HA_delete z]"
    using r by (auto simp: Let_def map_prod_def split: prod.splits)
  have y: "y \<noteq> Some (True, c)" for c
    using r ans by (auto simp: Let_def map_prod_def set_without_memory split: prod.splits)
  have "plenty ?a [1]" by (simp add: plenty_def node_fits_def sizeof_kv_hash_node_def SIZE_MAX_def)
  with m(1) ans have x: "x = Some (True, True)"
    by (cases x; auto simp: set_refused_def sizeof_hash_value_def SIZE_MAX_def bind_eq_Some_conv split: if_splits)
  with m(1) ans y [of True] have y: "y = None"
    by (cases y; auto simp: set_refused_def sizeof_hash_value_def SIZE_MAX_def bind_eq_Some_conv split: if_splits)
  from x y m(1) ans have "z = 0" "m = [[1] \<mapsto> [7]]" by (auto simp: bind_eq_Some_conv split: if_splits)
  with m(2,3) o0 r ans x y show ?thesis by auto
qed

text \<open>
  C28. Writing a field: on success the field reads back as the new value and no other field
  changes; \<open>added\<close> is reported exactly for a new field and \<open>changed\<close> exactly when the stored value
  differs from the old one.  On failure no field changes.
\<close>

theorem hash_object_set:
  assumes "hash_object_inv obj" "kv_object_hash_set va alloc obj k v = (obj', r)"
  shows "hash_object_inv obj' \<and> (case r of
      None \<Rightarrow> object_fields obj' = object_fields obj
    | Some (added, changed) \<Rightarrow> object_fields obj' = (object_fields obj)(k \<mapsto> v)
        \<and> added = (object_fields obj k = None) \<and> changed = (object_fields obj k \<noteq> Some v))"
  using hash_set_ok [OF assms] by (auto simp: hash_set_post_def split: option.splits)

theorem hash_object_set_witness:
  "\<exists>obj obj' r. kv_object_create_hash True True True = Some (obj :: (nat, nat) kv_object)
     \<and> kv_object_hash_set False \<lparr>buckets_allocated = True, node_allocated = True\<rparr> obj [1] [2] = (obj', r)
     \<and> hash_object_inv obj'"
proof -
  obtain obj :: "(nat, nat) kv_object" where o0: "kv_object_create_hash True True True = Some obj"
    using create_hash_some by blast
  obtain obj' r where s: "kv_object_hash_set False \<lparr>buckets_allocated = True, node_allocated = True\<rparr>
      obj [1] [2] = (obj', r)" by fastforce
  from hash_object_set [OF _ s] create_hash_ok [OF o0] o0 s show ?thesis by blast
qed



end
