(* ===== verification/HeapList.thy ===== *)
theory HeapList
  imports Main
begin

text \<open>
  Binary min-heaps stored in a list: the sifting steps of \<open>src/src/cache/cache.c\<close> on the list of
  keys alone.  The expiration heap is related to these functions by its list of deadlines.
\<close>

abbreviation parent :: "nat \<Rightarrow> nat" where "parent i \<equiv> (i - Suc 0) div 2"

definition is_heap :: "'a::linorder list \<Rightarrow> bool" where
  "is_heap ks \<longleftrightarrow> (\<forall>i < length ks. 0 < i \<longrightarrow> ks ! parent i \<le> ks ! i)"

definition swap_cells :: "'a list \<Rightarrow> nat \<Rightarrow> nat \<Rightarrow> 'a list" where
  "swap_cells xs i j = xs[i := xs ! j, j := xs ! i]"

text \<open>Heap except at \<open>i\<close> against its parent; heap except at \<open>i\<close> against its children.\<close>

definition heap_up_to :: "'a::linorder list \<Rightarrow> nat \<Rightarrow> bool" where
  "heap_up_to ks i \<longleftrightarrow> (\<forall>j < length ks. 0 < j \<longrightarrow> j \<noteq> i \<longrightarrow> ks ! parent j \<le> ks ! j)
     \<and> (\<forall>j < length ks. 0 < j \<longrightarrow> parent j = i \<longrightarrow> 0 < i \<longrightarrow> ks ! parent i \<le> ks ! j)"

definition heap_down_to :: "'a::linorder list \<Rightarrow> nat \<Rightarrow> bool" where
  "heap_down_to ks i \<longleftrightarrow> (\<forall>j < length ks. 0 < j \<longrightarrow> parent j \<noteq> i \<longrightarrow> ks ! parent j \<le> ks ! j)
     \<and> (\<forall>j < length ks. 0 < j \<longrightarrow> parent j = i \<longrightarrow> 0 < i \<longrightarrow> ks ! parent i \<le> ks ! j)"

lemma length_swap_cells [simp]: "length (swap_cells xs i j) = length xs"
  by (simp add: swap_cells_def)

lemma nth_swap_cells:
  "i < length xs \<Longrightarrow> j < length xs \<Longrightarrow> k < length xs \<Longrightarrow>
     swap_cells xs i j ! k = (if k = j then xs ! i else if k = i then xs ! j else xs ! k)"
  by (auto simp: swap_cells_def nth_list_update)

fun up_list :: "'a::linorder list \<Rightarrow> nat \<Rightarrow> 'a list" where
  "up_list ks i =
     (if i > 0 then
        if \<not> ks ! i < ks ! parent i then ks else up_list (swap_cells ks i (parent i)) (parent i)
      else ks)"

declare up_list.simps [simp del]

definition least_child :: "'a::linorder list \<Rightarrow> nat \<Rightarrow> nat" where
  "least_child ks i =
     (let l = i * 2 + 1; r = l + 1; s = (if l < length ks \<and> ks ! l < ks ! i then l else i)
      in if r < length ks \<and> ks ! r < ks ! s then r else s)"

lemma least_child_cases:
  "least_child ks i = i \<or> (i < least_child ks i \<and> least_child ks i < length ks)"
  by (simp add: least_child_def Let_def)

function down_list :: "'a::linorder list \<Rightarrow> nat \<Rightarrow> 'a list" where
  "down_list ks i =
     (let s = least_child ks i in
      if s = i then ks else down_list (swap_cells ks i s) s)"
  by pat_completeness auto
termination
  apply (relation "measure (\<lambda>(ks, i). length ks - i)")
   apply simp
  subgoal for ks i x
    using least_child_cases [of ks i] by auto
  done

declare down_list.simps [simp del]

lemma heap_up_to_step:
  assumes up: "heap_up_to ks i" and i: "i < length ks" "0 < i" and lt: "ks ! i < ks ! parent i"
  shows "heap_up_to (swap_cells ks i (parent i)) (parent i)"
proof -
  let ?p = "parent i" and ?k = "swap_cells ks i (parent i)"
  have p: "?p < i" "?p < length ks" using i by auto
  have nth: "?k ! k = (if k = ?p then ks ! i else if k = i then ks ! ?p else ks ! k)"
    if "k < length ks" for k using nth_swap_cells [OF i(1) p(2) that] .
  have old: "ks ! parent j \<le> ks ! j" if "j < length ks" "0 < j" "j \<noteq> i" for j
    using up that by (simp add: heap_up_to_def)
  have kids: "ks ! ?p \<le> ks ! j" if "j < length ks" "0 < j" "parent j = i" for j
    using up that i by (simp add: heap_up_to_def)
  have "?k ! parent j \<le> ?k ! j" if j: "j < length ks" "0 < j" "j \<noteq> ?p" for j
  proof -
    have pj: "parent j < length ks" using j by linarith
    consider "j = i" | "j \<noteq> i" "parent j = i" | "j \<noteq> i" "parent j = ?p"
      | "j \<noteq> i" "parent j \<noteq> i" "parent j \<noteq> ?p" by blast
    then show ?thesis
    proof cases
      case 1
      with lt p i show ?thesis by (simp add: nth)
    next
      case 2
      with kids [of j] j p i show ?thesis by (simp add: nth)
    next
      case 3
      with old [of j] j lt pj show ?thesis by (auto simp: nth)
    next
      case 4
      with old [of j] j pj show ?thesis by (simp add: nth)
    qed
  qed
  moreover have "?k ! parent ?p \<le> ?k ! j"
    if j: "j < length ks" "0 < j" "parent j = ?p" "0 < ?p" for j
  proof -
    have pp: "parent ?p < ?p" using that(4) by linarith
    have "ks ! parent ?p \<le> ks ! ?p" by (rule old) (use that p in auto)
    moreover have "j \<noteq> ?p" using j by auto
    moreover have "j \<noteq> i \<Longrightarrow> ks ! ?p \<le> ks ! j" using old [of j] j by simp
    ultimately show ?thesis using j pp p i by (auto simp: nth)
  qed
  ultimately show ?thesis by (simp add: heap_up_to_def)
qed

lemma up_list_heap: "i < length ks \<Longrightarrow> heap_up_to ks i \<Longrightarrow> is_heap (up_list ks i)"
proof (induction ks i rule: up_list.induct)
  case (1 ks i)
  show ?case
  proof (cases "0 < i \<and> ks ! i < ks ! parent i")
    case True
    then have "is_heap (up_list (swap_cells ks i (parent i)) (parent i))"
      using "1.IH" heap_up_to_step [OF "1.prems"(2,1)] "1.prems"(1) by auto
    with True show ?thesis by (subst up_list.simps) simp
  next
    case False
    have "is_heap ks"
      unfolding is_heap_def
    proof (intro allI impI)
      fix j assume j: "j < length ks" "0 < j"
      show "ks ! parent j \<le> ks ! j"
        using "1.prems"(2) False j by (cases "j = i") (auto simp: heap_up_to_def)
    qed
    with False show ?thesis by (subst up_list.simps) auto
  qed
qed

lemma least_child_least:
  assumes i: "i < length ks" and j: "j < length ks" "0 < j" "parent j = i"
  shows "ks ! least_child ks i \<le> ks ! j"
proof -
  have "j = i * 2 + 1 \<or> j = i * 2 + 2" using j by presburger
  then show ?thesis using i j by (auto simp: least_child_def Let_def)
qed

lemma least_child_parent: "least_child ks i \<noteq> i \<Longrightarrow> parent (least_child ks i) = i \<and> ks ! least_child ks i < ks ! i"
  by (auto simp: least_child_def Let_def split: if_splits)

lemma heap_down_to_step:
  assumes dn: "heap_down_to ks i" and i: "i < length ks" and s: "s = least_child ks i" "s \<noteq> i"
  shows "heap_down_to (swap_cells ks i s) s"
proof -
  let ?k = "swap_cells ks i s"
  have sl: "i < s" "s < length ks" using least_child_cases [of ks i] s by auto
  have ps: "parent s = i" and lt: "ks ! s < ks ! i" using least_child_parent [of ks i] s by auto
  have nth: "?k ! k = (if k = s then ks ! i else if k = i then ks ! s else ks ! k)"
    if "k < length ks" for k using nth_swap_cells [OF i sl(2) that] .
  have old: "ks ! parent j \<le> ks ! j" if "j < length ks" "0 < j" "parent j \<noteq> i" for j
    using dn that by (simp add: heap_down_to_def)
  have least: "ks ! s \<le> ks ! j" if "j < length ks" "0 < j" "parent j = i" for j
    using least_child_least [OF i that] s by simp
  have above: "ks ! parent i \<le> ks ! j" if "j < length ks" "0 < j" "parent j = i" "0 < i" for j
    using dn that by (simp add: heap_down_to_def)
  have "?k ! parent j \<le> ?k ! j" if j: "j < length ks" "0 < j" "parent j \<noteq> s" for j
  proof -
    have pj: "parent j < length ks" "parent j < j" using j by linarith+
    consider "j = s" | "j = i" | "j \<noteq> s" "j \<noteq> i" "parent j = i" | "j \<noteq> s" "j \<noteq> i" "parent j \<noteq> i" by blast
    then show ?thesis
    proof cases
      case 1
      with lt sl i show ?thesis by (simp add: nth ps)
    next
      case 2
      with above [of s] sl ps j pj show ?thesis by (simp add: nth)
    next
      case 3
      with least [of j] j i show ?thesis by (simp add: nth)
    next
      case 4
      with old [of j] j pj show ?thesis by (simp add: nth)
    qed
  qed
  moreover have "?k ! parent s \<le> ?k ! j" if j: "j < length ks" "0 < j" "parent j = s" for j
  proof -
    have "j \<noteq> s" "j \<noteq> i" "parent j \<noteq> i" using j sl by auto
    with old [of j] j sl i show ?thesis by (simp add: nth ps)
  qed
  ultimately show ?thesis by (simp add: heap_down_to_def)
qed

lemma down_list_heap: "i < length ks \<Longrightarrow> heap_down_to ks i \<Longrightarrow> is_heap (down_list ks i)"
proof (induction ks i rule: down_list.induct)
  case (1 ks i)
  show ?case
  proof (cases "least_child ks i = i")
    case True
    have "is_heap ks"
      unfolding is_heap_def
    proof (intro allI impI)
      fix j assume j: "j < length ks" "0 < j"
      show "ks ! parent j \<le> ks ! j"
      proof (cases "parent j = i")
        case p: True
        with least_child_least [OF "1.prems"(1) j] True show ?thesis by simp
      next
        case False
        with "1.prems"(2) j show ?thesis by (simp add: heap_down_to_def)
      qed
    qed
    with True show ?thesis by (subst down_list.simps) (simp add: Let_def)
  next
    case False
    have "is_heap (down_list (swap_cells ks i (least_child ks i)) (least_child ks i))"
      using "1.IH" [OF refl False] heap_down_to_step [OF "1.prems"(2,1) refl False]
        least_child_cases [of ks i] False by simp
    with False show ?thesis by (subst down_list.simps) (simp add: Let_def)
  qed
qed

lemma heap_least: "is_heap ks \<Longrightarrow> i < length ks \<Longrightarrow> ks ! 0 \<le> ks ! i"
proof (induction i rule: less_induct)
  case (less i)
  show ?case
  proof (cases "i = 0")
    case False
    then have "parent i < i" by auto
    with less have "ks ! 0 \<le> ks ! parent i" by simp
    also have "\<dots> \<le> ks ! i" using less.prems False by (simp add: is_heap_def)
    finally show ?thesis .
  qed simp
qed

text \<open>How the callers enter the sifting steps.\<close>

lemma heap_append: "is_heap ks \<Longrightarrow> heap_up_to (ks @ [k]) (length ks)"
proof -
  assume h: "is_heap ks"
  have "(ks @ [k]) ! parent j \<le> (ks @ [k]) ! j" if "j < Suc (length ks)" "0 < j" "j \<noteq> length ks" for j
  proof -
    have "j < length ks" "parent j < length ks" using that by auto
    with h that show ?thesis by (simp add: is_heap_def nth_append)
  qed
  moreover have "parent j \<noteq> length ks" if "j < Suc (length ks)" "0 < length ks" for j
    using that by linarith
  ultimately show ?thesis by (auto simp: heap_up_to_def)
qed

lemma heap_replaced:
  assumes h: "is_heap ks" and i: "i < length ks"
  shows "0 < i \<Longrightarrow> k < ks ! parent i \<Longrightarrow> heap_up_to (ks[i := k]) i"
    and "\<not> (0 < i \<and> k < ks ! parent i) \<Longrightarrow> heap_down_to (ks[i := k]) i"
proof -
  have old: "ks ! parent j \<le> ks ! j" if "j < length ks" "0 < j" for j
    using h that by (simp add: is_heap_def)
  have step: "ks ! parent i \<le> ks ! j" if "j < length ks" "0 < j" "parent j = i" "0 < i" for j
    using old [of j] old [of i] i that by (metis order_trans)
  have ne: "parent j \<noteq> j" if "0 < j" for j using that by auto
  show "heap_up_to (ks[i := k]) i" if k: "0 < i" "k < ks ! parent i"
    unfolding heap_up_to_def
  proof (intro conjI allI impI)
    fix j assume j: "j < length (ks[i := k])" "0 < j" "j \<noteq> i"
    show "ks[i := k] ! parent j \<le> ks[i := k] ! j"
    proof (cases "parent j = i")
      case True
      with step [of j] j k i have "k \<le> ks ! j" by auto
      with True i j show ?thesis by simp
    next
      case False
      with old [of j] j show ?thesis by simp
    qed
  next
    fix j assume "j < length (ks[i := k])" "0 < j" "parent j = i" "0 < i"
    with step [of j] ne [of i] ne [of j] show "ks[i := k] ! parent i \<le> ks[i := k] ! j" by auto
  qed
  show "heap_down_to (ks[i := k]) i" if k: "\<not> (0 < i \<and> k < ks ! parent i)"
    unfolding heap_down_to_def
  proof (intro conjI allI impI)
    fix j assume j: "j < length (ks[i := k])" "0 < j" "parent j \<noteq> i"
    show "ks[i := k] ! parent j \<le> ks[i := k] ! j"
      using old [of j] j k i by (cases "j = i") auto
  next
    fix j assume "j < length (ks[i := k])" "0 < j" "parent j = i" "0 < i"
    with step [of j] ne [of i] ne [of j] show "ks[i := k] ! parent i \<le> ks[i := k] ! j" by auto
  qed
qed

lemma heap_butlast: "is_heap ks \<Longrightarrow> is_heap (butlast ks)"
  unfolding is_heap_def
proof (intro allI impI)
  fix i assume h: "\<forall>i < length ks. 0 < i \<longrightarrow> ks ! parent i \<le> ks ! i" and i: "i < length (butlast ks)" "0 < i"
  then have "parent i < length (butlast ks)" by linarith
  with h i show "butlast ks ! parent i \<le> butlast ks ! i" by (simp add: nth_butlast)
qed

end
