(* ===== verification/ExpireHeap.thy ===== *)
theory ExpireHeap
  imports Object HeapList
begin

text \<open>
  The expiration heap of the cache (\<open>heap_*\<close> of \<open>src/src/cache/cache.c\<close>): a binary min-heap
  of entry pointers ordered by deadline, each entry knowing its position.  Entries live in a store
  from addresses to structures, which the cache theories share.  The heap array is the list of its
  first \<open>heap_count\<close> cells.
\<close>

subsection \<open>Entries and their store\<close>

text \<open>
  \<open>heap_index = None\<close> is \<open>CACHE_HEAP_NONE\<close>; \<open>index_node\<close> is represented by the key of the node;
  \<open>None\<close> is the NULL pointer.
\<close>

record ('m, 'o) cache_entry =
  object :: "('m, 'o) kv_object"
  memory_charge :: u64
  object_items :: nat
  expire_at_ms :: u64
  heap_index :: "nat option"
  index_node :: bytes
  lru_previous :: "nat option"
  lru_next :: "nat option"

record ('m, 'o) heap_state =
  entries :: "nat \<Rightarrow> ('m, 'o) cache_entry option"
  expire_heap :: "nat list"
  heap_capacity :: nat

definition entry :: "('m, 'o, 'x) heap_state_scheme \<Rightarrow> nat \<Rightarrow> ('m, 'o) cache_entry" where
  "entry c a = the (entries c a)"

text \<open>A write through an entry pointer.\<close>

definition modify ::
  "nat \<Rightarrow> (('m, 'o) cache_entry \<Rightarrow> ('m, 'o) cache_entry) \<Rightarrow> ('m, 'o, 'x) heap_state_scheme
     \<Rightarrow> ('m, 'o, 'x) heap_state_scheme" where
  "modify a f c = c\<lparr>entries := (entries c)(a := map_option f (entries c a))\<rparr>"

abbreviation heap_count :: "('m, 'o, 'x) heap_state_scheme \<Rightarrow> nat" where
  "heap_count c \<equiv> length (expire_heap c)"

subsection \<open>Operations\<close>

definition heap_less :: "('m, 'o, 'x) heap_state_scheme \<Rightarrow> nat \<Rightarrow> nat \<Rightarrow> bool" where
  "heap_less c left right \<longleftrightarrow> expire_at_ms (entry c left) < expire_at_ms (entry c right)"

definition set_heap_index :: "nat option \<Rightarrow> ('m, 'o) cache_entry \<Rightarrow> ('m, 'o) cache_entry" where
  "set_heap_index i e = e\<lparr>heap_index := i\<rparr>"

definition heap_swap :: "('m, 'o, 'x) heap_state_scheme \<Rightarrow> nat \<Rightarrow> nat \<Rightarrow> ('m, 'o, 'x) heap_state_scheme" where
  "heap_swap c left right =
     (let l = expire_heap c ! left; r = expire_heap c ! right;
          c = c\<lparr>expire_heap := (expire_heap c)[left := r, right := l]\<rparr>;
          c = modify (expire_heap c ! left) (set_heap_index (Some left)) c
      in modify (expire_heap c ! right) (set_heap_index (Some right)) c)"

fun heap_sift_up :: "('m, 'o, 'x) heap_state_scheme \<Rightarrow> nat \<Rightarrow> ('m, 'o, 'x) heap_state_scheme" where
  "heap_sift_up c index =
     (if index > 0 then
        let parent = (index - 1) div 2 in
        if \<not> heap_less c (expire_heap c ! index) (expire_heap c ! parent) then c
        else heap_sift_up (heap_swap c index parent) parent
      else c)"

declare heap_sift_up.simps [simp del]

lemma heap_swap_length [simp]: "length (expire_heap (heap_swap c i j)) = length (expire_heap c)"
  by (simp add: heap_swap_def modify_def Let_def)

definition smallest_child :: "('m, 'o, 'x) heap_state_scheme \<Rightarrow> nat \<Rightarrow> nat" where
  "smallest_child c index =
     (let left = index * 2 + 1; right = left + 1;
          smallest = (if left < heap_count c \<and>
                        heap_less c (expire_heap c ! left) (expire_heap c ! index)
                      then left else index)
      in if right < heap_count c \<and>
            heap_less c (expire_heap c ! right) (expire_heap c ! smallest)
         then right else smallest)"

lemma smallest_child_cases:
  "smallest_child c i = i \<or> (i < smallest_child c i \<and> smallest_child c i < heap_count c)"
  by (simp add: smallest_child_def Let_def)

function heap_sift_down :: "('m, 'o, 'x) heap_state_scheme \<Rightarrow> nat \<Rightarrow> ('m, 'o, 'x) heap_state_scheme" where
  "heap_sift_down c index =
     (let smallest = smallest_child c index in
      if smallest = index then c
      else heap_sift_down (heap_swap c index smallest) smallest)"
  by pat_completeness auto
termination
  apply (relation "measure (\<lambda>(c, index). heap_count c - index)")
   apply simp
  subgoal for c i x
    using smallest_child_cases [of c i] by auto
  done

declare heap_sift_down.simps [simp del]

text \<open>
  The doubling loop of \<open>heap_reserve\<close>; \<open>None\<close> is its early return.  The source starts it with a
  positive capacity, the test \<open>0 < capacity\<close> makes it total.
\<close>

function heap_grow :: "nat \<Rightarrow> nat \<Rightarrow> nat option" where
  "heap_grow capacity required =
     (if 0 < capacity \<and> capacity < required then
        if capacity > SIZE_MAX div 2 then None else heap_grow (capacity * 2) required
      else Some capacity)"
  by pat_completeness auto
termination
  by (relation "measure (\<lambda>(capacity, required). required - capacity)") auto

declare heap_grow.simps [simp del]

definition CACHE_HEAP_INITIAL_CAPACITY :: nat where "CACHE_HEAP_INITIAL_CAPACITY = 16"

definition heap_reserve ::
  "bool \<Rightarrow> ('m, 'o, 'x) heap_state_scheme \<Rightarrow> nat \<Rightarrow> ('m, 'o, 'x) heap_state_scheme option" where
  "heap_reserve allocated c required =
     (if required \<le> heap_capacity c then Some c
      else case heap_grow (if heap_capacity c = 0 then CACHE_HEAP_INITIAL_CAPACITY else heap_capacity c)
                  required of
        None \<Rightarrow> None
      | Some capacity \<Rightarrow>
          if capacity > SIZE_MAX div sizeof_pointer then None
          else if \<not> allocated then None
          else Some (c\<lparr>heap_capacity := capacity\<rparr>))"

definition heap_insert_reserved :: "('m, 'o, 'x) heap_state_scheme \<Rightarrow> nat \<Rightarrow> ('m, 'o, 'x) heap_state_scheme" where
  "heap_insert_reserved c a =
     (let index = heap_count c;
          c = c\<lparr>expire_heap := expire_heap c @ [a]\<rparr>;
          c = modify a (set_heap_index (Some index)) c
      in heap_sift_up c index)"

definition heap_remove_at :: "('m, 'o, 'x) heap_state_scheme \<Rightarrow> nat \<Rightarrow> ('m, 'o, 'x) heap_state_scheme" where
  "heap_remove_at c index =
     (if index \<ge> heap_count c then c
      else let removed = expire_heap c ! index;
               last_cell = expire_heap c ! (heap_count c - 1);
               c = c\<lparr>expire_heap := butlast (expire_heap c)\<rparr>;
               c = modify removed (set_heap_index None) c in
        if index = heap_count c then c
        else let c = c\<lparr>expire_heap := (expire_heap c)[index := last_cell]\<rparr>;
                 c = modify last_cell (set_heap_index (Some index)) c in
          if index > 0 \<and> heap_less c (expire_heap c ! index) (expire_heap c ! ((index - 1) div 2))
          then heap_sift_up c index
          else heap_sift_down c index)"

text \<open>Called for an entry that is in the heap, after its deadline was written.\<close>

definition heap_expiration_changed :: "('m, 'o, 'x) heap_state_scheme \<Rightarrow> nat \<Rightarrow> ('m, 'o, 'x) heap_state_scheme" where
  "heap_expiration_changed c a =
     (let index = the (heap_index (entry c a)) in
      if index > 0 \<and> heap_less c a (expire_heap c ! ((index - 1) div 2))
      then heap_sift_up c index
      else heap_sift_down c index)"

subsection \<open>Invariant\<close>

text \<open>The position an entry records, and the deadlines in heap order.\<close>

definition heap_position :: "('m, 'o, 'x) heap_state_scheme \<Rightarrow> nat \<Rightarrow> nat option" where
  "heap_position c a = Option.bind (entries c a) heap_index"

definition deadlines :: "('m, 'o, 'x) heap_state_scheme \<Rightarrow> u64 list" where
  "deadlines c = map (\<lambda>a. expire_at_ms (entry c a)) (expire_heap c)"

definition index_ok :: "('m, 'o, 'x) heap_state_scheme \<Rightarrow> bool" where
  "index_ok c \<longleftrightarrow> (\<forall>a i. heap_position c a = Some i \<longleftrightarrow> i < heap_count c \<and> expire_heap c ! i = a)"

definition heap_ok :: "('m, 'o, 'x) heap_state_scheme \<Rightarrow> bool" where
  "heap_ok c \<longleftrightarrow> index_ok c \<and> is_heap (deadlines c)"

text \<open>A heap operation changes only the heap array and the recorded positions.\<close>

definition heap_view :: "('m, 'o, 'x) heap_state_scheme \<Rightarrow> nat \<Rightarrow> ('m, 'o) cache_entry option" where
  "heap_view c a = map_option (set_heap_index None) (entries c a)"

definition heap_frame :: "('m, 'o, 'x) heap_state_scheme \<Rightarrow> ('m, 'o, 'x) heap_state_scheme \<Rightarrow> bool" where
  "heap_frame c c' \<longleftrightarrow> c' = c\<lparr>entries := entries c', expire_heap := expire_heap c'\<rparr> \<and> heap_view c' = heap_view c"

lemma heap_frame_refl [simp]: "heap_frame c c"
  by (simp add: heap_frame_def)

lemma heap_frame_trans:
  assumes "heap_frame c d" "heap_frame d e"
  shows "heap_frame c e"
proof -
  from assms have d: "d = c\<lparr>entries := entries d, expire_heap := expire_heap d\<rparr>"
    and e: "e = d\<lparr>entries := entries e, expire_heap := expire_heap e\<rparr>"
    and v: "heap_view e = heap_view c" by (simp_all add: heap_frame_def)
  have "d\<lparr>entries := x, expire_heap := y\<rparr> = c\<lparr>entries := x, expire_heap := y\<rparr>" for x y
    by (subst d) simp
  with e have "e = c\<lparr>entries := entries e, expire_heap := expire_heap e\<rparr>" by simp
  with v show ?thesis by (simp add: heap_frame_def)
qed

lemma heap_view_entries: "heap_view c' = heap_view c \<Longrightarrow> entries c' a = None \<longleftrightarrow> entries c a = None"
proof -
  assume "heap_view c' = heap_view c"
  then have "heap_view c' a = heap_view c a" by simp
  then show ?thesis by (auto simp: heap_view_def)
qed

lemma heap_view_fields:
  assumes "heap_view c' = heap_view c"
  shows "expire_at_ms (entry c' a) = expire_at_ms (entry c a)"
    and "entries c a \<noteq> None \<Longrightarrow> set_heap_index None (entry c' a) = set_heap_index None (entry c a)"
proof -
  have v: "map_option (set_heap_index None) (entries c' a) = map_option (set_heap_index None) (entries c a)"
    using assms by (metis heap_view_def)
  show "entries c a \<noteq> None \<Longrightarrow> set_heap_index None (entry c' a) = set_heap_index None (entry c a)"
    using v by (auto simp: entry_def)
  show "expire_at_ms (entry c' a) = expire_at_ms (entry c a)"
  proof (cases "entries c a")
    case None
    then show ?thesis using v by (simp add: entry_def)
  next
    case (Some e)
    then obtain e' where "entries c' a = Some e'" "set_heap_index None e' = set_heap_index None e"
      using v by (cases "entries c' a") auto
    then have "expire_at_ms (set_heap_index None e') = expire_at_ms (set_heap_index None e)" by simp
    with Some \<open>entries c' a = Some e'\<close> show ?thesis by (simp add: entry_def set_heap_index_def)
  qed
qed

lemma heap_frame_deadlines:
  "heap_frame c c' \<Longrightarrow> deadlines c' = map (\<lambda>a. expire_at_ms (entry c a)) (expire_heap c')"
  unfolding heap_frame_def deadlines_def using heap_view_fields(1) [of c' c] by simp

lemma set_heap_index_twice [simp]: "set_heap_index i (set_heap_index j e) = set_heap_index i e"
  by (simp add: set_heap_index_def)

lemma modify_index_view [simp]: "heap_view (modify a (set_heap_index i) c) = heap_view c"
  by (auto simp: heap_view_def modify_def fun_eq_iff option.map_comp comp_def)

lemma modify_position:
  "heap_position (modify a (set_heap_index i) c) b =
     (if b = a \<and> entries c a \<noteq> None then i else heap_position c b)"
  by (cases "entries c a") (auto simp: heap_position_def modify_def set_heap_index_def)

lemma modify_simps [simp]:
  "expire_heap (modify a f c) = expire_heap c"
  "entries (modify a f c) b = None \<longleftrightarrow> entries c b = None"
  by (simp_all add: modify_def)

lemma entries_modify: "entries (modify a f c) b = (if b = a then map_option f (entries c a) else entries c b)"
  by (simp add: modify_def)

lemma modify_frame [simp]:
  "heap_frame c (modify a (set_heap_index i) c)"
  using modify_index_view [of a i c] by (simp add: heap_frame_def) (simp add: modify_def)

lemma heap_position_Some_entry: "heap_position c a = Some i \<Longrightarrow> entries c a \<noteq> None"
  by (auto simp: heap_position_def bind_eq_Some_conv)

lemma expire_heap_update_simps [simp]:
  "heap_position (c\<lparr>expire_heap := h\<rparr>) = heap_position c"
  "heap_view (c\<lparr>expire_heap := h\<rparr>) = heap_view c"
  "entry (c\<lparr>expire_heap := h\<rparr>) = entry c"
  by (auto simp: heap_position_def heap_view_def entry_def fun_eq_iff)

lemma expire_heap_frame [simp]: "heap_frame c (c\<lparr>expire_heap := h\<rparr>)"
  by (simp add: heap_frame_def)

lemma index_okD:
  assumes "index_ok c" "i < heap_count c"
  shows "heap_position c (expire_heap c ! i) = Some i" "entries c (expire_heap c ! i) \<noteq> None"
proof -
  show "heap_position c (expire_heap c ! i) = Some i" using assms by (simp add: index_ok_def)
  then show "entries c (expire_heap c ! i) \<noteq> None" by (rule heap_position_Some_entry)
qed

lemma index_ok_inj:
  "index_ok c \<Longrightarrow> i < heap_count c \<Longrightarrow> j < heap_count c \<Longrightarrow> expire_heap c ! i = expire_heap c ! j \<Longrightarrow> i = j"
  by (metis index_okD(1) option.inject)

lemma index_ok_distinct: "index_ok c \<Longrightarrow> distinct (expire_heap c)"
  unfolding distinct_conv_nth using index_ok_inj by blast

lemma heap_swap_ok:
  assumes ok: "index_ok c" and i: "i < heap_count c" and j: "j < heap_count c" and ne: "i \<noteq> j"
  shows "index_ok (heap_swap c i j)" "heap_frame c (heap_swap c i j)"
    "deadlines (heap_swap c i j) = swap_cells (deadlines c) i j"
    "mset (expire_heap (heap_swap c i j)) = mset (expire_heap c)"
proof -
  let ?l = "expire_heap c ! i" and ?r = "expire_heap c ! j"
  let ?h = "(expire_heap c)[i := ?r, j := ?l]"
  have s: "heap_swap c i j = modify ?l (set_heap_index (Some j))
      (modify ?r (set_heap_index (Some i)) (c\<lparr>expire_heap := ?h\<rparr>))"
    using i j ne by (simp add: heap_swap_def Let_def nth_list_update)
  have lr: "?l \<noteq> ?r" using index_ok_inj [OF ok i j] ne by blast
  have pos: "heap_position (heap_swap c i j) b =
      (if b = ?l then Some j else if b = ?r then Some i else heap_position c b)" for b
    using index_okD [OF ok i] index_okD [OF ok j] by (auto simp: s modify_position)
  have heap: "expire_heap (heap_swap c i j) = ?h" by (simp add: s)
  show fr: "heap_frame c (heap_swap c i j)"
    unfolding s by (rule heap_frame_trans [OF expire_heap_frame heap_frame_trans [OF modify_frame modify_frame]])
  show "index_ok (heap_swap c i j)"
    unfolding index_ok_def heap pos
    using ok i j ne lr index_ok_inj [OF ok]
    by (auto simp: index_ok_def nth_list_update split: if_splits)
  show "deadlines (heap_swap c i j) = swap_cells (deadlines c) i j"
    using i j unfolding heap_frame_deadlines [OF fr] heap
    by (simp add: deadlines_def swap_cells_def map_update)
  show "mset (expire_heap (heap_swap c i j)) = mset (expire_heap c)"
    unfolding heap using mset_swap [OF j i] by simp
qed

subsection \<open>Sifting\<close>

lemma heap_less_deadlines:
  "i < heap_count c \<Longrightarrow> j < heap_count c \<Longrightarrow>
     heap_less c (expire_heap c ! i) (expire_heap c ! j) \<longleftrightarrow> deadlines c ! i < deadlines c ! j"
  by (simp add: heap_less_def deadlines_def)

lemma length_deadlines [simp]: "length (deadlines c) = heap_count c"
  by (simp add: deadlines_def)

lemma smallest_child_deadlines: "i < heap_count c \<Longrightarrow> smallest_child c i = least_child (deadlines c) i"
  by (auto simp: smallest_child_def least_child_def Let_def heap_less_deadlines)

definition sift_post :: "('m, 'o, 'x) heap_state_scheme \<Rightarrow> ('m, 'o, 'x) heap_state_scheme \<Rightarrow> u64 list \<Rightarrow> bool" where
  "sift_post c c' ks \<longleftrightarrow> index_ok c' \<and> heap_frame c c' \<and> deadlines c' = ks
     \<and> mset (expire_heap c') = mset (expire_heap c)"

lemma sift_post_swap:
  assumes "index_ok c" "i < heap_count c" "j < heap_count c" "i \<noteq> j" "sift_post (heap_swap c i j) c' ks"
  shows "sift_post c c' ks"
  using heap_swap_ok(4) [OF assms(1-4)] assms(5) heap_frame_trans [OF heap_swap_ok(2) [OF assms(1-4)], of c']
  by (simp add: sift_post_def)

lemma heap_sift_up_ok:
  "index_ok c \<Longrightarrow> i < heap_count c \<Longrightarrow> sift_post c (heap_sift_up c i) (up_list (deadlines c) i)"
proof (induction c i rule: heap_sift_up.induct)
  case (1 c i)
  show ?case
  proof (cases "0 < i \<and> deadlines c ! i < deadlines c ! parent i")
    case True
    then have p: "parent i < heap_count c" "i \<noteq> parent i" "0 < i" using "1.prems"(2) by auto
    have less: "heap_less c (expire_heap c ! i) (expire_heap c ! parent i)"
      using True heap_less_deadlines [OF "1.prems"(2) p(1)] by simp
    have "sift_post (heap_swap c i (parent i)) (heap_sift_up (heap_swap c i (parent i)) (parent i))
        (up_list (deadlines (heap_swap c i (parent i))) (parent i))"
      using "1.IH" [of "parent i"] p less heap_swap_ok(1) [OF "1.prems" p(1,2)] by simp
    then have "sift_post c (heap_sift_up (heap_swap c i (parent i)) (parent i))
        (up_list (swap_cells (deadlines c) i (parent i)) (parent i))"
      using sift_post_swap [OF "1.prems" p(1,2)] heap_swap_ok(3) [OF "1.prems" p(1,2)] by simp
    moreover have "heap_sift_up c i = heap_sift_up (heap_swap c i (parent i)) (parent i)"
      using p less by (subst heap_sift_up.simps) (simp add: Let_def)
    moreover have "up_list (deadlines c) i = up_list (swap_cells (deadlines c) i (parent i)) (parent i)"
      using True by (subst up_list.simps) simp
    ultimately show ?thesis by simp
  next
    case False
    have "heap_sift_up c i = c"
      using False heap_less_deadlines [OF "1.prems"(2), of "parent i"] "1.prems"(2)
      by (subst heap_sift_up.simps) (auto simp: Let_def)
    moreover have "up_list (deadlines c) i = deadlines c"
      using False by (subst up_list.simps) auto
    ultimately show ?thesis using "1.prems" by (simp add: sift_post_def)
  qed
qed

lemma heap_sift_down_ok:
  "index_ok c \<Longrightarrow> i < heap_count c \<Longrightarrow> sift_post c (heap_sift_down c i) (down_list (deadlines c) i)"
proof (induction c i rule: heap_sift_down.induct)
  case (1 c i)
  note sc = smallest_child_deadlines [OF "1.prems"(2)]
  show ?case
  proof (cases "smallest_child c i = i")
    case True
    have "heap_sift_down c i = c" using True by (subst heap_sift_down.simps) (simp add: Let_def)
    moreover have "down_list (deadlines c) i = deadlines c"
      using True sc by (subst down_list.simps) (simp add: Let_def)
    ultimately show ?thesis using "1.prems" by (simp add: sift_post_def)
  next
    case False
    let ?s = "smallest_child c i"
    have s: "?s < heap_count c" "i \<noteq> ?s" using smallest_child_cases [of c i] False by auto
    have "sift_post (heap_swap c i ?s) (heap_sift_down (heap_swap c i ?s) ?s)
        (down_list (deadlines (heap_swap c i ?s)) ?s)"
      using "1.IH" [OF refl False] heap_swap_ok(1) [OF "1.prems" s] s by simp
    then have "sift_post c (heap_sift_down (heap_swap c i ?s) ?s)
        (down_list (swap_cells (deadlines c) i ?s) ?s)"
      using sift_post_swap [OF "1.prems" s] heap_swap_ok(3) [OF "1.prems" s] by simp
    moreover have "heap_sift_down c i = heap_sift_down (heap_swap c i ?s) ?s"
      using False by (subst heap_sift_down.simps) (simp add: Let_def)
    moreover have "down_list (deadlines c) i = down_list (swap_cells (deadlines c) i ?s) ?s"
      using False sc by (subst down_list.simps) (simp add: Let_def)
    ultimately show ?thesis by simp
  qed
qed

text \<open>Both repairs after the key at \<open>i\<close> was replaced.\<close>

lemma heap_repair_ok:
  assumes idx: "index_ok c" and i: "i < heap_count c" and h: "is_heap ks"
    and d: "deadlines c = ks[i := k]"
    and less: "0 < i \<Longrightarrow> less_parent \<longleftrightarrow> k < ks ! parent i"
  shows "heap_ok (if 0 < i \<and> less_parent then heap_sift_up c i else heap_sift_down c i)
    \<and> heap_frame c (if 0 < i \<and> less_parent then heap_sift_up c i else heap_sift_down c i)
    \<and> mset (expire_heap (if 0 < i \<and> less_parent then heap_sift_up c i else heap_sift_down c i))
      = mset (expire_heap c)"
proof -
  have len: "i < length ks" using i d length_deadlines [of c] by (metis length_list_update)
  show ?thesis
  proof (cases "0 < i \<and> less_parent")
    case True
    then have "heap_up_to (ks[i := k]) i" using heap_replaced(1) [OF h len] less by blast
    with up_list_heap [of i "ks[i := k]"] len heap_sift_up_ok [OF idx i] d True show ?thesis
      by (simp add: sift_post_def heap_ok_def)
  next
    case False
    then have "heap_down_to (ks[i := k]) i" using heap_replaced(2) [OF h len] less by blast
    with down_list_heap [of i "ks[i := k]"] len heap_sift_down_ok [OF idx i] d False show ?thesis
      by (auto simp: sift_post_def heap_ok_def)
  qed
qed

subsection \<open>The operations on a heap\<close>

lemma heap_insert_reserved_ok:
  assumes ok: "heap_ok c" and e: "entries c a \<noteq> None" and p: "heap_position c a = None"
  shows "heap_ok (heap_insert_reserved c a) \<and> heap_frame c (heap_insert_reserved c a)
    \<and> mset (expire_heap (heap_insert_reserved c a)) = add_mset a (mset (expire_heap c))"
proof -
  let ?n = "heap_count c"
  let ?d = "modify a (set_heap_index (Some ?n)) (c\<lparr>expire_heap := expire_heap c @ [a]\<rparr>)"
  note idx = ok [unfolded heap_ok_def, THEN conjunct1]
  have notin: "a \<noteq> expire_heap c ! i" if "i < ?n" for i using index_okD [OF idx that] p by auto
  have "heap_position ?d b = Some k \<longleftrightarrow> k < heap_count ?d \<and> expire_heap ?d ! k = b" for b k
  proof (cases "b = a")
    case True
    then show ?thesis using e notin [of k] by (auto simp: modify_position nth_append)
  next
    case False
    then show ?thesis using idx by (auto simp: modify_position nth_append index_ok_def)
  qed
  then have "index_ok ?d" unfolding index_ok_def by blast
  moreover have fr: "heap_frame c ?d" by (rule heap_frame_trans [OF expire_heap_frame modify_frame])
  ultimately have sp: "sift_post ?d (heap_sift_up ?d ?n) (up_list (deadlines ?d) ?n)"
    by (intro heap_sift_up_ok) simp_all
  have "deadlines ?d = deadlines c @ [expire_at_ms (entry c a)]"
    unfolding heap_frame_deadlines [OF fr] by (simp add: deadlines_def)
  with ok heap_append [of "deadlines c" "expire_at_ms (entry c a)"]
  have "is_heap (up_list (deadlines ?d) ?n)"
    by (intro up_list_heap) (simp_all add: heap_ok_def)
  with sp heap_frame_trans [OF fr] show ?thesis
    by (auto simp: heap_insert_reserved_def Let_def sift_post_def heap_ok_def)
qed

lemma heap_expiration_changed_ok:
  assumes idx: "index_ok c" and p: "heap_position c a = Some i" and h: "is_heap ks"
    and d: "deadlines c = ks[i := expire_at_ms (entry c a)]"
  shows "heap_ok (heap_expiration_changed c a) \<and> heap_frame c (heap_expiration_changed c a)
    \<and> mset (expire_heap (heap_expiration_changed c a)) = mset (expire_heap c)"
proof -
  have i: "i < heap_count c" "expire_heap c ! i = a" using idx p by (auto simp: index_ok_def)
  have "the (heap_index (entry c a)) = i"
    using p by (auto simp: heap_position_def entry_def bind_eq_Some_conv)
  then have eq: "heap_expiration_changed c a =
      (if 0 < i \<and> heap_less c a (expire_heap c ! parent i) then heap_sift_up c i else heap_sift_down c i)"
    by (simp add: heap_expiration_changed_def Let_def)
  have "heap_less c a (expire_heap c ! parent i) \<longleftrightarrow> expire_at_ms (entry c a) < ks ! parent i" if "0 < i"
  proof -
    have "parent i < heap_count c" "parent i \<noteq> i" using i that by auto
    moreover from this have "deadlines c ! parent i = ks ! parent i" by (simp add: d)
    ultimately show ?thesis by (simp add: heap_less_def deadlines_def)
  qed
  from heap_repair_ok [OF idx i(1) h d this] show ?thesis unfolding eq by blast
qed

text \<open>Dropping the last cell, and moving the last cell to \<open>i\<close>.\<close>

lemma drop_last_ok:
  assumes idx: "index_ok c" and n: "0 < heap_count c" and a: "a = expire_heap c ! (heap_count c - 1)"
  shows "index_ok (modify a (set_heap_index None) (c\<lparr>expire_heap := butlast (expire_heap c)\<rparr>))"
    (is "index_ok ?d")
proof -
  have pos: "heap_position ?d b = (if b = a then None else heap_position c b)" for b
    using index_okD(2) [OF idx, of "heap_count c - 1"] n a by (simp add: modify_position)
  have "heap_position ?d b = Some k \<longleftrightarrow> k < heap_count ?d \<and> expire_heap ?d ! k = b" for b k
  proof (cases "b = a")
    case True
    have "expire_heap c ! k \<noteq> a" if "k < heap_count c - 1"
      using index_ok_inj [OF idx, of k "heap_count c - 1"] that n a by auto
    with True pos show ?thesis by (auto simp: nth_butlast)
  next
    case False
    then have "heap_position ?d b = Some k \<longleftrightarrow> k < heap_count c \<and> expire_heap c ! k = b"
      using idx pos by (simp add: index_ok_def)
    moreover have "k < heap_count c \<and> expire_heap c ! k = b \<longleftrightarrow> k < heap_count c - 1 \<and> expire_heap c ! k = b"
      using False a by (metis Suc_pred' less_Suc_eq n less_SucI)
    ultimately show ?thesis by (auto simp: nth_butlast)
  qed
  then show ?thesis unfolding index_ok_def by blast
qed

lemma move_last_ok:
  assumes idx: "index_ok c" and i: "i < heap_count c - 1"
    and a: "a = expire_heap c ! i" and l: "l = expire_heap c ! (heap_count c - 1)"
  shows "index_ok (modify l (set_heap_index (Some i))
    ((modify a (set_heap_index None) (c\<lparr>expire_heap := butlast (expire_heap c)\<rparr>))
      \<lparr>expire_heap := (butlast (expire_heap c))[i := l]\<rparr>))" (is "index_ok ?d")
proof -
  have n: "i < heap_count c" "heap_count c - 1 < heap_count c" using i by simp_all
  have al: "a \<noteq> l" using index_ok_inj [OF idx n] i a l by auto
  have pos: "heap_position ?d b = (if b = l then Some i else if b = a then None else heap_position c b)" for b
    using index_okD(2) [OF idx n(1)] index_okD(2) [OF idx n(2)] a l by (auto simp: modify_position)
  have heap: "expire_heap ?d ! k = (if k = i then l else expire_heap c ! k)" if "k < heap_count c - 1" for k
    using that i by (simp add: nth_list_update nth_butlast)
  have old: "heap_position c b = Some k \<longleftrightarrow> k < heap_count c \<and> expire_heap c ! k = b" for b k
    using idx by (simp add: index_ok_def)
  have inj: "expire_heap c ! k = expire_heap c ! j \<Longrightarrow> k = j" if "k < heap_count c" "j < heap_count c" for k j
    using index_ok_inj [OF idx that] .
  have "heap_position ?d b = Some k \<longleftrightarrow> k < heap_count c - 1 \<and> expire_heap ?d ! k = b" for b k
  proof (cases "k < heap_count c - 1")
    case False
    have "k < heap_count c \<Longrightarrow> k = heap_count c - 1" using False by simp
    then have "k < heap_count c \<Longrightarrow> expire_heap c ! k = l" using l by metis
    with False pos old [of b k] i al show ?thesis by auto
  next
    case True
    then have k: "k < heap_count c" by simp
    have "expire_heap c ! k \<noteq> l" using inj [OF k n(2)] True l by auto
    moreover have "expire_heap c ! k = a \<longleftrightarrow> k = i" using inj [OF k n(1)] a by auto
    ultimately show ?thesis using heap [OF True] pos old [of b k] k True al by auto
  qed
  then show ?thesis unfolding index_ok_def by simp
qed

lemma heap_remove_at_ok:
  assumes ok: "heap_ok c" and i: "i < heap_count c"
  shows "heap_ok (heap_remove_at c i) \<and> heap_frame c (heap_remove_at c i)
    \<and> mset (expire_heap c) = add_mset (expire_heap c ! i) (mset (expire_heap (heap_remove_at c i)))"
proof -
  note idx = ok [unfolded heap_ok_def, THEN conjunct1]
  let ?n = "heap_count c - 1" and ?a = "expire_heap c ! i"
  let ?l = "expire_heap c ! ?n"
  let ?c1 = "modify ?a (set_heap_index None) (c\<lparr>expire_heap := butlast (expire_heap c)\<rparr>)"
  have hb: "is_heap (butlast (deadlines c))" using ok heap_butlast [of "deadlines c"] by (simp add: heap_ok_def)
  have split: "expire_heap c = butlast (expire_heap c) @ [?l]"
    using i by (cases "expire_heap c" rule: rev_cases) simp_all
  have f1: "heap_frame c ?c1" by (rule heap_frame_trans [OF expire_heap_frame modify_frame])
  show ?thesis
  proof (cases "i = ?n")
    case True
    have r: "heap_remove_at c i = ?c1" using i True by (simp add: heap_remove_at_def Let_def)
    have "deadlines ?c1 = butlast (deadlines c)"
      unfolding heap_frame_deadlines [OF f1] by (simp add: deadlines_def map_butlast)
    moreover have "index_ok ?c1" by (rule drop_last_ok [OF idx]) (use i True in auto)
    ultimately have "heap_ok ?c1" using hb by (simp add: heap_ok_def)
    moreover have "mset (expire_heap c) = add_mset ?a (mset (expire_heap ?c1))"
      using True by (subst split) simp
    ultimately show ?thesis using f1 r by simp
  next
    case False
    then have lt: "i < ?n" using i by simp
    let ?c2 = "modify ?l (set_heap_index (Some i)) (?c1\<lparr>expire_heap := (butlast (expire_heap c))[i := ?l]\<rparr>)"
    have f2: "heap_frame c ?c2"
      by (rule heap_frame_trans [OF f1 heap_frame_trans [OF expire_heap_frame modify_frame]])
    have idx2: "index_ok ?c2" by (rule move_last_ok [OF idx lt refl refl])
    have d2: "deadlines ?c2 = (butlast (deadlines c))[i := expire_at_ms (entry c ?l)]"
      unfolding heap_frame_deadlines [OF f2] by (simp add: deadlines_def map_butlast map_update)
    have cnt: "i < heap_count ?c2" using lt by simp
    have less: "heap_less ?c2 (expire_heap ?c2 ! i) (expire_heap ?c2 ! parent i) \<longleftrightarrow>
        expire_at_ms (entry c ?l) < butlast (deadlines c) ! parent i" if "0 < i"
    proof -
      have "parent i < heap_count ?c2" "parent i \<noteq> i" using lt that by auto
      with heap_less_deadlines [OF cnt, of "parent i"] lt show ?thesis unfolding d2 by simp
    qed
    have r: "heap_remove_at c i =
       (if 0 < i \<and> heap_less ?c2 (expire_heap ?c2 ! i) (expire_heap ?c2 ! parent i)
        then heap_sift_up ?c2 i else heap_sift_down ?c2 i)"
      using i False by (simp add: heap_remove_at_def Let_def)
    note rep = heap_repair_ok [OF idx2 cnt hb d2 less, folded r]
    have "mset (expire_heap c) = add_mset ?a (mset ((butlast (expire_heap c))[i := ?l]))"
    proof -
      have "butlast (expire_heap c) ! i = ?a" using lt by (simp add: nth_butlast)
      moreover have "mset ((butlast (expire_heap c))[i := ?l])
          = add_mset ?l (mset (butlast (expire_heap c)) - {#butlast (expire_heap c) ! i#})"
        using lt by (simp add: mset_update)
      moreover have "butlast (expire_heap c) ! i \<in># mset (butlast (expire_heap c))" using lt by simp
      ultimately show ?thesis by (subst split) simp
    qed
    with rep heap_frame_trans [OF f2] show ?thesis by auto
  qed
qed

end
