(* ===== verification/Lru.thy ===== *)
theory Lru
  imports ExpireHeap
begin

text \<open>
  The recency list of the cache (\<open>lru_*\<close> of \<open>src/src/cache/cache.c\<close>): a doubly linked list
  through the entries, most recently used first.  The list is kept only when the cache has a
  limit (\<open>lru_enabled\<close>).  The pointers are related to the list of addresses they represent by
  \<open>lru_list\<close>.
\<close>

record ('m, 'o) lru_state = "('m, 'o) heap_state" +
  lru_head :: "nat option"
  lru_tail :: "nat option"
  lru_enabled :: bool

subsection \<open>Operations\<close>

definition set_previous :: "nat option \<Rightarrow> ('m, 'o) cache_entry \<Rightarrow> ('m, 'o) cache_entry" where
  "set_previous p e = e\<lparr>lru_previous := p\<rparr>"

definition set_next :: "nat option \<Rightarrow> ('m, 'o) cache_entry \<Rightarrow> ('m, 'o) cache_entry" where
  "set_next n e = e\<lparr>lru_next := n\<rparr>"

definition lru_unlink :: "('m, 'o, 'x) lru_state_scheme \<Rightarrow> nat \<Rightarrow> ('m, 'o, 'x) lru_state_scheme" where
  "lru_unlink c a =
     (if \<not> lru_enabled c then c
      else
        let c = (case lru_previous (entry c a) of
                   Some p \<Rightarrow> modify p (set_next (lru_next (entry c a))) c
                 | None \<Rightarrow> c\<lparr>lru_head := lru_next (entry c a)\<rparr>);
            c = (case lru_next (entry c a) of
                   Some n \<Rightarrow> modify n (set_previous (lru_previous (entry c a))) c
                 | None \<Rightarrow> c\<lparr>lru_tail := lru_previous (entry c a)\<rparr>);
            c = modify a (set_previous None) c
        in modify a (set_next None) c)"

definition lru_link_head :: "('m, 'o, 'x) lru_state_scheme \<Rightarrow> nat \<Rightarrow> ('m, 'o, 'x) lru_state_scheme" where
  "lru_link_head c a =
     (if \<not> lru_enabled c then c
      else
        let c = modify a (set_previous None) c;
            c = modify a (set_next (lru_head c)) c;
            c = (case lru_head c of
                   Some h \<Rightarrow> modify h (set_previous (Some a)) c
                 | None \<Rightarrow> c\<lparr>lru_tail := Some a\<rparr>)
        in c\<lparr>lru_head := Some a\<rparr>)"

definition lru_touch :: "('m, 'o, 'x) lru_state_scheme \<Rightarrow> nat \<Rightarrow> ('m, 'o, 'x) lru_state_scheme" where
  "lru_touch c a =
     (if \<not> lru_enabled c then c
      else if lru_head c = Some a then c
      else lru_link_head (lru_unlink c a) a)"

subsection \<open>The list the pointers represent\<close>

fun first_of :: "nat list \<Rightarrow> nat option \<Rightarrow> nat option" where
  "first_of [] n = n"
| "first_of (x # xs) n = Some x"

definition last_of :: "nat list \<Rightarrow> nat option \<Rightarrow> nat option" where
  "last_of xs p = (if xs = [] then p else Some (last xs))"

fun links :: "('m, 'o, 'x) heap_state_scheme \<Rightarrow> nat option \<Rightarrow> nat list \<Rightarrow> nat option \<Rightarrow> bool" where
  "links c p [] n = True"
| "links c p (x # xs) n =
     (case entries c x of
        None \<Rightarrow> False
      | Some e \<Rightarrow> lru_previous e = p \<and> lru_next e = first_of xs n \<and> links c (Some x) xs n)"

definition lru_list :: "('m, 'o, 'x) lru_state_scheme \<Rightarrow> nat list \<Rightarrow> bool" where
  "lru_list c xs \<longleftrightarrow> distinct xs \<and> lru_head c = first_of xs None \<and> lru_tail c = last_of xs None
     \<and> links c None xs None"

lemma first_of_append [simp]: "first_of (xs @ ys) n = first_of xs (first_of ys n)"
  by (cases xs) simp_all

lemma last_of_simps [simp]: "last_of [] p = p" "last_of (x # xs) p = last_of xs (Some x)"
  "last_of (xs @ ys) p = last_of ys (last_of xs p)"
  by (auto simp: last_of_def)

lemma links_append: "links c p (xs @ ys) n \<longleftrightarrow> links c p xs (first_of ys n) \<and> links c (last_of xs p) ys n"
  by (induction xs arbitrary: p) (auto split: option.splits)

lemma links_entries: "links c p xs n \<Longrightarrow> x \<in> set xs \<Longrightarrow> entries c x \<noteq> None"
  by (induction xs arbitrary: p) (auto split: option.splits)

text \<open>The links depend on the entries of the list only, and on their two pointers only.\<close>

lemma links_cong:
  "(\<And>x. x \<in> set xs \<Longrightarrow> map_option (\<lambda>e. (lru_previous e, lru_next e)) (entries c' x) =
      map_option (\<lambda>e. (lru_previous e, lru_next e)) (entries c x)) \<Longrightarrow>
     links c' p xs n = links c p xs n"
proof (induction xs arbitrary: p)
  case Nil
  then show ?case by simp
next
  case (Cons x xs)
  have "links c' (Some x) xs n = links c (Some x) xs n" by (rule Cons.IH) (use Cons.prems in simp)
  with Cons.prems [of x] show ?case by (auto split: option.splits)
qed

lemma links_modify_other: "x \<notin> set xs \<Longrightarrow> links (modify x f c) p xs n = links c p xs n"
  by (rule links_cong) (auto simp: modify_def)

lemma links_set_next:
  "links c p xs n \<Longrightarrow> distinct xs \<Longrightarrow> xs \<noteq> [] \<Longrightarrow> links (modify (last xs) (set_next n') c) p xs n'"
proof (induction xs arbitrary: p)
  case Nil
  then show ?case by simp
next
  case (Cons x xs)
  show ?case
  proof (cases "xs = []")
    case True
    with Cons.prems show ?thesis by (auto simp: modify_def set_next_def split: option.splits)
  next
    case False
    have ne: "last xs \<noteq> x" using Cons.prems False by auto
    have "links (modify (last xs) (set_next n') c) (Some x) xs n'"
      by (rule Cons.IH) (use Cons.prems False in \<open>auto split: option.splits\<close>)
    moreover have "first_of xs n' = first_of xs n" using False by (cases xs) auto
    ultimately show ?thesis using Cons.prems False ne by (auto simp: modify_def split: option.splits)
  qed
qed

lemma links_set_previous:
  "links c p (x # xs) n \<Longrightarrow> x \<notin> set xs \<Longrightarrow> links (modify x (set_previous p') c) p' (x # xs) n"
  by (cases "entries c x") (auto simp: links_modify_other entries_modify set_previous_def)

lemma links_ends [simp]:
  "links (c\<lparr>lru_head := h\<rparr>) p xs n = links c p xs n" "links (c\<lparr>lru_tail := t\<rparr>) p xs n = links c p xs n"
  by (rule links_cong, simp)+

lemma modify_ends [simp]:
  "lru_head (modify a f c) = lru_head c" "lru_tail (modify a f c) = lru_tail c"
  "lru_enabled (modify a f c) = lru_enabled c"
  by (simp_all add: modify_def)

subsection \<open>Frame\<close>

text \<open>A list operation changes only the two pointers of entries and the two ends.\<close>

definition clear_links :: "('m, 'o) cache_entry \<Rightarrow> ('m, 'o) cache_entry" where
  "clear_links e = e\<lparr>lru_previous := None, lru_next := None\<rparr>"

definition lru_view :: "('m, 'o, 'x) heap_state_scheme \<Rightarrow> nat \<Rightarrow> ('m, 'o) cache_entry option" where
  "lru_view c a = map_option clear_links (entries c a)"

definition lru_frame :: "('m, 'o, 'x) lru_state_scheme \<Rightarrow> ('m, 'o, 'x) lru_state_scheme \<Rightarrow> bool" where
  "lru_frame c c' \<longleftrightarrow> c' = c\<lparr>entries := entries c', lru_head := lru_head c', lru_tail := lru_tail c'\<rparr>
     \<and> lru_view c' = lru_view c"

lemma lru_frame_refl [simp]: "lru_frame c c"
  by (simp add: lru_frame_def)

lemma lru_frame_trans:
  assumes "lru_frame c d" "lru_frame d e"
  shows "lru_frame c e"
proof -
  from assms have d: "d = c\<lparr>entries := entries d, lru_head := lru_head d, lru_tail := lru_tail d\<rparr>"
    and e: "e = d\<lparr>entries := entries e, lru_head := lru_head e, lru_tail := lru_tail e\<rparr>"
    and v: "lru_view e = lru_view c" by (simp_all add: lru_frame_def)
  have "d\<lparr>entries := x, lru_head := y, lru_tail := z\<rparr> = c\<lparr>entries := x, lru_head := y, lru_tail := z\<rparr>" for x y z
    by (subst d) simp
  with e have "e = c\<lparr>entries := entries e, lru_head := lru_head e, lru_tail := lru_tail e\<rparr>" by simp
  with v show ?thesis by (simp add: lru_frame_def)
qed

lemma clear_links_simps [simp]:
  "clear_links (set_previous p e) = clear_links e" "clear_links (set_next n e) = clear_links e"
  "expire_at_ms (clear_links e) = expire_at_ms e" "heap_index (clear_links e) = heap_index e"
  "memory_charge (clear_links e) = memory_charge e" "object_items (clear_links e) = object_items e"
  "object (clear_links e) = object e" "index_node (clear_links e) = index_node e"
  by (simp_all add: clear_links_def set_previous_def set_next_def)

lemma lru_view_modify [simp]:
  "lru_view (modify a (set_previous p) c) = lru_view c" "lru_view (modify a (set_next n) c) = lru_view c"
  by (auto simp: lru_view_def modify_def fun_eq_iff option.map_comp comp_def)

lemma lru_frame_modify [simp]:
  "lru_frame c (modify a (set_previous p) c)" "lru_frame c (modify a (set_next n) c)"
  using lru_view_modify(1) [of a p c] lru_view_modify(2) [of a n c]
  by (simp_all add: lru_frame_def) (simp_all add: modify_def)

lemma lru_frame_ends [simp]:
  "lru_frame c (c\<lparr>lru_head := h\<rparr>)" "lru_frame c (c\<lparr>lru_tail := t\<rparr>)"
  by (simp_all add: lru_frame_def lru_view_def [abs_def])

subsection \<open>Correctness\<close>

lemma lru_list_split:
  assumes l: "lru_list c xs" and a: "a \<in> set xs"
  obtains ys zs e where "xs = ys @ a # zs" "a \<notin> set ys" "a \<notin> set zs" "entries c a = Some e"
    "lru_previous e = last_of ys None" "lru_next e = first_of zs None"
    "links c None ys (Some a)" "links c (Some a) zs None"
proof -
  obtain ys zs where xs: "xs = ys @ a # zs" using a by (meson split_list)
  with l have "links c None (ys @ a # zs) None" "distinct (ys @ a # zs)" by (auto simp: lru_list_def)
  with xs that show ?thesis by (auto simp: links_append split: option.splits)
qed

lemma lru_unlink_steps:
  assumes en: "lru_enabled c" and e: "entries c a = Some e"
    and p: "lru_previous e \<noteq> Some a" and n: "lru_next e \<noteq> Some a"
  shows "lru_unlink c a =
    (let c1 = (case lru_previous e of Some p \<Rightarrow> modify p (set_next (lru_next e)) c
                | None \<Rightarrow> c\<lparr>lru_head := lru_next e\<rparr>);
         c2 = (case lru_next e of Some n \<Rightarrow> modify n (set_previous (lru_previous e)) c1
                | None \<Rightarrow> c1\<lparr>lru_tail := lru_previous e\<rparr>)
     in modify a (set_next None) (modify a (set_previous None) c2))"
proof -
  let ?c1 = "case lru_previous e of Some p \<Rightarrow> modify p (set_next (lru_next e)) c
                | None \<Rightarrow> c\<lparr>lru_head := lru_next e\<rparr>"
  have "entry c a = e" using e by (simp add: entry_def)
  moreover have "entry ?c1 a = e"
    using e p by (auto simp: entry_def entries_modify split: option.splits)
  ultimately show ?thesis
    using en by (cases "lru_previous e"; cases "lru_next e") (simp_all add: lru_unlink_def Let_def)
qed

lemma lru_unlink_list:
  assumes en: "lru_enabled c" and l: "lru_list c xs" and a: "a \<in> set xs"
  shows "lru_list (lru_unlink c a) (remove1 a xs)" "lru_frame c (lru_unlink c a)"
proof -
  from lru_list_split [OF l a] obtain ys zs e where xs: "xs = ys @ a # zs"
    and an: "a \<notin> set ys" "a \<notin> set zs" and e: "entries c a = Some e"
    and pn: "lru_previous e = last_of ys None" "lru_next e = first_of zs None"
    and ly: "links c None ys (Some a)" and lz: "links c (Some a) zs None" by metis
  have d: "distinct (ys @ a # zs)" and hd: "lru_head c = first_of xs None" and tl: "lru_tail c = last_of xs None"
    using l xs by (auto simp: lru_list_def)
  define c1 where "c1 = (case last_of ys None of Some p \<Rightarrow> modify p (set_next (first_of zs None)) c
                | None \<Rightarrow> c\<lparr>lru_head := first_of zs None\<rparr>)"
  define c2 where "c2 = (case first_of zs None of Some n \<Rightarrow> modify n (set_previous (last_of ys None)) c1
                | None \<Rightarrow> c1\<lparr>lru_tail := last_of ys None\<rparr>)"
  have ne: "last_of ys None \<noteq> Some a" "first_of zs None \<noteq> Some a"
    using an by (auto simp: last_of_def) (cases zs; auto)
  have u: "lru_unlink c a = modify a (set_next None) (modify a (set_previous None) c2)"
    using lru_unlink_steps [OF en e, unfolded pn, OF ne] unfolding c2_def c1_def Let_def .
  have y1: "links c1 None ys (first_of zs None)"
    using links_set_next [OF ly, of "first_of zs None"] d
    by (cases "ys = []") (auto simp: c1_def last_of_def)
  have lastz: "ys \<noteq> [] \<Longrightarrow> last ys \<notin> set zs" using d by (metis disjoint_iff distinct_append last_in_set list.set_intros(2))
  have z1: "links c1 (Some a) zs None"
    using lz lastz by (cases "ys = []") (auto simp: c1_def last_of_def links_modify_other)
  have y2: "links c2 None ys (first_of zs None)"
    using y1 d by (cases zs) (auto simp: c2_def links_modify_other)
  have z2: "links c2 (last_of ys None) zs None"
    using z1 d links_set_previous [of c1 "Some a" _ _ None "last_of ys None"]
    by (cases zs) (auto simp: c2_def)
  have "links (lru_unlink c a) None (ys @ zs) None"
    using y2 z2 an by (simp add: u links_append links_modify_other)
  moreover have "lru_head (lru_unlink c a) = first_of (ys @ zs) None"
    using hd xs by (cases ys; cases zs) (auto simp: u c2_def c1_def modify_def last_of_def)
  moreover have "lru_tail (lru_unlink c a) = last_of (ys @ zs) None"
    using tl xs by (cases "ys = []"; cases zs) (auto simp: u c2_def c1_def modify_def last_of_def)
  moreover have "remove1 a xs = ys @ zs" using an by (simp add: xs remove1_append)
  ultimately show "lru_list (lru_unlink c a) (remove1 a xs)" using d by (simp add: lru_list_def)
  have "lru_frame c c1" by (auto simp: c1_def split: option.splits)
  moreover have "lru_frame c1 c2" by (auto simp: c2_def split: option.splits)
  ultimately have "lru_frame c c2" by (rule lru_frame_trans)
  then show "lru_frame c (lru_unlink c a)"
    unfolding u
    by (rule lru_frame_trans [OF _ lru_frame_trans [OF lru_frame_modify(1) lru_frame_modify(2)]])
qed

lemma lru_link_head_list:
  assumes en: "lru_enabled c" and l: "lru_list c xs" and a: "a \<notin> set xs" and e: "entries c a \<noteq> None"
  shows "lru_list (lru_link_head c a) (a # xs)" "lru_frame c (lru_link_head c a)"
proof -
  define c1 where "c1 = modify a (set_next (first_of xs None)) (modify a (set_previous None) c)"
  define c2 where "c2 = (case first_of xs None of Some h \<Rightarrow> modify h (set_previous (Some a)) c1
     | None \<Rightarrow> c1\<lparr>lru_tail := Some a\<rparr>)"
  have hd: "lru_head c = first_of xs None" using l by (simp add: lru_list_def)
  have u: "lru_link_head c a = c2\<lparr>lru_head := Some a\<rparr>"
    using en hd by (cases xs) (simp_all add: lru_link_head_def Let_def c2_def c1_def)
  have x1: "links c1 None xs None" using l a by (simp add: c1_def lru_list_def links_modify_other)
  have x2: "links c2 (Some a) xs None"
    using x1 l links_set_previous [of c1 None _ _ None "Some a"]
    by (cases xs) (auto simp: c2_def lru_list_def)
  have "links c2 None (a # xs) None"
    using x2 e a by (cases xs) (auto simp: c2_def c1_def entries_modify set_previous_def set_next_def
        split: option.splits)
  then have "links (c2\<lparr>lru_head := Some a\<rparr>) None (a # xs) None" by (simp only: links_ends)
  moreover have "lru_tail c2 = last_of (a # xs) None"
    using l by (cases xs) (auto simp: c2_def c1_def modify_def lru_list_def)
  ultimately show "lru_list (lru_link_head c a) (a # xs)"
    using l a by (simp add: u lru_list_def del: links.simps)
  have "lru_frame c c1"
    unfolding c1_def by (rule lru_frame_trans [OF lru_frame_modify(1) lru_frame_modify(2)])
  moreover have "lru_frame c1 c2" by (auto simp: c2_def split: option.splits)
  ultimately have "lru_frame c c2" by (rule lru_frame_trans)
  then show "lru_frame c (lru_link_head c a)"
    unfolding u by (rule lru_frame_trans [OF _ lru_frame_ends(1)])
qed

lemma lru_frame_enabled: "lru_frame c c' \<Longrightarrow> lru_enabled c' = lru_enabled c"
proof -
  assume "lru_frame c c'"
  then obtain x y z where "c' = c\<lparr>entries := x, lru_head := y, lru_tail := z\<rparr>"
    unfolding lru_frame_def by blast
  then show ?thesis by simp
qed

lemma lru_touch_list:
  assumes en: "lru_enabled c" and l: "lru_list c xs" and a: "a \<in> set xs"
  shows "lru_list (lru_touch c a) (a # remove1 a xs)" "lru_frame c (lru_touch c a)"
proof -
  have "lru_list (lru_touch c a) (a # remove1 a xs) \<and> lru_frame c (lru_touch c a)"
  proof (cases "lru_head c = Some a")
    case True
    then have "xs = a # tl xs" using l a by (cases xs) (auto simp: lru_list_def)
    then have "a # remove1 a xs = xs" by (metis remove1.simps(2))
    with True l en show ?thesis by (simp add: lru_touch_def)
  next
    case False
    note u = lru_unlink_list [OF en l a]
    have d: "distinct xs" using l by (simp add: lru_list_def)
    then have "a \<notin> set (remove1 a xs)" by simp
    moreover have "entries (lru_unlink c a) a \<noteq> None"
    proof -
      have "entries c a \<noteq> None" using l a links_entries by (auto simp: lru_list_def)
      moreover have "lru_view (lru_unlink c a) a = lru_view c a" using u(2) by (simp add: lru_frame_def)
      ultimately show ?thesis by (auto simp: lru_view_def)
    qed
    ultimately have "lru_list (lru_link_head (lru_unlink c a) a) (a # remove1 a xs)"
      "lru_frame (lru_unlink c a) (lru_link_head (lru_unlink c a) a)"
      using lru_link_head_list [of "lru_unlink c a" "remove1 a xs" a] u lru_frame_enabled [OF u(2)] en
      by blast+
    with lru_frame_trans [OF u(2) this(2)] False en show ?thesis by (simp add: lru_touch_def)
  qed
  then show "lru_list (lru_touch c a) (a # remove1 a xs)" "lru_frame c (lru_touch c a)" by auto
qed

text \<open>When the list is not kept, nothing happens.\<close>

lemma lru_disabled [simp]:
  "\<not> lru_enabled c \<Longrightarrow> lru_unlink c a = c" "\<not> lru_enabled c \<Longrightarrow> lru_link_head c a = c"
  "\<not> lru_enabled c \<Longrightarrow> lru_touch c a = c"
  by (simp_all add: lru_unlink_def lru_link_head_def lru_touch_def)

subsection \<open>Heap and list do not interfere\<close>

lemma lru_view_fields:
  assumes "lru_view c' = lru_view c"
  shows "heap_position c' a = heap_position c a" "entries c' a = None \<longleftrightarrow> entries c a = None"
    "expire_at_ms (entry c' a) = expire_at_ms (entry c a)"
proof -
  have v: "map_option clear_links (entries c' a) = map_option clear_links (entries c a)"
    using assms by (metis lru_view_def)
  show "entries c' a = None \<longleftrightarrow> entries c a = None" using v by auto
  have "heap_index e' = heap_index e \<and> expire_at_ms e' = expire_at_ms e"
    if "clear_links e' = clear_links e" for e e' :: "('a, 'b) cache_entry"
    using arg_cong [OF that, of heap_index] arg_cong [OF that, of expire_at_ms] by simp
  note same = this
  have "heap_position c' a = heap_position c a \<and> expire_at_ms (entry c' a) = expire_at_ms (entry c a)"
  proof (cases "entries c a")
    case None
    with v have "entries c' a = None" by simp
    with None show ?thesis by (simp add: heap_position_def entry_def)
  next
    case (Some e)
    with v obtain e' where e': "entries c' a = Some e'" "clear_links e' = clear_links e" by auto
    with Some same [OF e'(2)] show ?thesis by (simp add: heap_position_def entry_def)
  qed
  then show "heap_position c' a = heap_position c a" "expire_at_ms (entry c' a) = expire_at_ms (entry c a)"
    by simp_all
qed

lemma lru_frame_heap:
  assumes f: "lru_frame c c'"
  shows "expire_heap c' = expire_heap c" "heap_ok c' = heap_ok c"
proof -
  show h: "expire_heap c' = expire_heap c"
  proof -
    from f obtain x y z where "c' = c\<lparr>entries := x, lru_head := y, lru_tail := z\<rparr>"
      unfolding lru_frame_def by blast
    then show ?thesis by simp
  qed
  show "heap_ok c' = heap_ok c"
    using lru_view_fields [of c' c] f h
    by (simp add: heap_ok_def index_ok_def deadlines_def lru_frame_def)
qed

lemma heap_frame_links:
  assumes f: "heap_frame c c'"
  shows "links c' p xs n = links c p xs n"
proof (rule links_cong)
  fix x
  have v: "map_option (set_heap_index None) (entries c' x) = map_option (set_heap_index None) (entries c x)"
    using f by (metis heap_frame_def heap_view_def)
  have "lru_previous e' = lru_previous e \<and> lru_next e' = lru_next e"
    if "set_heap_index None e' = set_heap_index None e" for e e' :: "('a, 'b) cache_entry"
    using arg_cong [OF that, of lru_previous] arg_cong [OF that, of lru_next] by (simp add: set_heap_index_def)
  note same = this
  show "map_option (\<lambda>e. (lru_previous e, lru_next e)) (entries c' x) =
      map_option (\<lambda>e. (lru_previous e, lru_next e)) (entries c x)"
  proof (cases "entries c x")
    case None
    with v show ?thesis by simp
  next
    case (Some e)
    with v obtain e' where e': "entries c' x = Some e'" "set_heap_index None e' = set_heap_index None e" by auto
    with Some same [OF e'(2)] show ?thesis by simp
  qed
qed

lemma heap_frame_ends:
  assumes f: "heap_frame c c'"
  shows "lru_head c' = lru_head c" "lru_tail c' = lru_tail c" "lru_enabled c' = lru_enabled c"
proof -
  from f have "c' = c\<lparr>entries := entries c', expire_heap := expire_heap c'\<rparr>" by (simp add: heap_frame_def)
  then obtain x y where "c' = c\<lparr>entries := x, expire_heap := y\<rparr>" by blast
  then show "lru_head c' = lru_head c" "lru_tail c' = lru_tail c" "lru_enabled c' = lru_enabled c" by simp_all
qed

lemma heap_frame_list: "heap_frame c c' \<Longrightarrow> lru_list c' xs = lru_list c xs"
  using heap_frame_links [of c c'] heap_frame_ends [of c c'] by (simp add: lru_list_def)

end
