(* ===== verification/Cache.thy ===== *)
theory Cache
  imports Lru
begin

text \<open>
  The cache (\<open>src/src/cache/cache.c\<close>): the hash-table index from keys to entries, the expiration
  heap, the recency list, limits, statistics and the eviction callback.  The clock
  (\<open>config.now_ms\<close>) is a parameter: each operation gets the answers of the calls it makes.
  \<open>evict_log\<close> is the sequence of keys passed to the eviction callback.  Allocator answers are
  parameters; a new entry is placed at the address the allocator returns.
\<close>

subsection \<open>State\<close>

datatype removal_reason = REMOVE_NORMAL | REMOVE_EXPIRED | REMOVE_EVICTED

datatype cache_set_result = CACHE_SET_ERROR | CACHE_SET_OK | CACHE_SET_CAPACITY | CACHE_SET_RANGE

record ('m, 'o) cache = "('m, 'o) lru_state" +
  index :: "nat hashtable"
  used_memory :: u64
  max_keys :: nat
  max_memory :: u64
  on_evict :: bool
  evict_log :: "bytes list"
  hits :: u64
  misses :: u64
  expired_keys :: u64
  evicted_keys :: u64
  string_keys :: u64
  hash_keys :: u64
  zset_keys :: u64
  hash_fields :: u64
  zset_members :: u64
  hash_hot_entry :: "nat option"
  hash_hot_key :: bytes

record cache_alloc =
  entry_allocated :: "nat option"
  heap_allocated :: bool
  index_allocated :: hash_alloc

definition sizeof_cache_entry :: nat where "sizeof_cache_entry = 64"

subsection \<open>Charges and statistics\<close>

definition object_item_count :: "('m, 'o) kv_object \<Rightarrow> nat" where
  "object_item_count obj =
     (if kv_object_type obj = HASH_TYPE then kv_object_hash_length obj
      else if kv_object_type obj = ZSET_TYPE then kv_object_zset_length obj
      else 0)"

definition entry_memory_charge :: "nat \<Rightarrow> ('m, 'o) kv_object \<Rightarrow> u64" where
  "entry_memory_charge key_length obj =
     (let node_charge = kv_hash_node_memory_for_key key_length;
          object_charge = kv_object_memory_usage obj in
      if node_charge = UINT64_MAX then UINT64_MAX
      else if of_nat sizeof_cache_entry > UINT64_MAX - node_charge \<or>
              object_charge > UINT64_MAX - of_nat sizeof_cache_entry - node_charge then UINT64_MAX
      else of_nat sizeof_cache_entry + node_charge + object_charge)"

definition stats_add_object ::
  "('m, 'o, 'x) cache_scheme \<Rightarrow> ('m, 'o) kv_object \<Rightarrow> nat \<Rightarrow> ('m, 'o, 'x) cache_scheme" where
  "stats_add_object c obj items = (case kv_object_type obj of
     STRING_TYPE \<Rightarrow> c\<lparr>string_keys := string_keys c + 1\<rparr>
   | HASH_TYPE \<Rightarrow> c\<lparr>hash_keys := hash_keys c + 1, hash_fields := hash_fields c + of_nat items\<rparr>
   | ZSET_TYPE \<Rightarrow> c\<lparr>zset_keys := zset_keys c + 1, zset_members := zset_members c + of_nat items\<rparr>)"

definition stats_remove_object ::
  "('m, 'o, 'x) cache_scheme \<Rightarrow> ('m, 'o) kv_object \<Rightarrow> nat \<Rightarrow> ('m, 'o, 'x) cache_scheme" where
  "stats_remove_object c obj items = (case kv_object_type obj of
     STRING_TYPE \<Rightarrow> c\<lparr>string_keys := string_keys c - 1\<rparr>
   | HASH_TYPE \<Rightarrow> c\<lparr>hash_keys := hash_keys c - 1, hash_fields := hash_fields c - of_nat items\<rparr>
   | ZSET_TYPE \<Rightarrow> c\<lparr>zset_keys := zset_keys c - 1, zset_members := zset_members c - of_nat items\<rparr>)"

subsection \<open>Removal and lookup\<close>

text \<open>The index node of an entry, as the node pointer \<open>index_node\<close> denotes it.\<close>

definition node_of :: "bytes \<Rightarrow> nat \<Rightarrow> nat kv_hash_node" where
  "node_of key a = \<lparr>node_key = key, hash_code = hash_bytes key, payload = a\<rparr>"

definition free_entry :: "nat \<Rightarrow> ('m, 'o, 'x) cache_scheme \<Rightarrow> ('m, 'o, 'x) cache_scheme" where
  "free_entry a c = c\<lparr>entries := (entries c)(a := None)\<rparr>"

definition entry_remove ::
  "('m, 'o, 'x) cache_scheme \<Rightarrow> nat \<Rightarrow> removal_reason \<Rightarrow> ('m, 'o, 'x) cache_scheme" where
  "entry_remove c a reason =
     (let c = (if hash_hot_entry c = Some a then c\<lparr>hash_hot_entry := None, hash_hot_key := []\<rparr> else c);
          c = (if reason = REMOVE_EVICTED \<and> on_evict c
               then c\<lparr>evict_log := evict_log c @ [index_node (entry c a)]\<rparr> else c);
          c = (case heap_index (entry c a) of None \<Rightarrow> c | Some i \<Rightarrow> heap_remove_at c i);
          c = lru_unlink c a;
          c = c\<lparr>index := fst (kv_hash_remove_node (index c) (node_of (index_node (entry c a)) a))\<rparr>;
          c = c\<lparr>used_memory := used_memory c - memory_charge (entry c a)\<rparr>;
          c = (if reason = REMOVE_EXPIRED then c\<lparr>expired_keys := expired_keys c + 1\<rparr>
               else if reason = REMOVE_EVICTED then c\<lparr>evicted_keys := evicted_keys c + 1\<rparr>
               else c);
          c = stats_remove_object c (object (entry c a)) (object_items (entry c a))
      in free_entry a c)"

text \<open>\<open>reading\<close> is the answer of the clock when it is called here.\<close>

definition find_live ::
  "('m, 'o, 'x) cache_scheme \<Rightarrow> bytes \<Rightarrow> u64 \<Rightarrow> u64 \<Rightarrow> ('m, 'o, 'x) cache_scheme \<times> nat option" where
  "find_live c key now reading =
     (let c = c\<lparr>index := fst (kv_hash_rehash_step (index c) 1)\<rparr> in
      case kv_hash_find (index c) key of
        None \<Rightarrow> (c, None)
      | Some node \<Rightarrow>
          let a = payload node; e = entry c a;
              now = (if expire_at_ms e \<noteq> 0 \<and> now = UINT64_MAX then reading else now) in
          if expire_at_ms e \<noteq> 0 \<and> now \<ge> expire_at_ms e
          then (entry_remove c a REMOVE_EXPIRED, None)
          else (c, Some a))"

definition limits_exceeded :: "('m, 'o, 'x) cache_scheme \<Rightarrow> nat \<Rightarrow> u64 \<Rightarrow> bool" where
  "limits_exceeded c projected_keys projected_memory \<longleftrightarrow>
     (max_keys c \<noteq> 0 \<and> projected_keys > max_keys c) \<or>
     (max_memory c \<noteq> 0 \<and> projected_memory > max_memory c)"

definition eviction_candidate :: "('m, 'o, 'x) cache_scheme \<Rightarrow> nat \<Rightarrow> nat option" where
  "eviction_candidate c protected_entry =
     (if lru_tail c = Some protected_entry then lru_previous (entry c protected_entry) else lru_tail c)"

text \<open>The flags answer for the structure, the index and its buckets.\<close>

definition cache_create :: "bool \<Rightarrow> bool \<Rightarrow> bool \<Rightarrow> nat \<Rightarrow> u64 \<Rightarrow> ('m, 'o) cache option" where
  "cache_create allocated index_struct index_buckets keys memory =
     (if \<not> allocated then None
      else case kv_hash_create index_struct index_buckets of
        None \<Rightarrow> None
      | Some t \<Rightarrow> Some
          \<lparr>entries = (\<lambda>_. None), expire_heap = [], heap_capacity = 0,
           lru_head = None, lru_tail = None, lru_enabled = (keys \<noteq> 0 \<or> memory \<noteq> 0),
           index = t, used_memory = 0, max_keys = keys, max_memory = memory,
           on_evict = False, evict_log = [], hits = 0, misses = 0, expired_keys = 0, evicted_keys = 0,
           string_keys = 0, hash_keys = 0, zset_keys = 0, hash_fields = 0, zset_members = 0,
           hash_hot_entry = None, hash_hot_key = []\<rparr>)"

definition cache_set_eviction_callback :: "('m, 'o, 'x) cache_scheme \<Rightarrow> bool \<Rightarrow> ('m, 'o, 'x) cache_scheme" where
  "cache_set_eviction_callback c installed = c\<lparr>on_evict := installed\<rparr>"

subsection \<open>Storing\<close>

text \<open>
  The eviction loops of \<open>cache_store_object\<close> and \<open>cache_recharge_ref\<close>.  The limit is checked
  against \<open>memory_of c projected\<close> (the projected or the used memory).  \<open>reread\<close> tells whether the
  loop asks the clock when \<open>now\<close> is still unknown; \<open>reading\<close> is the answer.  The boolean is
  \<open>False\<close> when there was no candidate; the result \<open>None\<close> is a loop that does not end.
\<close>

partial_function (option) evict_loop ::
  "(('m, 'o, 'x) cache_scheme \<Rightarrow> u64 \<Rightarrow> u64) \<Rightarrow> bool \<Rightarrow> nat \<Rightarrow> u64
     \<Rightarrow> ('m, 'o, 'x) cache_scheme \<Rightarrow> u64 \<Rightarrow> u64 \<Rightarrow> (('m, 'o, 'x) cache_scheme \<times> u64 \<times> bool) option" where
  "evict_loop memory_of reread protected_entry reading c projected now =
     (if limits_exceeded c (kv_hash_count (index c)) (memory_of c projected) then
        case eviction_candidate c protected_entry of
          None \<Rightarrow> Some (c, projected, False)
        | Some candidate \<Rightarrow>
            let e = entry c candidate;
                now = (if reread \<and> expire_at_ms e \<noteq> 0 \<and> now = UINT64_MAX then reading else now);
                expired = (expire_at_ms e \<noteq> 0 \<and> now \<ge> expire_at_ms e)
            in evict_loop memory_of reread protected_entry reading
                 (entry_remove c candidate (if expired then REMOVE_EXPIRED else REMOVE_EVICTED))
                 (projected - memory_charge e) now
      else Some (c, projected, True))"

definition set_object :: "('m, 'o) kv_object \<Rightarrow> ('m, 'o) cache_entry \<Rightarrow> ('m, 'o) cache_entry" where
  "set_object obj e = e\<lparr>object := obj\<rparr>"

definition set_expire :: "u64 \<Rightarrow> ('m, 'o) cache_entry \<Rightarrow> ('m, 'o) cache_entry" where
  "set_expire t e = e\<lparr>expire_at_ms := t\<rparr>"

text \<open>The deadline update shared by the two ways of replacing a value.\<close>

definition store_expiration ::
  "('m, 'o, 'x) cache_scheme \<Rightarrow> nat \<Rightarrow> u64 \<Rightarrow> ('m, 'o, 'x) cache_scheme" where
  "store_expiration c a expire_at =
     (let c = (if expire_at_ms (entry c a) \<noteq> 0 \<and> expire_at = 0 then
                 heap_remove_at c (the (heap_index (entry c a)))
               else if expire_at_ms (entry c a) = 0 \<and> expire_at \<noteq> 0 then
                 heap_insert_reserved (modify a (set_expire expire_at) c) a
               else if expire_at_ms (entry c a) \<noteq> 0 \<and> expire_at \<noteq> 0 then
                 heap_expiration_changed (modify a (set_expire expire_at) c) a
               else c);
          c = modify a (set_expire expire_at) c
      in lru_touch c a)"

definition replace_object ::
  "('m, 'o, 'x) cache_scheme \<Rightarrow> nat \<Rightarrow> ('m, 'o) kv_object \<Rightarrow> nat \<Rightarrow> u64 \<Rightarrow> ('m, 'o, 'x) cache_scheme" where
  "replace_object c a obj items charge =
     (let c = c\<lparr>used_memory := used_memory c - memory_charge (entry c a) + charge\<rparr>;
          c = stats_remove_object c (object (entry c a)) (object_items (entry c a));
          c = modify a (\<lambda>e. e\<lparr>object := obj, object_items := items\<rparr>) c;
          c = stats_add_object c obj items
      in modify a (\<lambda>e. e\<lparr>memory_charge := charge\<rparr>) c)"

text \<open>The branch of \<open>cache_store_object\<close> for a key that is present at address \<open>a\<close>.\<close>

definition store_existing ::
  "(nat \<Rightarrow> u64) \<Rightarrow> ('m, 'o, 'x) cache_scheme \<Rightarrow> nat \<Rightarrow> ('m, 'o) kv_object \<Rightarrow> nat \<Rightarrow> u64 \<Rightarrow> u64 \<Rightarrow> u64
     \<Rightarrow> (('m, 'o, 'x) cache_scheme \<times> cache_set_result) option" where
  "store_existing clock c a obj new_items new_charge expire_at now =
     (let updated = (case (object_value (object (entry c a)), object_value obj) of
                       (KV_OBJECT_STRING _ _, KV_OBJECT_STRING v _) \<Rightarrow>
                         kv_object_string_update (object (entry c a)) v
                     | _ \<Rightarrow> (object (entry c a), 0)) in
      if snd updated < 0 then Some (c, CACHE_SET_ERROR)
      else if snd updated > 0 then
        Some (store_expiration (modify a (set_object (fst updated)) c) a expire_at, CACHE_SET_OK)
      else
        case evict_loop (\<lambda>c p. p) True a (clock 2) c
               (used_memory c - memory_charge (entry c a) + new_charge) now of
          None \<Rightarrow> None
        | Some (c, p, False) \<Rightarrow> Some (c, CACHE_SET_CAPACITY)
        | Some (c, p, True) \<Rightarrow>
            Some (store_expiration (replace_object c a obj new_items new_charge) a expire_at, CACHE_SET_OK))"

text \<open>The branch for an absent key.\<close>

definition store_new ::
  "cache_alloc \<Rightarrow> (nat \<Rightarrow> u64) \<Rightarrow> ('m, 'o, 'x) cache_scheme \<Rightarrow> bytes \<Rightarrow> ('m, 'o) kv_object \<Rightarrow> nat \<Rightarrow> u64 \<Rightarrow> u64
     \<Rightarrow> u64 \<Rightarrow> (('m, 'o, 'x) cache_scheme \<times> cache_set_result) option" where
  "store_new alloc clock c key obj new_items new_charge expire_at now =
     (case (if expire_at \<noteq> 0 then heap_reserve (heap_allocated alloc) c (heap_count c + 1) else Some c) of
        None \<Rightarrow> Some (c, CACHE_SET_ERROR)
      | Some c \<Rightarrow>
          (case entry_allocated alloc of
             None \<Rightarrow> Some (c, CACHE_SET_ERROR)
           | Some a \<Rightarrow>
               (case kv_hash_insert (index_allocated alloc) (index c) key a of
                  (t, None) \<Rightarrow> Some (c\<lparr>index := t\<rparr>, CACHE_SET_ERROR)
                | (t, Some node) \<Rightarrow>
                    let e = \<lparr>object = obj, memory_charge = new_charge, object_items = new_items,
                             expire_at_ms = expire_at, heap_index = None, index_node = node_key node,
                             lru_previous = None, lru_next = None\<rparr>;
                        c = c\<lparr>index := t, entries := (entries c)(a := Some e)\<rparr>;
                        c = stats_add_object c obj new_items;
                        c = lru_link_head c a;
                        c = c\<lparr>used_memory := used_memory c + new_charge\<rparr>;
                        c = (if expire_at \<noteq> 0 then heap_insert_reserved c a else c) in
                    (case evict_loop (\<lambda>c p. used_memory c) True a (clock 2) c 0 now of
                       None \<Rightarrow> None
                     | Some (c, p, True) \<Rightarrow> Some (c, CACHE_SET_OK)
                     | Some (c, p, False) \<Rightarrow>
                         let c = stats_remove_object c obj new_items;
                             c = (case heap_index (entry c a) of None \<Rightarrow> c | Some i \<Rightarrow> heap_remove_at c i);
                             c = lru_unlink c a;
                             c = c\<lparr>index := fst (kv_hash_remove_node (index c)
                                    (node_of (index_node (entry c a)) a))\<rparr>;
                             c = c\<lparr>used_memory := used_memory c - memory_charge (entry c a)\<rparr>
                         in Some (free_entry a c, CACHE_SET_CAPACITY)))))"

text \<open>
  \<open>clock 0\<close> is the answer at the start, \<open>clock 1\<close> the one in \<open>find_live\<close>, \<open>clock 2\<close> the one in
  an eviction loop.
\<close>

definition cache_store_object ::
  "cache_alloc \<Rightarrow> (nat \<Rightarrow> u64) \<Rightarrow> ('m, 'o, 'x) cache_scheme \<Rightarrow> bytes \<Rightarrow> ('m, 'o) kv_object \<Rightarrow> u64 \<Rightarrow> bool
     \<Rightarrow> (('m, 'o, 'x) cache_scheme \<times> cache_set_result) option" where
  "cache_store_object alloc clock c key obj expire_at_ms' preserve_existing_ttl =
     (let now = (if expire_at_ms' \<noteq> 0 then clock 0 else UINT64_MAX);
          new_charge = entry_memory_charge (length key) obj;
          new_items = object_item_count obj in
      if new_charge = UINT64_MAX \<or> (max_memory c \<noteq> 0 \<and> new_charge > max_memory c)
      then Some (c, CACHE_SET_CAPACITY)
      else case find_live c key now (clock 1) of
        (c, None) \<Rightarrow> store_new alloc clock c key obj new_items new_charge expire_at_ms' now
      | (c, Some a) \<Rightarrow>
          let expire_at = (if preserve_existing_ttl then expire_at_ms (entry c a) else expire_at_ms') in
          (case (if expire_at \<noteq> 0 \<and> expire_at_ms (entry c a) = 0
                 then heap_reserve (heap_allocated alloc) c (heap_count c + 1) else Some c) of
             None \<Rightarrow> Some (c, CACHE_SET_ERROR)
           | Some c \<Rightarrow> store_existing clock c a obj new_items new_charge expire_at now))"

definition cache_set_expire_at ::
  "bool \<Rightarrow> cache_alloc \<Rightarrow> (nat \<Rightarrow> u64) \<Rightarrow> ('m, 'o, 'x) cache_scheme \<Rightarrow> bytes \<Rightarrow> bytes \<Rightarrow> u64
     \<Rightarrow> (('m, 'o, 'x) cache_scheme \<times> cache_set_result) option" where
  "cache_set_expire_at object_allocated alloc clock c key v expire_at =
     (case kv_object_create_string object_allocated v of
        None \<Rightarrow> Some (c, CACHE_SET_ERROR)
      | Some obj \<Rightarrow> cache_store_object alloc clock c key obj expire_at False)"

text \<open>\<open>now\<close> is the clock's answer for the relative deadline, \<open>clock\<close> the later answers.\<close>

definition cache_set ::
  "bool \<Rightarrow> cache_alloc \<Rightarrow> u64 \<Rightarrow> (nat \<Rightarrow> u64) \<Rightarrow> ('m, 'o, 'x) cache_scheme \<Rightarrow> bytes \<Rightarrow> bytes \<Rightarrow> u64
     \<Rightarrow> (('m, 'o, 'x) cache_scheme \<times> cache_set_result) option" where
  "cache_set object_allocated alloc now clock c key v ttl_ms =
     (let now = (if ttl_ms = 0 then 0 else now) in
      if ttl_ms \<noteq> 0 \<and> ttl_ms > UINT64_MAX - now then Some (c, CACHE_SET_RANGE)
      else cache_set_expire_at object_allocated alloc clock c key v
             (if ttl_ms = 0 then 0 else now + ttl_ms))"

subsection \<open>Reading\<close>

definition cache_get_object_ref ::
  "u64 \<Rightarrow> ('m, 'o, 'x) cache_scheme \<Rightarrow> bytes \<Rightarrow> bool \<Rightarrow> ('m, 'o, 'x) cache_scheme \<times> nat option" where
  "cache_get_object_ref reading c key record_hit_or_miss =
     (case find_live c key UINT64_MAX reading of
        (c, None) \<Rightarrow> (if record_hit_or_miss then c\<lparr>misses := misses c + 1\<rparr> else c, None)
      | (c, Some a) \<Rightarrow>
          (lru_touch (if record_hit_or_miss then c\<lparr>hits := hits c + 1\<rparr> else c) a, Some a))"

definition cache_get_object ::
  "u64 \<Rightarrow> ('m, 'o, 'x) cache_scheme \<Rightarrow> bytes \<Rightarrow> bool \<Rightarrow> ('m, 'o, 'x) cache_scheme \<times> ('m, 'o) kv_object option" where
  "cache_get_object reading c key record_hit_or_miss =
     (case cache_get_object_ref reading c key record_hit_or_miss of
        (c, r) \<Rightarrow> (c, map_option (\<lambda>a. object (entry c a)) r))"

definition cache_get ::
  "u64 \<Rightarrow> ('m, 'o, 'x) cache_scheme \<Rightarrow> bytes \<Rightarrow> ('m, 'o, 'x) cache_scheme \<times> bytes option" where
  "cache_get reading c key =
     (case cache_get_object reading c key True of
        (c, r) \<Rightarrow> (c, Option.bind r kv_object_string_value))"

subsection \<open>Accounting after an in-place change\<close>

definition cache_recharge_ref ::
  "u64 \<Rightarrow> ('m, 'o, 'x) cache_scheme \<Rightarrow> nat option \<Rightarrow> (('m, 'o, 'x) cache_scheme \<times> cache_set_result) option" where
  "cache_recharge_ref reading c entry_ref =
     (case entry_ref of
        None \<Rightarrow> Some (c, CACHE_SET_ERROR)
      | Some a \<Rightarrow>
          let now = (if expire_at_ms (entry c a) \<noteq> 0 then reading else 0) in
          if expire_at_ms (entry c a) \<noteq> 0 \<and> now \<ge> expire_at_ms (entry c a)
          then Some (c, CACHE_SET_ERROR)
          else let new_charge = entry_memory_charge (length (index_node (entry c a))) (object (entry c a)) in
            if new_charge = UINT64_MAX \<or> (max_memory c \<noteq> 0 \<and> new_charge > max_memory c)
            then Some (c, CACHE_SET_CAPACITY)
            else case evict_loop (\<lambda>c p. p) False a 0 c
                        (used_memory c - memory_charge (entry c a) + new_charge) now of
              None \<Rightarrow> None
            | Some (c, projected, False) \<Rightarrow> Some (c, CACHE_SET_CAPACITY)
            | Some (c, projected, True) \<Rightarrow>
                let e = entry c a; new_items = object_item_count (object e);
                    c = (if kv_object_type (object e) = HASH_TYPE then
                           c\<lparr>hash_fields := hash_fields c - of_nat (object_items e) + of_nat new_items\<rparr>
                         else if kv_object_type (object e) = ZSET_TYPE then
                           c\<lparr>zset_members := zset_members c - of_nat (object_items e) + of_nat new_items\<rparr>
                         else c);
                    c = modify a (\<lambda>e. e\<lparr>object_items := new_items\<rparr>) c;
                    c = c\<lparr>used_memory := projected\<rparr>;
                    c = modify a (\<lambda>e. e\<lparr>memory_charge := new_charge\<rparr>) c
                in Some (lru_touch c a, CACHE_SET_OK))"

definition cache_recharge_object ::
  "(nat \<Rightarrow> u64) \<Rightarrow> ('m, 'o, 'x) cache_scheme \<Rightarrow> bytes \<Rightarrow> (('m, 'o, 'x) cache_scheme \<times> cache_set_result) option" where
  "cache_recharge_object clock c key =
     (case find_live c key UINT64_MAX (clock 0) of
        (c, r) \<Rightarrow> cache_recharge_ref (clock 1) c r)"

subsection \<open>Deletion and deadlines\<close>

definition cache_delete ::
  "u64 \<Rightarrow> ('m, 'o, 'x) cache_scheme \<Rightarrow> bytes \<Rightarrow> ('m, 'o, 'x) cache_scheme \<times> int" where
  "cache_delete reading c key =
     (case find_live c key UINT64_MAX reading of
        (c, None) \<Rightarrow> (c, 0)
      | (c, Some a) \<Rightarrow> (entry_remove c a REMOVE_NORMAL, 1))"

definition cache_expire_at ::
  "bool \<Rightarrow> u64 \<Rightarrow> ('m, 'o, 'x) cache_scheme \<Rightarrow> bytes \<Rightarrow> u64 \<Rightarrow> ('m, 'o, 'x) cache_scheme \<times> int" where
  "cache_expire_at heap_ok' now c key expire_at =
     (if expire_at = 0 then cache_delete now c key
      else case find_live c key now now of
        (c, None) \<Rightarrow> (c, 0)
      | (c, Some a) \<Rightarrow>
          if expire_at_ms (entry c a) = 0 then
            (case heap_reserve heap_ok' c (heap_count c + 1) of
               None \<Rightarrow> (c, - 1)
             | Some c \<Rightarrow> (heap_insert_reserved (modify a (set_expire expire_at) c) a, 1))
          else (heap_expiration_changed (modify a (set_expire expire_at) c) a, 1))"

text \<open>\<open>now\<close> is the answer of the clock here, \<open>now'\<close> the one of the operation called.\<close>

definition cache_expire ::
  "bool \<Rightarrow> u64 \<Rightarrow> u64 \<Rightarrow> ('m, 'o, 'x) cache_scheme \<Rightarrow> bytes \<Rightarrow> u64 \<Rightarrow> ('m, 'o, 'x) cache_scheme \<times> int" where
  "cache_expire heap_ok' now now' c key ttl_ms =
     (if ttl_ms = 0 then cache_delete now' c key
      else if ttl_ms > UINT64_MAX - now then (c, - 2)
      else cache_expire_at heap_ok' now' c key (now + ttl_ms))"

definition cache_persist ::
  "u64 \<Rightarrow> ('m, 'o, 'x) cache_scheme \<Rightarrow> bytes \<Rightarrow> ('m, 'o, 'x) cache_scheme \<times> int" where
  "cache_persist reading c key =
     (case find_live c key UINT64_MAX reading of
        (c, None) \<Rightarrow> (c, 0)
      | (c, Some a) \<Rightarrow>
          if expire_at_ms (entry c a) = 0 then (c, 0)
          else (modify a (set_expire 0) (heap_remove_at c (the (heap_index (entry c a)))), 1))"

definition cache_ttl_ms ::
  "u64 \<Rightarrow> ('m, 'o, 'x) cache_scheme \<Rightarrow> bytes \<Rightarrow> ('m, 'o, 'x) cache_scheme \<times> int" where
  "cache_ttl_ms now c key =
     (case find_live c key now now of
        (c, None) \<Rightarrow> (c, - 2)
      | (c, Some a) \<Rightarrow>
          if expire_at_ms (entry c a) = 0 then (c, - 1)
          else let remaining = expire_at_ms (entry c a) - now in
            (c, if remaining > 9223372036854775807 then 9223372036854775807 else uint remaining))"

subsection \<open>Maintenance and statistics\<close>

function expire_loop ::
  "('m, 'o, 'x) cache_scheme \<Rightarrow> u64 \<Rightarrow> nat \<Rightarrow> nat \<Rightarrow> ('m, 'o, 'x) cache_scheme \<times> nat" where
  "expire_loop c now expire_budget expired =
     (if expired < expire_budget \<and> heap_count c > 0 then
        let a = expire_heap c ! 0 in
        if expire_at_ms (entry c a) > now then (c, expired)
        else expire_loop (entry_remove c a REMOVE_EXPIRED) now expire_budget (expired + 1)
      else (c, expired))"
  by pat_completeness auto
termination
  by (relation "measure (\<lambda>(c, now, expire_budget, expired). expire_budget - expired)") auto

declare expire_loop.simps [simp del]

definition cache_maintain ::
  "u64 \<Rightarrow> ('m, 'o, 'x) cache_scheme \<Rightarrow> nat \<Rightarrow> nat \<Rightarrow> ('m, 'o, 'x) cache_scheme \<times> nat" where
  "cache_maintain now c expire_budget rehash_budget =
     (case expire_loop c now expire_budget 0 of
        (c, expired) \<Rightarrow> (c\<lparr>index := fst (kv_hash_rehash_step (index c) rehash_budget)\<rparr>, expired))"

record cache_stats =
  stat_keys :: nat
  stat_used_memory :: u64
  stat_index_memory :: u64
  stat_max_keys :: nat
  stat_max_memory :: u64
  stat_hits :: u64
  stat_misses :: u64
  stat_expired_keys :: u64
  stat_evicted_keys :: u64
  stat_hash_slots :: nat
  stat_rehashing :: bool
  stat_string_keys :: u64
  stat_hash_keys :: u64
  stat_zset_keys :: u64
  stat_hash_fields :: u64
  stat_zset_members :: u64

definition cache_get_stats :: "('m, 'o, 'x) cache_scheme \<Rightarrow> cache_stats" where
  "cache_get_stats c =
     \<lparr>stat_keys = kv_hash_count (index c), stat_used_memory = used_memory c,
      stat_index_memory = kv_hash_index_memory (index c) + of_nat (heap_capacity c) * of_nat sizeof_pointer,
      stat_max_keys = max_keys c, stat_max_memory = max_memory c,
      stat_hits = hits c, stat_misses = misses c, stat_expired_keys = expired_keys c,
      stat_evicted_keys = evicted_keys c, stat_hash_slots = kv_hash_slot_count (index c),
      stat_rehashing = kv_hash_is_rehashing (index c), stat_string_keys = string_keys c,
      stat_hash_keys = hash_keys c, stat_zset_keys = zset_keys c,
      stat_hash_fields = hash_fields c, stat_zset_members = zset_members c\<rparr>"

text \<open>Visits keys, objects and deadlines in index order until the callback stops it.\<close>

definition cache_visit ::
  "('m, 'o, 'x) cache_scheme \<Rightarrow> (bytes \<Rightarrow> ('m, 'o) kv_object \<Rightarrow> u64 \<Rightarrow> 'c \<Rightarrow> 'c \<times> bool) \<Rightarrow> 'c \<Rightarrow> 'c \<times> bool" where
  "cache_visit c callback context =
     visit_nodes (\<lambda>node. callback (node_key node) (object (entry c (payload node)))
                            (expire_at_ms (entry c (payload node))))
       (iterator_collect (index c) kv_hash_iterator_begin) context"

definition find_live_hash ::
  "u64 \<Rightarrow> ('m, 'o, 'x) cache_scheme \<Rightarrow> bytes \<Rightarrow> ('m, 'o, 'x) cache_scheme \<times> nat option" where
  "find_live_hash reading c key =
     (case hash_hot_entry c of
        Some a \<Rightarrow>
          if length (hash_hot_key c) = length key \<and> hash_hot_key c = key then
            if expire_at_ms (entry c a) = 0 then (c, Some a)
            else if reading < expire_at_ms (entry c a) then (c, Some a)
            else (entry_remove c a REMOVE_EXPIRED, None)
          else (case find_live c key UINT64_MAX reading of
                  (c, r) \<Rightarrow> (c\<lparr>hash_hot_entry := r, hash_hot_key := (if r = None then [] else key)\<rparr>, r))
      | None \<Rightarrow>
          (case find_live c key UINT64_MAX reading of
             (c, r) \<Rightarrow> (c\<lparr>hash_hot_entry := r, hash_hot_key := (if r = None then [] else key)\<rparr>, r)))"

definition cache_get_hash_object_ref ::
  "u64 \<Rightarrow> ('m, 'o, 'x) cache_scheme \<Rightarrow> bytes \<Rightarrow> bool \<Rightarrow> ('m, 'o, 'x) cache_scheme \<times> nat option" where
  "cache_get_hash_object_ref reading c key record_hit_or_miss =
     (case find_live_hash reading c key of
        (c, None) \<Rightarrow> (if record_hit_or_miss then c\<lparr>misses := misses c + 1\<rparr> else c, None)
      | (c, Some a) \<Rightarrow>
          (lru_touch (if record_hit_or_miss then c\<lparr>hits := hits c + 1\<rparr> else c) a, Some a))"

text \<open>The release loop of \<open>cache_destroy\<close> when the recency list is kept.\<close>

partial_function (option) destroy_loop :: "('m, 'o, 'x) cache_scheme \<Rightarrow> ('m, 'o, 'x) cache_scheme option" where
  "destroy_loop c =
     (case lru_tail c of
        None \<Rightarrow> Some c
      | Some a \<Rightarrow> destroy_loop (entry_remove c a REMOVE_NORMAL))"

definition cache_destroy :: "('m, 'o, 'x) cache_scheme \<Rightarrow> ('m, 'o, 'x) cache_scheme option" where
  "cache_destroy c =
     (if lru_enabled c then
        map_option (\<lambda>c. c\<lparr>index := fst (hash_clear (index c))\<rparr>) (destroy_loop c)
      else
        Some (foldl (\<lambda>c node. free_entry (payload node) c) c
                (iterator_collect (index c) kv_hash_iterator_begin)
              \<lparr>index := fst (hash_clear (index c))\<rparr>))"

end
