(* ===== verification/CacheInv.thy ===== *)
theory CacheInv
  imports Cache
begin

text \<open>
  The invariant that ties the parts of the cache together: index, entries, expiration heap,
  recency list, statistics and the remembered hash entry, and that every operation keeps it.
\<close>

subsection \<open>What the parts share\<close>

text \<open>An entry without the pointers that belong to the heap and the list.\<close>

record ('m, 'o) core =
  core_key :: bytes
  core_object :: "('m, 'o) kv_object"
  core_charge :: u64
  core_items :: nat
  core_expire :: u64

definition core :: "('m, 'o) cache_entry \<Rightarrow> ('m, 'o) core" where
  "core e = \<lparr>core_key = index_node e, core_object = object e, core_charge = memory_charge e,
     core_items = object_items e, core_expire = expire_at_ms e\<rparr>"

lemma core_fields [simp]:
  "core_key (core e) = index_node e" "core_object (core e) = object e"
  "core_charge (core e) = memory_charge e" "core_items (core e) = object_items e"
  "core_expire (core e) = expire_at_ms e"
  by (simp_all add: core_def)

definition core_view :: "('m, 'o, 'x) heap_state_scheme \<Rightarrow> nat \<Rightarrow> ('m, 'o) core option" where
  "core_view c a = map_option core (entries c a)"

lemma core_view_None [simp]: "core_view c a = None \<longleftrightarrow> entries c a = None"
  by (simp add: core_view_def)

lemma dom_core_view [simp]: "dom (core_view c) = dom (entries c)"
  by (auto simp: dom_def)

lemma core_view_Some: "core_view c a = Some d \<longleftrightarrow> (\<exists>e. entries c a = Some e \<and> d = core e)"
  by (auto simp: core_view_def)

lemma core_entry: "core_view c a = Some d \<Longrightarrow> core (entry c a) = d"
  by (auto simp: core_view_def entry_def)

lemma core_entry_fields:
  assumes "core_view c a = Some d"
  shows "index_node (entry c a) = core_key d" "object (entry c a) = core_object d"
    "memory_charge (entry c a) = core_charge d" "object_items (entry c a) = core_items d"
    "expire_at_ms (entry c a) = core_expire d"
  using core_entry [OF assms] core_fields [of "entry c a"] by simp_all

text \<open>Two states that differ in the heap and list pointers only.\<close>

definition cache_frame :: "('m, 'o, 'x) cache_scheme \<Rightarrow> ('m, 'o, 'x) cache_scheme \<Rightarrow> bool" where
  "cache_frame c c' \<longleftrightarrow> core_view c' = core_view c \<and>
     c' = c\<lparr>entries := entries c', expire_heap := expire_heap c', lru_head := lru_head c', lru_tail := lru_tail c'\<rparr>"

lemma cache_frame_refl [simp]: "cache_frame c c"
  by (simp add: cache_frame_def)

lemma cache_frameE:
  assumes "cache_frame c c'"
  obtains x h u v where "c' = c\<lparr>entries := x, expire_heap := h, lru_head := u, lru_tail := v\<rparr>"
    "core_view c' = core_view c"
  using assms unfolding cache_frame_def by blast

lemma cache_frameI:
  "c' = c\<lparr>entries := x, expire_heap := h, lru_head := u, lru_tail := v\<rparr> \<Longrightarrow>
     core_view c' = core_view c \<Longrightarrow> cache_frame c c'"
  unfolding cache_frame_def by simp

lemma cache_frame_trans:
  assumes "cache_frame c d" "cache_frame d e"
  shows "cache_frame c e"
proof -
  from assms(1) obtain x h u v where d: "d = c\<lparr>entries := x, expire_heap := h, lru_head := u, lru_tail := v\<rparr>"
    "core_view d = core_view c" by (rule cache_frameE)
  from assms(2) obtain y k u' v' where e: "e = d\<lparr>entries := y, expire_heap := k, lru_head := u', lru_tail := v'\<rparr>"
    "core_view e = core_view d" by (rule cache_frameE)
  show ?thesis
    by (rule cache_frameI [where x = y and h = k and u = u' and v = v']) (use d e in simp_all)
qed

lemma core_erase_heap: "core (set_heap_index i e) = core e"
  by (simp add: core_def set_heap_index_def)

lemma core_erase_links: "core (clear_links e) = core e"
  by (simp add: core_def clear_links_def)

lemma heap_view_core: "heap_view c' = heap_view c \<Longrightarrow> core_view c' = core_view c"
proof
  fix a assume "heap_view c' = heap_view c"
  then have "map_option core (heap_view c' a) = map_option core (heap_view c a)" by simp
  then show "core_view c' a = core_view c a"
    by (simp add: heap_view_def core_view_def option.map_comp comp_def core_erase_heap)
qed

lemma lru_view_core: "lru_view c' = lru_view c \<Longrightarrow> core_view c' = core_view c"
proof
  fix a assume "lru_view c' = lru_view c"
  then have "map_option core (lru_view c' a) = map_option core (lru_view c a)" by simp
  then show "core_view c' a = core_view c a"
    by (simp add: lru_view_def core_view_def option.map_comp comp_def core_erase_links)
qed

lemma heap_frame_cache:
  assumes "heap_frame c c'"
  shows "cache_frame c c'"
proof -
  obtain x h where c': "c' = c\<lparr>entries := x, expire_heap := h\<rparr>" and v: "heap_view c' = heap_view c"
    using assms unfolding heap_frame_def by blast
  show ?thesis
    by (rule cache_frameI [where x = x and h = h and u = "lru_head c" and v = "lru_tail c"])
      (use c' heap_view_core [OF v] in simp_all)
qed

lemma lru_frame_cache:
  assumes "lru_frame c c'"
  shows "cache_frame c c'"
proof -
  obtain x u v where c': "c' = c\<lparr>entries := x, lru_head := u, lru_tail := v\<rparr>" and w: "lru_view c' = lru_view c"
    using assms unfolding lru_frame_def by blast
  show ?thesis
    by (rule cache_frameI [where x = x and h = "expire_heap c" and u = u and v = v])
      (use c' lru_view_core [OF w] in simp_all)
qed

lemma cache_frame_fields:
  assumes "cache_frame c c'"
  shows "core_view c' = core_view c" "index c' = index c" "used_memory c' = used_memory c"
    "max_keys c' = max_keys c" "max_memory c' = max_memory c" "on_evict c' = on_evict c"
    "evict_log c' = evict_log c" "hits c' = hits c" "misses c' = misses c"
    "expired_keys c' = expired_keys c" "evicted_keys c' = evicted_keys c"
    "string_keys c' = string_keys c" "hash_keys c' = hash_keys c" "zset_keys c' = zset_keys c"
    "hash_fields c' = hash_fields c" "zset_members c' = zset_members c"
    "hash_hot_entry c' = hash_hot_entry c" "hash_hot_key c' = hash_hot_key c"
    "lru_enabled c' = lru_enabled c" "heap_capacity c' = heap_capacity c"
  using assms by (auto elim!: cache_frameE)

lemma cache_frame_dom: "cache_frame c c' \<Longrightarrow> dom (entries c') = dom (entries c)"
  using dom_core_view [of c'] dom_core_view [of c] cache_frame_fields(1) [of c c'] by metis

subsection \<open>Totals\<close>

datatype gauge = Memory | Strings | Hashes | Zsets | Fields | Members

fun weight :: "gauge \<Rightarrow> ('m, 'o) core \<Rightarrow> u64" where
  "weight Memory d = core_charge d"
| "weight Strings d = (if kv_object_type (core_object d) = STRING_TYPE then 1 else 0)"
| "weight Hashes d = (if kv_object_type (core_object d) = HASH_TYPE then 1 else 0)"
| "weight Zsets d = (if kv_object_type (core_object d) = ZSET_TYPE then 1 else 0)"
| "weight Fields d = (if kv_object_type (core_object d) = HASH_TYPE then of_nat (core_items d) else 0)"
| "weight Members d = (if kv_object_type (core_object d) = ZSET_TYPE then of_nat (core_items d) else 0)"

fun gauge_of :: "('m, 'o, 'x) cache_scheme \<Rightarrow> gauge \<Rightarrow> u64" where
  "gauge_of c Memory = used_memory c"
| "gauge_of c Strings = string_keys c"
| "gauge_of c Hashes = hash_keys c"
| "gauge_of c Zsets = zset_keys c"
| "gauge_of c Fields = hash_fields c"
| "gauge_of c Members = zset_members c"

definition total :: "gauge \<Rightarrow> (nat \<Rightarrow> ('m, 'o) core option) \<Rightarrow> u64" where
  "total g m = (\<Sum>a \<in> dom m. weight g (the (m a)))"

lemma total_remove:
  assumes "finite (dom m)" "m a = Some d"
  shows "total g (m(a := None)) = total g m - weight g d"
proof -
  have "total g m = weight g d + (\<Sum>b \<in> dom m - {a}. weight g (the (m b)))"
    unfolding total_def using assms by (subst sum.remove [of _ a]) auto
  moreover have "total g (m(a := None)) = (\<Sum>b \<in> dom m - {a}. weight g (the (m b)))"
    unfolding total_def by (rule sum.cong) auto
  ultimately show ?thesis by simp
qed

lemma total_insert:
  assumes "finite (dom m)" "m a = None"
  shows "total g (m(a \<mapsto> d)) = total g m + weight g d"
proof -
  have "a \<notin> dom m" using assms by auto
  have "total g (m(a \<mapsto> d)) = weight g d + (\<Sum>b \<in> dom m. weight g (the ((m(a \<mapsto> d)) b)))"
    unfolding total_def using sum.insert [OF assms(1) \<open>a \<notin> dom m\<close>, of "\<lambda>b. weight g (the ((m(a \<mapsto> d)) b))"]
    by simp
  also have "(\<Sum>b \<in> dom m. weight g (the ((m(a \<mapsto> d)) b))) = total g m"
    unfolding total_def using \<open>a \<notin> dom m\<close> by (intro sum.cong) auto
  finally show ?thesis by (simp only: add.commute)
qed

lemma total_replace:
  assumes "finite (dom m)" "m a = Some d"
  shows "total g (m(a \<mapsto> d')) = total g m - weight g d + weight g d'"
proof -
  have "total g ((m(a := None))(a \<mapsto> d')) = total g (m(a := None)) + weight g d'"
    by (rule total_insert) (use assms in auto)
  with total_remove [OF assms] show ?thesis by simp
qed

lemma total_empty [simp]: "total g Map.empty = 0"
  by (simp add: total_def)

subsection \<open>Invariant\<close>

definition index_matches :: "(nat \<Rightarrow> ('m, 'o) core option) \<Rightarrow> (bytes \<Rightarrow> nat option) \<Rightarrow> bool" where
  "index_matches m f \<longleftrightarrow> (\<forall>k a. f k = Some a \<longleftrightarrow> (\<exists>d. m a = Some d \<and> core_key d = k))"

definition catalog_ok :: "('m, 'o, 'x) cache_scheme \<Rightarrow> bool" where
  "catalog_ok c \<longleftrightarrow> hash_inv (index c) \<and> index_matches (core_view c) (hash_map (index c))
     \<and> (\<forall>g. gauge_of c g = total g (core_view c))
     \<and> (\<forall>a. hash_hot_entry c = Some a \<longrightarrow> (\<exists>d. core_view c a = Some d \<and> core_key d = hash_hot_key c))
     \<and> lru_enabled c = (max_keys c \<noteq> 0 \<or> max_memory c \<noteq> 0)"

definition heap_matches :: "('m, 'o, 'x) heap_state_scheme \<Rightarrow> bool" where
  "heap_matches c \<longleftrightarrow> heap_ok c \<and>
     set (expire_heap c) = {a. \<exists>d. core_view c a = Some d \<and> core_expire d \<noteq> 0} \<and>
     heap_count c \<le> heap_capacity c"

definition recency_ok :: "('m, 'o, 'x) lru_state_scheme \<Rightarrow> nat list \<Rightarrow> bool" where
  "recency_ok c xs \<longleftrightarrow> (if lru_enabled c then lru_list c xs \<and> set xs = dom (entries c) else xs = [])"

text \<open>\<open>xs\<close> is the recency order, most recent first; empty when the list is not kept.\<close>

definition cache_ok :: "('m, 'o, 'x) cache_scheme \<Rightarrow> nat list \<Rightarrow> bool" where
  "cache_ok c xs \<longleftrightarrow> catalog_ok c \<and> heap_matches c \<and> recency_ok c xs"

definition cache_inv :: "('m, 'o, 'x) cache_scheme \<Rightarrow> bool" where
  "cache_inv c \<longleftrightarrow> (\<exists>xs. cache_ok c xs)"

text \<open>What a key maps to.\<close>

definition content :: "('m, 'o, 'x) cache_scheme \<Rightarrow> bytes \<Rightarrow> ('m, 'o) core option" where
  "content c k = Option.bind (hash_map (index c) k) (core_view c)"

lemma index_matchesD:
  "index_matches m f \<Longrightarrow> f k = Some a \<longleftrightarrow> (\<exists>d. m a = Some d \<and> core_key d = k)"
  by (simp add: index_matches_def)

lemma index_matches_unique:
  assumes m: "index_matches m f" and "m a = Some d" "m b = Some d'" "core_key d = core_key d'"
  shows "a = b"
proof -
  have "f (core_key d) = Some a" "f (core_key d) = Some b"
    using index_matchesD [OF m, of "core_key d"] assms(2-4) by auto
  then show ?thesis by simp
qed

lemma index_matches_dom: "index_matches m f \<Longrightarrow> dom m = ran f"
  by (auto simp: ran_def dom_def index_matchesD)

lemma index_matches_remove:
  assumes m: "index_matches m f" and a: "m a = Some d"
  shows "index_matches (m(a := None)) (f(core_key d := None))"
  unfolding index_matches_def
proof (intro allI)
  fix k b
  note iff = index_matchesD [OF m, of k b]
  have uniq: "b = a" if "m b = Some d'" "core_key d' = core_key d" for d'
    using index_matches_unique [OF m a that(1)] that(2) by simp
  show "(f(core_key d := None)) k = Some b \<longleftrightarrow> (\<exists>d'. (m(a := None)) b = Some d' \<and> core_key d' = k)"
  proof (cases "b = a")
    case True
    then have "f k = Some b \<longleftrightarrow> core_key d = k" using iff a by simp
    with True show ?thesis by simp
  next
    case False
    then have "\<not> (\<exists>d'. m b = Some d' \<and> core_key d' = core_key d)" using uniq by blast
    with False iff show ?thesis by (cases "k = core_key d") simp_all
  qed
qed

lemma index_matches_insert:
  assumes m: "index_matches m f" and a: "m a = None" and k: "f (core_key d) = None"
  shows "index_matches (m(a \<mapsto> d)) (f(core_key d \<mapsto> a))"
  unfolding index_matches_def
proof (intro allI)
  fix k' b
  note iff = index_matchesD [OF m, of k' b]
  show "(f(core_key d \<mapsto> a)) k' = Some b \<longleftrightarrow> (\<exists>d'. (m(a \<mapsto> d)) b = Some d' \<and> core_key d' = k')"
  proof (cases "k' = core_key d")
    case True
    then have "\<not> (\<exists>d'. m b = Some d' \<and> core_key d' = core_key d)" using iff k by simp
    with True show ?thesis by (cases "b = a") simp_all
  next
    case False
    with iff a show ?thesis by (cases "b = a") auto
  qed
qed

lemma index_matches_replace:
  assumes m: "index_matches m f" and a: "m a = Some d" and k: "core_key d' = core_key d"
  shows "index_matches (m(a \<mapsto> d')) f"
  unfolding index_matches_def
proof (intro allI)
  fix k' b
  show "f k' = Some b \<longleftrightarrow> (\<exists>e. (m(a \<mapsto> d')) b = Some e \<and> core_key e = k')"
    using index_matchesD [OF m, of k' b] a k by (cases "b = a") simp_all
qed

lemma cache_finite: "catalog_ok c \<Longrightarrow> finite (dom (entries c))"
  using index_matches_dom [of "core_view c" "hash_map (index c)"]
  by (simp add: catalog_ok_def hash_map_def finite_dom_map_of finite_ran)

lemma card_ran_inj:
  assumes "finite (dom f)" "inj_on f (dom f)"
  shows "card (ran f) = card (dom f)"
proof -
  have "ran f = (\<lambda>x. the (f x)) ` dom f" by (force simp: ran_def)
  moreover have "inj_on (\<lambda>x. the (f x)) (dom f)"
    using assms(2) by (auto simp: inj_on_def dom_def)
  ultimately show ?thesis by (simp add: card_image)
qed

lemma cache_count:
  assumes "catalog_ok c"
  shows "kv_hash_count (index c) = card (dom (entries c))"
proof -
  let ?f = "hash_map (index c)"
  have m: "index_matches (core_view c) ?f" and d: "distinct (map node_key (nodes (index c)))"
    and n: "hash_count (index c) = length (nodes (index c))"
    using assms by (auto simp: catalog_ok_def hash_inv_def)
  have "inj_on ?f (dom ?f)"
  proof (rule inj_onI)
    fix k k' assume "k \<in> dom ?f" and e: "?f k = ?f k'"
    then obtain a where a: "?f k = Some a" by blast
    then have "\<exists>d. core_view c a = Some d \<and> core_key d = k" "\<exists>d. core_view c a = Some d \<and> core_key d = k'"
      using e index_matchesD [OF m, of k a] index_matchesD [OF m, of k' a] by simp_all
    then show "k = k'" by force
  qed
  moreover have "dom ?f = node_key ` set (nodes (index c))"
    by (simp add: hash_map_def dom_map_of_conv_image_fst image_image)
  moreover have "card (node_key ` set (nodes (index c))) = length (nodes (index c))"
    using d by (metis distinct_card length_map set_map)
  ultimately have "card (ran ?f) = length (nodes (index c))"
    using card_ran_inj [of ?f] by simp
  then show ?thesis
    using index_matches_dom [OF m] n by (simp add: kv_hash_count_def)
qed

subsection \<open>Removing an entry\<close>

lemma heap_ok_cong:
  "entries c' = entries c \<Longrightarrow> expire_heap c' = expire_heap c \<Longrightarrow> heap_ok c' = heap_ok c"
  by (simp add: heap_ok_def index_ok_def heap_position_def deadlines_def entry_def)

lemma core_view_cong: "entries c' = entries c \<Longrightarrow> core_view c' = core_view c"
  by (simp add: core_view_def fun_eq_iff)

lemma lru_list_cong:
  assumes "\<And>x. x \<in> set xs \<Longrightarrow> entries c' x = entries c x" "lru_head c' = lru_head c" "lru_tail c' = lru_tail c"
  shows "lru_list c' xs = lru_list c xs"
  using assms links_cong [of xs c' c None None] by (simp add: lru_list_def)

lemma heap_ok_free:
  assumes ok: "heap_ok c" and a: "a \<notin> set (expire_heap c)"
    and e: "entries c' = (entries c)(a := None)" "expire_heap c' = expire_heap c"
  shows "heap_ok c'"
proof -
  have "heap_position c a = None"
    using ok a unfolding heap_ok_def index_ok_def by (metis nth_mem option.exhaust)
  then have "heap_position c' = heap_position c"
    using e(1) by (simp add: heap_position_def fun_eq_iff)
  moreover have "deadlines c' = deadlines c"
    using a e by (auto simp: deadlines_def entry_def)
  ultimately show ?thesis using ok e(2) by (simp add: heap_ok_def index_ok_def)
qed

lemma heap_count_mono:
  "heap_ok c' \<Longrightarrow> heap_ok c \<Longrightarrow> set (expire_heap c') \<subseteq> set (expire_heap c) \<Longrightarrow> heap_count c' \<le> heap_count c"
  by (simp add: heap_ok_def index_ok_distinct card_mono flip: distinct_card)

lemma entry_position:
  assumes m: "heap_matches c" and a: "core_view c a = Some d"
  shows "heap_index (entry c a) = None \<longleftrightarrow> core_expire d = 0"
    "heap_index (entry c a) = Some i \<Longrightarrow> i < heap_count c \<and> expire_heap c ! i = a"
proof -
  have p: "heap_position c a = heap_index (entry c a)"
    using a by (auto simp: heap_position_def entry_def core_view_Some)
  have ix: "heap_position c a = Some i \<longleftrightarrow> i < heap_count c \<and> expire_heap c ! i = a" for i
    using m by (simp add: heap_matches_def heap_ok_def index_ok_def)
  have "a \<in> set (expire_heap c) \<longleftrightarrow> core_expire d \<noteq> 0"
    using m a by (simp add: heap_matches_def)
  then show "heap_index (entry c a) = None \<longleftrightarrow> core_expire d = 0"
    using ix p by (metis in_set_conv_nth not_None_eq)
  show "heap_index (entry c a) = Some i \<Longrightarrow> i < heap_count c \<and> expire_heap c ! i = a"
    using ix [of i] p by simp
qed

lemma heap_remove_entry:
  assumes m: "heap_matches c" and a: "core_view c a = Some d" and i: "heap_index (entry c a) = Some i"
  shows "heap_ok (heap_remove_at c i)" "heap_frame c (heap_remove_at c i)"
    "set (expire_heap (heap_remove_at c i)) = set (expire_heap c) - {a}"
proof -
  note p = entry_position(2) [OF m a i]
  have ok: "heap_ok c" using m by (simp add: heap_matches_def)
  note r = heap_remove_at_ok [OF ok conjunct1 [OF p]]
  then show "heap_ok (heap_remove_at c i)" "heap_frame c (heap_remove_at c i)" by auto
  have ms: "mset (expire_heap c) = add_mset a (mset (expire_heap (heap_remove_at c i)))"
    using r p by simp
  moreover have "distinct (expire_heap c)" using ok by (simp add: heap_ok_def index_ok_distinct)
  ultimately have "distinct (a # expire_heap (heap_remove_at c i))"
    by (metis mset.simps(2) mset_eq_imp_distinct_iff)
  moreover have "set (expire_heap c) = insert a (set (expire_heap (heap_remove_at c i)))"
    using ms by (metis set_mset_add_mset_insert set_mset_mset)
  ultimately show "set (expire_heap (heap_remove_at c i)) = set (expire_heap c) - {a}" by auto
qed

definition drop_deadline :: "('m, 'o, 'x) heap_state_scheme \<Rightarrow> nat \<Rightarrow> ('m, 'o, 'x) heap_state_scheme" where
  "drop_deadline c a = (case heap_index (entry c a) of None \<Rightarrow> c | Some i \<Rightarrow> heap_remove_at c i)"

lemma drop_deadline_ok:
  assumes m: "heap_matches c" and a: "core_view c a = Some d"
  shows "heap_ok (drop_deadline c a) \<and> heap_frame c (drop_deadline c a)
    \<and> set (expire_heap (drop_deadline c a)) = set (expire_heap c) - {a}"
proof (cases "heap_index (entry c a)")
  case None
  then have "a \<notin> set (expire_heap c)" using m a entry_position(1) [OF m a] by (simp add: heap_matches_def)
  with None m show ?thesis by (simp add: drop_deadline_def heap_matches_def)
next
  case (Some i)
  with heap_remove_entry [OF m a Some] show ?thesis by (simp add: drop_deadline_def)
qed

lemma recency_unlink:
  assumes "recency_ok c xs" "entries c a \<noteq> None"
  shows "lru_frame c (lru_unlink c a)"
    "lru_enabled c \<Longrightarrow> lru_list (lru_unlink c a) (remove1 a xs)"
proof -
  show "lru_enabled c \<Longrightarrow> lru_list (lru_unlink c a) (remove1 a xs)"
    using assms lru_unlink_list(1) [of c xs a] by (auto simp: recency_ok_def)
  show "lru_frame c (lru_unlink c a)"
    using assms lru_unlink_list(2) [of c xs a] by (cases "lru_enabled c") (auto simp: recency_ok_def)
qed

text \<open>Detaching an entry from heap and list leaves the rest of the state alone.\<close>

lemma detach_ok:
  assumes m: "heap_matches c" and r: "recency_ok c xs" and a: "core_view c a = Some d"
  defines "c' \<equiv> lru_unlink (drop_deadline c a) a"
  shows "cache_frame c c'" "heap_ok c'" "set (expire_heap c') = set (expire_heap c) - {a}"
    "lru_enabled c \<Longrightarrow> lru_list c' (remove1 a xs)"
proof -
  note h = drop_deadline_ok [OF m a]
  then have f: "cache_frame c (drop_deadline c a)" by (simp add: heap_frame_cache)
  note ff = cache_frame_fields [OF f]
  have r': "recency_ok (drop_deadline c a) xs"
    using r h cache_frame_dom [OF f] ff heap_frame_list [of c "drop_deadline c a" xs]
    by (simp add: recency_ok_def)
  have e: "entries (drop_deadline c a) a \<noteq> None" using a ff(1) core_view_None by (metis option.distinct(1))
  note u = recency_unlink [OF r' e]
  show "cache_frame c c'"
    unfolding c'_def by (rule cache_frame_trans [OF f lru_frame_cache [OF u(1)]])
  show "heap_ok c'" "set (expire_heap c') = set (expire_heap c) - {a}"
    unfolding c'_def using lru_frame_heap [OF u(1)] h by simp_all
  show "lru_enabled c \<Longrightarrow> lru_list c' (remove1 a xs)"
    unfolding c'_def using u(2) ff by simp
qed

lemma stats_simps [simp]:
  "heap_capacity (stats_remove_object c obj n) = heap_capacity c" "heap_capacity (stats_add_object c obj n) = heap_capacity c"
  "entries (stats_remove_object c obj n) = entries c" "entries (stats_add_object c obj n) = entries c"
  "expire_heap (stats_remove_object c obj n) = expire_heap c" "expire_heap (stats_add_object c obj n) = expire_heap c"
  "lru_head (stats_remove_object c obj n) = lru_head c" "lru_head (stats_add_object c obj n) = lru_head c"
  "lru_tail (stats_remove_object c obj n) = lru_tail c" "lru_tail (stats_add_object c obj n) = lru_tail c"
  "lru_enabled (stats_remove_object c obj n) = lru_enabled c" "lru_enabled (stats_add_object c obj n) = lru_enabled c"
  "index (stats_remove_object c obj n) = index c" "index (stats_add_object c obj n) = index c"
  "used_memory (stats_remove_object c obj n) = used_memory c" "used_memory (stats_add_object c obj n) = used_memory c"
  "max_keys (stats_remove_object c obj n) = max_keys c" "max_keys (stats_add_object c obj n) = max_keys c"
  "max_memory (stats_remove_object c obj n) = max_memory c" "max_memory (stats_add_object c obj n) = max_memory c"
  "on_evict (stats_remove_object c obj n) = on_evict c" "on_evict (stats_add_object c obj n) = on_evict c"
  "evict_log (stats_remove_object c obj n) = evict_log c" "evict_log (stats_add_object c obj n) = evict_log c"
  "hits (stats_remove_object c obj n) = hits c" "hits (stats_add_object c obj n) = hits c"
  "misses (stats_remove_object c obj n) = misses c" "misses (stats_add_object c obj n) = misses c"
  "expired_keys (stats_remove_object c obj n) = expired_keys c" "expired_keys (stats_add_object c obj n) = expired_keys c"
  "evicted_keys (stats_remove_object c obj n) = evicted_keys c" "evicted_keys (stats_add_object c obj n) = evicted_keys c"
  "hash_hot_entry (stats_remove_object c obj n) = hash_hot_entry c" "hash_hot_entry (stats_add_object c obj n) = hash_hot_entry c"
  "hash_hot_key (stats_remove_object c obj n) = hash_hot_key c" "hash_hot_key (stats_add_object c obj n) = hash_hot_key c"
  by (simp_all add: stats_remove_object_def stats_add_object_def split: kv_object_type.split)

lemma gauge_remove:
  "gauge_of (stats_remove_object c (core_object d) (core_items d)) g =
     (if g = Memory then used_memory c else gauge_of c g - weight g d)"
  by (cases g; cases "kv_object_type (core_object d)") (simp_all add: stats_remove_object_def)

lemma gauge_add:
  "gauge_of (stats_add_object c (core_object d) (core_items d)) g =
     (if g = Memory then used_memory c else gauge_of c g + weight g d)"
  by (cases g; cases "kv_object_type (core_object d)") (simp_all add: stats_add_object_def)

text \<open>The effect of a removal on everything but the pointers.\<close>

definition removed ::
  "('m, 'o, 'x) cache_scheme \<Rightarrow> nat \<Rightarrow> ('m, 'o) core \<Rightarrow> removal_reason \<Rightarrow> ('m, 'o, 'x) cache_scheme \<Rightarrow> bool" where
  "removed c a d reason c' \<longleftrightarrow> core_view c' = (core_view c)(a := None)
     \<and> hash_map (index c') = (hash_map (index c))(core_key d := None)
     \<and> used_memory c' = used_memory c - core_charge d
     \<and> max_keys c' = max_keys c \<and> max_memory c' = max_memory c \<and> on_evict c' = on_evict c
     \<and> lru_enabled c' = lru_enabled c \<and> heap_capacity c' = heap_capacity c \<and> hits c' = hits c \<and> misses c' = misses c
     \<and> evict_log c' = evict_log c @ (if reason = REMOVE_EVICTED \<and> on_evict c then [core_key d] else [])
     \<and> expired_keys c' = expired_keys c + (if reason = REMOVE_EXPIRED then 1 else 0)
     \<and> evicted_keys c' = evicted_keys c + (if reason = REMOVE_EVICTED then 1 else 0)"

text \<open>The part of a removal that precedes the change of heap and list.\<close>

definition announce :: "('m, 'o, 'x) cache_scheme \<Rightarrow> nat \<Rightarrow> removal_reason \<Rightarrow> ('m, 'o, 'x) cache_scheme" where
  "announce c a reason =
     (let c = (if hash_hot_entry c = Some a then c\<lparr>hash_hot_entry := None, hash_hot_key := []\<rparr> else c)
      in if reason = REMOVE_EVICTED \<and> on_evict c
         then c\<lparr>evict_log := evict_log c @ [index_node (entry c a)]\<rparr> else c)"

lemma announce_simps [simp]:
  "entries (announce c a r) = entries c" "expire_heap (announce c a r) = expire_heap c"
  "lru_head (announce c a r) = lru_head c" "lru_tail (announce c a r) = lru_tail c"
  "lru_enabled (announce c a r) = lru_enabled c" "index (announce c a r) = index c"
  "used_memory (announce c a r) = used_memory c" "max_keys (announce c a r) = max_keys c"
  "max_memory (announce c a r) = max_memory c" "on_evict (announce c a r) = on_evict c"
  "heap_capacity (announce c a r) = heap_capacity c" "hits (announce c a r) = hits c" "misses (announce c a r) = misses c"
  "expired_keys (announce c a r) = expired_keys c" "evicted_keys (announce c a r) = evicted_keys c"
  "gauge_of (announce c a r) g = gauge_of c g"
  "hash_hot_entry (announce c a r) = (if hash_hot_entry c = Some a then None else hash_hot_entry c)"
  "hash_hot_key (announce c a r) = (if hash_hot_entry c = Some a then [] else hash_hot_key c)"
  "evict_log (announce c a r) =
     evict_log c @ (if r = REMOVE_EVICTED \<and> on_evict c then [index_node (entry c a)] else [])"
  by (cases g; simp add: announce_def Let_def entry_def)+

text \<open>The part that follows: index, statistics and release of the entry.\<close>

definition release ::
  "('m, 'o, 'x) cache_scheme \<Rightarrow> nat \<Rightarrow> removal_reason \<Rightarrow> ('m, 'o, 'x) cache_scheme" where
  "release c a reason =
     (let c = c\<lparr>index := fst (kv_hash_remove_node (index c) (node_of (index_node (entry c a)) a))\<rparr>;
          c = c\<lparr>used_memory := used_memory c - memory_charge (entry c a)\<rparr>;
          c = (if reason = REMOVE_EXPIRED then c\<lparr>expired_keys := expired_keys c + 1\<rparr>
               else if reason = REMOVE_EVICTED then c\<lparr>evicted_keys := evicted_keys c + 1\<rparr>
               else c);
          c = stats_remove_object c (object (entry c a)) (object_items (entry c a))
      in free_entry a c)"

lemma entry_remove_parts:
  "entry_remove c a reason = release (lru_unlink (drop_deadline (announce c a reason) a) a) a reason"
  by (simp add: entry_remove_def release_def drop_deadline_def announce_def Let_def)

lemma free_entry_simps [simp]:
  "entries (free_entry a c) = (entries c)(a := None)" "gauge_of (free_entry a c) g = gauge_of c g"
  "expire_heap (free_entry a c) = expire_heap c" "lru_head (free_entry a c) = lru_head c"
  "heap_capacity (free_entry a c) = heap_capacity c" "lru_tail (free_entry a c) = lru_tail c" "lru_enabled (free_entry a c) = lru_enabled c"
  "index (free_entry a c) = index c" "used_memory (free_entry a c) = used_memory c"
  "max_keys (free_entry a c) = max_keys c" "max_memory (free_entry a c) = max_memory c"
  "on_evict (free_entry a c) = on_evict c" "evict_log (free_entry a c) = evict_log c"
  "hits (free_entry a c) = hits c" "misses (free_entry a c) = misses c"
  "expired_keys (free_entry a c) = expired_keys c" "evicted_keys (free_entry a c) = evicted_keys c"
  "hash_hot_entry (free_entry a c) = hash_hot_entry c" "hash_hot_key (free_entry a c) = hash_hot_key c"
  "string_keys (free_entry a c) = string_keys c" "hash_keys (free_entry a c) = hash_keys c"
  "zset_keys (free_entry a c) = zset_keys c" "hash_fields (free_entry a c) = hash_fields c"
  "zset_members (free_entry a c) = zset_members c"
  by (cases g; simp add: free_entry_def)+

lemma release_ok:
  assumes a: "core_view c a = Some d"
    and c'_def: "c' = release c a reason"
  shows "entries c' = (entries c)(a := None)" "expire_heap c' = expire_heap c"
    "lru_head c' = lru_head c" "lru_tail c' = lru_tail c" "lru_enabled c' = lru_enabled c"
    "index c' = fst (kv_hash_remove_node (index c) (node_of (core_key d) a))"
    "gauge_of c' g = gauge_of c g - weight g d"
    "max_keys c' = max_keys c" "max_memory c' = max_memory c" "on_evict c' = on_evict c"
    "hits c' = hits c" "misses c' = misses c" "evict_log c' = evict_log c"
    "expired_keys c' = expired_keys c + (if reason = REMOVE_EXPIRED then 1 else 0)"
    "evicted_keys c' = evicted_keys c + (if reason = REMOVE_EVICTED then 1 else 0)"
    "hash_hot_entry c' = hash_hot_entry c" "hash_hot_key c' = hash_hot_key c" "heap_capacity c' = heap_capacity c"
proof -
  note f = core_entry_fields [OF a, unfolded entry_def]
  show "gauge_of c' g = gauge_of c g - weight g d"
    unfolding c'_def by (cases g) (simp_all add: release_def Let_def f entry_def
        stats_remove_object_def split: kv_object_type.split)
qed (simp_all add: c'_def release_def Let_def core_entry_fields [OF a, unfolded entry_def] entry_def)

lemma hash_remove_node_ok:
  assumes "hash_inv h" and h'_def: "h' = fst (kv_hash_remove_node h (node_of k a))"
  shows "hash_inv h'" "hash_map h' = (hash_map h)(k := None)"
proof -
  obtain h2 p where r: "remove_target h (Some (node_of k a)) = (h2, p)" by fastforce
  note remove_target_ok [OF assms(1) _ r]
  then show "hash_inv h'" "hash_map h' = (hash_map h)(k := None)"
    using r by (simp_all add: h'_def kv_hash_remove_node_def node_of_def)
qed

lemma catalog_remove:
  assumes ok: "catalog_ok c" and a: "core_view c a = Some d"
    and v: "core_view c' = (core_view c)(a := None)" and i: "hash_inv (index c')"
    and h: "hash_map (index c') = (hash_map (index c))(core_key d := None)"
    and g: "\<And>g. gauge_of c' g = gauge_of c g - weight g d"
    and hot: "hash_hot_entry c' = (if hash_hot_entry c = Some a then None else hash_hot_entry c)"
      "hash_hot_entry c \<noteq> Some a \<Longrightarrow> hash_hot_key c' = hash_hot_key c"
    and lim: "max_keys c' = max_keys c" "max_memory c' = max_memory c" "lru_enabled c' = lru_enabled c"
  shows "catalog_ok c'"
proof -
  note ok' = ok [unfolded catalog_ok_def]
  have fin: "finite (dom (core_view c))" using cache_finite [OF ok] by simp
  have m: "index_matches (core_view c') (hash_map (index c'))"
    unfolding v h by (rule index_matches_remove) (use ok' a in auto)
  have "gauge_of c' g = total g (core_view c')" for g
  proof -
    have "gauge_of c g = total g (core_view c)" using ok' by blast
    with total_remove [OF fin a, of g] g [of g] v show ?thesis by simp
  qed
  moreover have "\<exists>d. core_view c' b = Some d \<and> core_key d = hash_hot_key c'"
    if b: "hash_hot_entry c' = Some b" for b
  proof -
    have h: "hash_hot_entry c = Some b" "b \<noteq> a" using b hot(1) by (auto split: if_splits)
    then have "\<exists>d. core_view c b = Some d \<and> core_key d = hash_hot_key c" using ok' by blast
    with h hot(2) v show ?thesis by simp
  qed
  moreover have "lru_enabled c' = (max_keys c' \<noteq> 0 \<or> max_memory c' \<noteq> 0)"
    unfolding lim using ok' by blast
  ultimately show ?thesis
    unfolding catalog_ok_def using i m by blast
qed

lemma entry_remove_ok:
  assumes ok: "cache_ok c xs" and a: "core_view c a = Some d" and c'_def: "c' = entry_remove c a reason"
  shows "removed c a d reason c'" "cache_ok c' (remove1 a xs)"
proof -
  have cat: "catalog_ok c" and hp: "heap_matches c" and r: "recency_ok c xs"
    using ok by (simp_all add: cache_ok_def)
  let ?c0 = "announce c a reason"
  let ?c2 = "lru_unlink (drop_deadline ?c0 a) a"
  have v0: "core_view ?c0 = core_view c" by (rule core_view_cong) simp
  have hp0: "heap_matches ?c0"
    using hp v0 heap_ok_cong [of ?c0 c] by (simp add: heap_matches_def)
  have r0: "recency_ok ?c0 xs"
    using r lru_list_cong [of xs ?c0 c] by (simp add: recency_ok_def)
  have a0: "core_view ?c0 a = Some d" using v0 a by simp
  note det = detach_ok [OF hp0 r0 a0]
  note f = cache_frame_fields [OF det(1)]
  have a2: "core_view ?c2 a = Some d" using f(1) a0 by simp
  have c': "c' = release ?c2 a reason" by (simp add: c'_def entry_remove_parts)
  note rel = release_ok [OF a2 c']
  have v': "core_view c' = (core_view c)(a := None)"
    using f(1) v0 by (auto simp: core_view_def rel(1) fun_eq_iff)
  have ix: "hash_inv (index c')" "hash_map (index c') = (hash_map (index c))(core_key d := None)"
    using hash_remove_node_ok [of "index c" _ "core_key d" a] cat f(2) rel(6) by (simp_all add: catalog_ok_def)
  have gs: "gauge_of c' g = gauge_of c g - weight g d" for g
    using rel(7) [of g] f announce_simps(16) [of c a reason g] by (cases g) simp_all
  from core_entry_fields [OF a] show "removed c a d reason c'"
    using v' ix gs [of Memory] rel f by (simp add: removed_def)
  have "catalog_ok c'"
    by (rule catalog_remove [OF cat a v' ix gs]) (use rel f in simp_all)
  have na: "a \<notin> set (expire_heap ?c2)" using det(3) by simp
  have "set (expire_heap c') = {b. \<exists>e. core_view c' b = Some e \<and> core_expire e \<noteq> 0}"
    using det(3) hp v' rel(2) by (auto simp: heap_matches_def)
  moreover have ok': "heap_ok c'" using heap_ok_free [OF det(2) na rel(1,2)] .
  moreover have "heap_count c' \<le> heap_capacity c'"
    using heap_count_mono [of c' c] ok' hp det(3) rel(2,18) f(20) by (auto simp: heap_matches_def)
  ultimately have "heap_matches c'" by (simp add: heap_matches_def)
  have dom: "dom (entries c') = dom (entries c) - {a}"
    using v' dom_core_view [of c'] dom_core_view [of c] by auto
  then have "lru_list c' (remove1 a xs)" if "lru_enabled c"
    using det(4) that r lru_list_cong [of "remove1 a xs" c' ?c2] rel by (auto simp: recency_ok_def lru_list_def)
  then have "recency_ok c' (remove1 a xs)"
    using r rel(5) f(19) dom by (auto simp: recency_ok_def lru_list_def set_remove1_eq)
  with \<open>catalog_ok c'\<close> \<open>heap_matches c'\<close> show "cache_ok c' (remove1 a xs)"
    by (simp add: cache_ok_def)
qed

subsection \<open>Contents\<close>

lemma content_iff:
  assumes "catalog_ok c"
  shows "content c k = Some d \<longleftrightarrow> (\<exists>a. core_view c a = Some d \<and> core_key d = k)"
proof -
  have m: "index_matches (core_view c) (hash_map (index c))" using assms by (simp add: catalog_ok_def)
  show ?thesis
  proof
    assume "content c k = Some d"
    then obtain a where a: "hash_map (index c) k = Some a" "core_view c a = Some d"
      by (auto simp: content_def bind_eq_Some_conv)
    with index_matchesD [OF m, of k a] show "\<exists>a. core_view c a = Some d \<and> core_key d = k" by auto
  next
    assume "\<exists>a. core_view c a = Some d \<and> core_key d = k"
    then obtain a where a: "core_view c a = Some d" "core_key d = k" by blast
    then have "hash_map (index c) k = Some a" using index_matchesD [OF m, of k a] by auto
    with a show "content c k = Some d" by (simp add: content_def)
  qed
qed

lemma content_key: "catalog_ok c \<Longrightarrow> content c k = Some d \<Longrightarrow> core_key d = k"
  by (simp add: content_iff)

lemma content_removed:
  assumes ok: "catalog_ok c" and a: "core_view c a = Some d"
    and v: "core_view c' = (core_view c)(a := None)"
    and h: "hash_map (index c') = (hash_map (index c))(core_key d := None)"
  shows "content c' = (content c)(core_key d := None)"
proof
  fix k
  have m: "index_matches (core_view c) (hash_map (index c))" using ok by (simp add: catalog_ok_def)
  show "content c' k = ((content c)(core_key d := None)) k"
  proof (cases "k = core_key d")
    case False
    have "b \<noteq> a" if "hash_map (index c) k = Some b" for b
      using index_matchesD [OF m, of k b] that False a by auto
    with False show ?thesis by (cases "hash_map (index c) k") (auto simp: content_def h v)
  qed (simp add: content_def h)
qed

text \<open>Updates of the other fields.\<close>

lemma cache_ok_cong:
  assumes ok: "cache_ok c xs"
    and e: "entries c' = entries c" "expire_heap c' = expire_heap c" "lru_head c' = lru_head c"
      "lru_tail c' = lru_tail c" "lru_enabled c' = lru_enabled c" "heap_capacity c \<le> heap_capacity c'"
    and i: "hash_inv (index c')" "hash_map (index c') = hash_map (index c)"
    and g: "\<And>g. gauge_of c' g = gauge_of c g"
    and hot: "\<And>a. hash_hot_entry c' = Some a \<Longrightarrow> \<exists>d. core_view c a = Some d \<and> core_key d = hash_hot_key c'"
    and lim: "max_keys c' = max_keys c" "max_memory c' = max_memory c"
  shows "cache_ok c' xs"
proof -
  note ok' = ok [unfolded cache_ok_def]
  have v: "core_view c' = core_view c" by (rule core_view_cong) (rule e)
  have "catalog_ok c'"
    using ok' i hot e(5) lim unfolding catalog_ok_def v g by simp
  moreover have "heap_matches c'"
    using ok' heap_ok_cong [OF e(1,2)] e(6) unfolding heap_matches_def v e(2) by simp
  moreover have "recency_ok c' xs"
    using ok' lru_list_cong [of xs c' c] e unfolding recency_ok_def by simp
  ultimately show ?thesis by (simp add: cache_ok_def)
qed

lemma cache_ok_index:
  assumes "cache_ok c xs" "hash_inv h" "hash_map h = hash_map (index c)"
  shows "cache_ok (c\<lparr>index := h\<rparr>) xs" "content (c\<lparr>index := h\<rparr>) = content c"
    "core_view (c\<lparr>index := h\<rparr>) = core_view c"
proof -
  show "cache_ok (c\<lparr>index := h\<rparr>) xs"
  proof (rule cache_ok_cong [OF assms(1)])
    show "gauge_of (c\<lparr>index := h\<rparr>) g = gauge_of c g" for g by (cases g) simp_all
  qed (use assms in \<open>auto simp: cache_ok_def catalog_ok_def\<close>)
  show v: "core_view (c\<lparr>index := h\<rparr>) = core_view c" by (rule core_view_cong) simp
  show "content (c\<lparr>index := h\<rparr>) = content c"
    by (rule ext) (simp add: content_def v assms(3))
qed

lemma rehash_step_keeps:
  assumes "cache_ok c xs"
  shows "hash_inv (fst (kv_hash_rehash_step (index c) b))"
    "hash_map (fst (kv_hash_rehash_step (index c) b)) = hash_map (index c)"
  using kv_hash_rehash_step_ok [of "index c" b] assms
  by (auto simp: cache_ok_def catalog_ok_def prod_eq_iff)

definition expired_at :: "u64 \<Rightarrow> ('m, 'o) core \<Rightarrow> bool" where
  "expired_at t d \<longleftrightarrow> core_expire d \<noteq> 0 \<and> core_expire d \<le> t"

text \<open>What a lookup at time \<open>t\<close> must answer: expired entries do not exist.\<close>

definition live :: "u64 \<Rightarrow> ('m, 'o) core option \<Rightarrow> ('m, 'o) core option" where
  "live t r = (case r of None \<Rightarrow> None | Some d \<Rightarrow> if expired_at t d then None else Some d)"

text \<open>The configuration and the counters that only lookups and stores change.\<close>

definition same_setup :: "('m, 'o, 'x) cache_scheme \<Rightarrow> ('m, 'o, 'x) cache_scheme \<Rightarrow> bool" where
  "same_setup c c' \<longleftrightarrow> max_keys c' = max_keys c \<and> max_memory c' = max_memory c \<and> on_evict c' = on_evict c
     \<and> lru_enabled c' = lru_enabled c"

lemma same_setup_refl [simp]: "same_setup c c"
  by (simp add: same_setup_def)

lemma same_setup_trans: "same_setup c d \<Longrightarrow> same_setup d e \<Longrightarrow> same_setup c e"
  by (simp add: same_setup_def)

lemma removed_setup: "removed c a d r c' \<Longrightarrow> same_setup c c'"
  by (simp add: removed_def same_setup_def)

subsection \<open>Lookup\<close>

abbreviation clock_time :: "u64 \<Rightarrow> u64 \<Rightarrow> u64" where
  "clock_time now reading \<equiv> (if now = UINT64_MAX then reading else now)"

lemma find_live_cases:
  assumes ok: "cache_ok c xs" and f: "find_live c key now reading = (c', r)"
  obtains (missing) "r = None" "content c key = None" "c' = c\<lparr>index := index c'\<rparr>" "cache_ok c' xs"
      "content c' = content c" "core_view c' = core_view c" "hash_map (index c') = hash_map (index c)"
  | (expired) a d where "r = None" "content c key = Some d" "expired_at (clock_time now reading) d"
      "core_view c a = Some d" "cache_ok c' (remove1 a xs)" "content c' = (content c)(key := None)"
      "removed c a d REMOVE_EXPIRED c'"
  | (found) a d where "r = Some a" "content c key = Some d" "\<not> expired_at (clock_time now reading) d"
      "core_view c a = Some d" "c' = c\<lparr>index := index c'\<rparr>" "cache_ok c' xs" "content c' = content c"
      "core_view c' = core_view c" "hash_map (index c') = hash_map (index c)" "hash_map (index c) key = Some a"
proof -
  let ?h = "fst (kv_hash_rehash_step (index c) 1)"
  let ?c1 = "c\<lparr>index := ?h\<rparr>"
  note k = rehash_step_keeps [OF ok, of 1]
  note c1 = cache_ok_index [OF ok k]
  have fm: "map_option payload (kv_hash_find ?h key) = hash_map (index c) key"
    using kv_hash_find_map [OF k(1)] k(2) by simp
  show thesis
  proof (cases "kv_hash_find ?h key")
    case None
    then have "c' = ?c1" "r = None" "hash_map (index c) key = None"
      using f fm by (simp_all add: find_live_def Let_def)
    then show thesis using c1 k missing by (simp add: content_def)
  next
    case (Some node)
    let ?a = "payload node"
    have a: "hash_map (index c) key = Some ?a" using Some fm by simp
    then obtain d where d: "core_view c ?a = Some d" "core_key d = key"
      using ok index_matchesD [of "core_view c" "hash_map (index c)" key ?a]
      by (auto simp: cache_ok_def catalog_ok_def)
    have con: "content c key = Some d" using a d by (simp add: content_def)
    have d1: "core_view ?c1 ?a = Some d" using c1(3) d(1) by simp
    note ent = core_entry_fields [OF d1]
    have f': "(c', r) = (if expired_at (clock_time now reading) d then (entry_remove ?c1 ?a REMOVE_EXPIRED, None)
        else (?c1, Some ?a))"
      unfolding f [symmetric] using Some ent(5) by (auto simp: find_live_def Let_def expired_at_def)
    show thesis
    proof (cases "expired_at (clock_time now reading) d")
      case True
      then have c': "c' = entry_remove ?c1 ?a REMOVE_EXPIRED" and r: "r = None" using f' by simp_all
      note rm = entry_remove_ok [OF c1(1) d1 c']
      have "removed c ?a d REMOVE_EXPIRED c'" using rm(1) c1(3) k(2) by (simp add: removed_def)
      moreover have "content c' = (content c)(key := None)"
        using content_removed [of ?c1 ?a d c'] c1 d1 rm(1) d(2) by (simp add: cache_ok_def removed_def)
      ultimately show thesis using expired [OF r con True d(1) rm(2)] by blast
    next
      case False
      then have "c' = ?c1" "r = Some ?a" using f' by simp_all
      then show thesis using found [of ?a d] con False d c1 k a by simp
    qed
  qed
qed

end
