(* ===== verification/CacheEvict.thy ===== *)
theory CacheEvict
  imports CacheInv
begin

text \<open>
  Eviction: the loops of \<open>cache_store_object\<close> and \<open>cache_recharge_ref\<close> end, always find a
  candidate, and remove the least recently used entries and no more than needed.
\<close>

lemma remove1_last: "distinct xs \<Longrightarrow> xs \<noteq> [] \<Longrightarrow> remove1 (last xs) xs = butlast xs"
  by (induction xs) auto

lemma eviction_candidate_last:
  assumes l: "lru_list c xs" and p: "p \<in> set xs"
  shows "eviction_candidate c p = last_of (remove1 p xs) None"
proof (cases "last xs = p")
  case True
  have d: "distinct xs" and t: "lru_tail c = last_of xs None" using l by (simp_all add: lru_list_def)
  obtain ys zs e where x: "xs = ys @ p # zs" "p \<notin> set ys" "p \<notin> set zs" "entries c p = Some e"
    "lru_previous e = last_of ys None"
    using lru_list_split [OF l p] by metis
  have "zs = []" using x(1,3) True by (cases zs rule: rev_cases) auto
  then show ?thesis using x t by (simp add: eviction_candidate_def entry_def remove1_append)
next
  case False
  obtain ys zs where x: "xs = ys @ p # zs" "p \<notin> set ys" using split_list_first [OF p] by blast
  with False have "zs \<noteq> []" by auto
  then have "last xs = last (remove1 p xs)" "remove1 p xs \<noteq> []" using x by (auto simp: remove1_append)
  moreover have "xs \<noteq> []" using p by auto
  ultimately show ?thesis
    using False l by (simp add: eviction_candidate_def lru_list_def last_of_def)
qed

text \<open>The removal of the victims \<open>vs\<close>, in this order, judged at time \<open>t\<close>.\<close>

definition victim :: "('m, 'o, 'x) cache_scheme \<Rightarrow> nat \<Rightarrow> ('m, 'o) core" where
  "victim c a = the (core_view c a)"

definition evicted :: "('m, 'o, 'x) cache_scheme \<Rightarrow> u64 \<Rightarrow> nat list \<Rightarrow> ('m, 'o, 'x) cache_scheme \<Rightarrow> bool" where
  "evicted c t vs c' \<longleftrightarrow> core_view c' = core_view c |` (- set vs)
     \<and> used_memory c' = used_memory c - (\<Sum>a\<leftarrow>vs. core_charge (victim c a))
     \<and> same_setup c c' \<and> heap_capacity c' = heap_capacity c \<and> hits c' = hits c \<and> misses c' = misses c
     \<and> evict_log c' = evict_log c @ (if on_evict c
         then [core_key (victim c a). a \<leftarrow> vs, \<not> expired_at t (victim c a)] else [])
     \<and> expired_keys c' = expired_keys c + of_nat (length [a \<leftarrow> vs. expired_at t (victim c a)])
     \<and> evicted_keys c' = evicted_keys c + of_nat (length [a \<leftarrow> vs. \<not> expired_at t (victim c a)])"

lemma evicted_Nil [simp]: "evicted c t [] c"
  by (simp add: evicted_def restrict_map_def)

lemma evicted_Cons:
  assumes r: "removed c a d (if expired_at t d then REMOVE_EXPIRED else REMOVE_EVICTED) c1"
    and a: "core_view c a = Some d" and e: "evicted c1 t vs c'" and v: "a \<notin> set vs"
  shows "evicted c t (a # vs) c'"
proof -
  have same: "victim c1 b = victim c b" if "b \<in> set vs" for b
    using r v that by (auto simp: victim_def removed_def)
  have va: "victim c a = d" using a by (simp add: victim_def)
  have maps: "map (\<lambda>b. core_charge (victim c1 b)) vs = map (\<lambda>b. core_charge (victim c b)) vs"
    "[b \<leftarrow> vs. expired_at t (victim c1 b)] = [b \<leftarrow> vs. expired_at t (victim c b)]"
    "[b \<leftarrow> vs. \<not> expired_at t (victim c1 b)] = [b \<leftarrow> vs. \<not> expired_at t (victim c b)]"
    using same by (auto cong: filter_cong)
  have keys: "[core_key (victim c1 b). b \<leftarrow> vs, \<not> expired_at t (victim c1 b)] =
      [core_key (victim c b). b \<leftarrow> vs, \<not> expired_at t (victim c b)]"
    by (rule arg_cong [where f = concat], rule map_cong [OF refl]) (simp add: same)
  have "core_view c' = core_view c |` (- set (a # vs))"
    using e r by (auto simp: evicted_def removed_def restrict_map_def fun_eq_iff)
  moreover have "same_setup c c'" "on_evict c1 = on_evict c"
    using e removed_setup [OF r] by (auto simp: evicted_def same_setup_def)
  ultimately show ?thesis
    using e r unfolding evicted_def removed_def maps keys by (simp add: va)
qed

text \<open>The limit that the loops watch: the used memory plus what the pending change adds.\<close>

definition tracks :: "(('m, 'o, 'x) cache_scheme \<Rightarrow> u64 \<Rightarrow> u64) \<Rightarrow> bool" where
  "tracks memory_of \<longleftrightarrow> (\<forall>c q. memory_of c q = q) \<or> (\<forall>c q. memory_of c q = used_memory c)"

lemma tracks_step:
  assumes "tracks M" "M c q = used_memory c + delta" "used_memory c' = used_memory c - x"
  shows "M c' (q - x) = used_memory c' + delta"
  using assms by (auto simp: tracks_def)

text \<open>While the limits are exceeded, somebody else than the protected entry can go.\<close>

lemma candidate_exists:
  assumes ok: "cache_ok c xs" and p: "core_view c p = Some dp"
    and fits: "max_memory c \<noteq> 0 \<Longrightarrow> core_charge dp + delta \<le> max_memory c"
    and over: "limits_exceeded c (kv_hash_count (index c)) (used_memory c + delta)"
  shows "lru_list c xs" "p \<in> set xs" "set xs = dom (entries c)" "remove1 p xs \<noteq> []"
proof -
  have cat: "catalog_ok c" using ok by (simp add: cache_ok_def)
  have en: "lru_enabled c" using cat over by (auto simp: catalog_ok_def limits_exceeded_def)
  then show l: "lru_list c xs" and s: "set xs = dom (entries c)"
    using ok by (simp_all add: cache_ok_def recency_ok_def)
  show px: "p \<in> set xs" using s p by (auto simp: core_view_Some)
  show "remove1 p xs \<noteq> []"
  proof
    assume "remove1 p xs = []"
    then have d: "dom (entries c) = {p}"
      using px l s set_remove1_eq [of xs p] by (auto simp: lru_list_def)
    then have "kv_hash_count (index c) = 1" using cache_count [OF cat] by simp
    moreover have "used_memory c = core_charge dp"
    proof -
      have "gauge_of c Memory = total Memory (core_view c)" using cat unfolding catalog_ok_def by blast
      then show ?thesis using d p by (simp add: total_def)
    qed
    ultimately show False using over fits by (auto simp: limits_exceeded_def)
  qed
qed

lemma limits_exceeded_setup: "same_setup c c' \<Longrightarrow> limits_exceeded c' n m = limits_exceeded c n m"
  by (simp add: limits_exceeded_def same_setup_def)

lemma filter_after_remove1: "distinct xs \<Longrightarrow> filter (\<lambda>b. b \<notin> set vs) (remove1 a xs) = filter (\<lambda>b. b \<notin> set (a # vs)) xs"
  by (induction xs) (auto intro: filter_cong)

text \<open>What the loop leaves behind.\<close>

definition evict_post ::
  "(('m, 'o, 'x) cache_scheme \<Rightarrow> u64 \<Rightarrow> u64) \<Rightarrow> nat \<Rightarrow> u64 \<Rightarrow> u64 \<Rightarrow> ('m, 'o, 'x) cache_scheme \<Rightarrow> nat list
     \<Rightarrow> ('m, 'o, 'x) cache_scheme \<Rightarrow> u64 \<Rightarrow> nat list \<Rightarrow> bool" where
  "evict_post M p delta t c xs c' q' vs \<longleftrightarrow>
     cache_ok c' (filter (\<lambda>b. b \<notin> set vs) xs) \<and> evicted c t vs c' \<and> M c' q' = used_memory c' + delta
     \<and> (\<exists>ys. remove1 p xs = ys @ rev vs) \<and> p \<notin> set vs \<and> distinct vs \<and> set vs \<subseteq> dom (entries c)
     \<and> \<not> limits_exceeded c' (kv_hash_count (index c')) (used_memory c' + delta)
     \<and> (\<forall>n < length vs. limits_exceeded c (kv_hash_count (index c) - n)
          (used_memory c + delta - (\<Sum>a\<leftarrow>take n vs. core_charge (victim c a))))"

lemma evict_post_Cons:
  assumes ok: "cache_ok c xs" and a: "core_view c a = Some d" and r: "removed c a d (if expired_at t d then REMOVE_EXPIRED else REMOVE_EVICTED) c1"
    and ok1: "cache_ok c1 (remove1 a xs)" and l: "last (remove1 p xs) = a" "remove1 p xs \<noteq> []" and dist: "distinct xs" and pa: "p \<noteq> a"
    and over: "limits_exceeded c (kv_hash_count (index c)) (used_memory c + delta)"
    and post: "evict_post M p delta t c1 (remove1 a xs) c' q' vs"
  shows "evict_post M p delta t c xs c' q' (a # vs)"
proof -
  note post' = post [unfolded evict_post_def]
  have dom1: "dom (entries c1) = dom (entries c) - {a}"
    using r dom_core_view [of c1] dom_core_view [of c] by (auto simp: removed_def)
  have av: "a \<notin> set vs" using post' dom1 by blast
  have su: "same_setup c c1" using removed_setup [OF r] .
  have cnt: "kv_hash_count (index c1) = kv_hash_count (index c) - 1"
    using cache_count [of c] cache_count [of c1] ok ok1 dom1 a cache_finite [of c]
    by (auto simp: cache_ok_def core_view_Some card_Diff_singleton_if)
  have vic: "victim c1 b = victim c b" if "b \<in> set vs" for b
    using r av that by (auto simp: victim_def removed_def)
  have "remove1 p (remove1 a xs) = butlast (remove1 p xs)"
    using remove1_last [of "remove1 p xs"] l dist by (simp add: remove1_commute)
  then obtain ys where "butlast (remove1 p xs) = ys @ rev vs" using post' by auto
  then have "remove1 p xs = ys @ rev (a # vs)" using l append_butlast_last_id [of "remove1 p xs"] by simp
  moreover have "limits_exceeded c (kv_hash_count (index c) - n)
      (used_memory c + delta - (\<Sum>b\<leftarrow>take n (a # vs). core_charge (victim c b)))" if n: "n < length (a # vs)" for n
  proof (cases n)
    case 0
    then show ?thesis using over by simp
  next
    case (Suc m)
    then have "limits_exceeded c1 (kv_hash_count (index c1) - m)
        (used_memory c1 + delta - (\<Sum>b\<leftarrow>take m vs. core_charge (victim c1 b)))"
      using n post' by simp
    moreover have "map (\<lambda>b. core_charge (victim c1 b)) (take m vs) = map (\<lambda>b. core_charge (victim c b)) (take m vs)"
      using vic by (auto dest: in_set_takeD)
    moreover have "used_memory c1 = used_memory c - core_charge d" "victim c a = d"
      using r a by (simp_all add: removed_def victim_def)
    ultimately show ?thesis
      using Suc limits_exceeded_setup [OF su] cnt by (simp add: algebra_simps)
  qed
  ultimately show ?thesis
    unfolding evict_post_def
    using post' evicted_Cons [OF r a _ av, of c'] filter_after_remove1 [OF dist, of vs a] av pa dom1 a
    by (auto simp: core_view_Some)
qed

abbreviation eviction_time :: "bool \<Rightarrow> u64 \<Rightarrow> u64 \<Rightarrow> u64" where
  "eviction_time reread reading now \<equiv> (if reread \<and> now = UINT64_MAX then reading else now)"

lemma evict_loop_stops:
  assumes ok: "cache_ok c xs" and p: "core_view c p = Some dp" and m: "M c q = used_memory c + delta"
    and stop: "\<not> limits_exceeded c (kv_hash_count (index c)) (M c q)"
  shows "evict_loop M reread p reading c q now = Some (c, q, True)" "evict_post M p delta t c xs c q []"
proof -
  show "evict_loop M reread p reading c q now = Some (c, q, True)"
    using stop by (subst evict_loop.simps) simp
  show "evict_post M p delta t c xs c q []"
    using ok m stop by (simp add: evict_post_def)
qed

lemma evict_loop_step:
  assumes ok: "cache_ok c xs" and p: "core_view c p = Some dp" and m: "M c q = used_memory c + delta"
    and fits: "max_memory c \<noteq> 0 \<Longrightarrow> core_charge dp + delta \<le> max_memory c"
    and over: "limits_exceeded c (kv_hash_count (index c)) (M c q)"
    and t: "t = eviction_time reread reading now"
  obtains a d c1 now' where "core_view c a = Some d" "p \<noteq> a" "last (remove1 p xs) = a" "remove1 p xs \<noteq> []"
    "distinct xs" "removed c a d (if expired_at t d then REMOVE_EXPIRED else REMOVE_EVICTED) c1"
    "cache_ok c1 (remove1 a xs)" "t = eviction_time reread reading now'"
    "evict_loop M reread p reading c q now = evict_loop M reread p reading c1 (q - core_charge d) now'"
    "a \<in> set xs"
proof -
  note ex = candidate_exists [OF ok p fits over [unfolded m]]
  let ?a = "last (remove1 p xs)"
  have cand: "eviction_candidate c p = Some ?a"
    using eviction_candidate_last [OF ex(1,2)] ex(4) by (simp add: last_of_def)
  have dist: "distinct xs" using ex(1) by (simp add: lru_list_def)
  have "?a \<in> set (remove1 p xs)" using ex(4) last_in_set by blast
  then have ax: "?a \<in> set xs" "p \<noteq> ?a" using dist by (auto simp: set_remove1_eq)
  then obtain d where d: "core_view c ?a = Some d" using ex(3) by (auto simp: core_view_Some)
  note e = core_entry_fields [OF d]
  let ?now = "if reread \<and> core_expire d \<noteq> 0 \<and> now = UINT64_MAX then reading else now"
  let ?c1 = "entry_remove c ?a (if expired_at t d then REMOVE_EXPIRED else REMOVE_EVICTED)"
  have x: "(core_expire d \<noteq> 0 \<and> core_expire d \<le> ?now) = expired_at t d" using t by (auto simp: expired_at_def)
  have "evict_loop M reread p reading c q now = evict_loop M reread p reading ?c1 (q - core_charge d) ?now"
    using over cand by (subst evict_loop.simps) (simp add: Let_def e x cong: if_cong)
  moreover note entry_remove_ok [OF ok d refl, of "if expired_at t d then REMOVE_EXPIRED else REMOVE_EVICTED"]
  moreover have "t = eviction_time reread reading ?now" using t by auto
  ultimately show thesis using that [OF d ax(2) refl ex(4) dist] ax(1) by blast
qed

lemma evict_loop_ok:
  assumes "cache_ok c xs" "core_view c p = Some dp" "M c q = used_memory c + delta" "tracks M"
    and "max_memory c \<noteq> 0 \<Longrightarrow> core_charge dp + delta \<le> max_memory c"
    and "t = eviction_time reread reading now"
  shows "\<exists>c' q' vs. evict_loop M reread p reading c q now = Some (c', q', True) \<and> evict_post M p delta t c xs c' q' vs"
  using assms
proof (induction "length xs" arbitrary: c xs q now rule: less_induct)
  case less
  show ?case
  proof (cases "limits_exceeded c (kv_hash_count (index c)) (M c q)")
    case False
    with evict_loop_stops [where M = M and c = c and q = q, OF less.prems(1-3) False] show ?thesis by blast
  next
    case True
    obtain a d c1 now' where s: "core_view c a = Some d" "p \<noteq> a" "last (remove1 p xs) = a" "remove1 p xs \<noteq> []"
      "distinct xs" "removed c a d (if expired_at t d then REMOVE_EXPIRED else REMOVE_EVICTED) c1"
      "cache_ok c1 (remove1 a xs)" "t = eviction_time reread reading now'"
      "evict_loop M reread p reading c q now = evict_loop M reread p reading c1 (q - core_charge d) now'"
      "a \<in> set xs"
      using evict_loop_step [where M = M and c = c and q = q, OF less.prems(1-3,5) True less.prems(6)] by metis
    have m1: "M c1 (q - core_charge d) = used_memory c1 + delta"
      using tracks_step [where M = M and c = c and q = q, OF less.prems(4,3)] s(6) by (simp add: removed_def)
    have p1: "core_view c1 p = Some dp" using s(2,6) less.prems(2) by (simp add: removed_def)
    have f1: "max_memory c1 \<noteq> 0 \<Longrightarrow> core_charge dp + delta \<le> max_memory c1"
      using s(6) less.prems(5) by (simp add: removed_def)
    have "length (remove1 a xs) < length xs" using s(10) length_pos_if_in_set [OF s(10)] by (simp add: length_remove1)
    from less.hyps [where q = "q - core_charge d" and c = c1, OF this s(7) p1 m1 less.prems(4) f1 s(8)] obtain c' q' vs where
      "evict_loop M reread p reading c1 (q - core_charge d) now' = Some (c', q', True)"
      "evict_post M p delta t c1 (remove1 a xs) c' q' vs" by blast
    with evict_post_Cons [OF less.prems(1) s(1,6,7,3,4,5,2) True [unfolded less.prems(3)]] s(9)
    show ?thesis by metis
  qed
qed

end
