(* ===== verification/CacheStore.thy ===== *)
theory CacheStore
  imports CacheEvict
begin

text \<open>
  Storing, expiring, reading and maintenance keep the cache invariant and have the intended
  effect on the contents.
\<close>

subsection \<open>Changing one entry\<close>

text \<open>The catalogue after the data of one entry changed.\<close>

lemma catalog_update:
  assumes ok: "catalog_ok c" and a: "core_view c a = Some d" and k: "core_key d' = core_key d"
    and v: "core_view c' = (core_view c)(a \<mapsto> d')" and i: "index c' = index c"
    and g: "\<And>g. gauge_of c' g = gauge_of c g - weight g d + weight g d'"
    and hot: "hash_hot_entry c' = hash_hot_entry c" "hash_hot_key c' = hash_hot_key c"
    and lim: "max_keys c' = max_keys c" "max_memory c' = max_memory c" "lru_enabled c' = lru_enabled c"
  shows "catalog_ok c'" "content c' = (content c)(core_key d \<mapsto> d')"
proof -
  note ok' = ok [unfolded catalog_ok_def]
  have fin: "finite (dom (core_view c))" using cache_finite [OF ok] by simp
  have m: "index_matches (core_view c) (hash_map (index c))" using ok' by blast
  have m': "index_matches (core_view c') (hash_map (index c'))"
    unfolding v i by (rule index_matches_replace [OF m a k])
  have "gauge_of c' g = total g (core_view c')" for g
  proof -
    have "gauge_of c g = total g (core_view c)" using ok' by blast
    with total_replace [OF fin a, of g d'] g [of g] v show ?thesis by simp
  qed
  moreover have "\<exists>d. core_view c' b = Some d \<and> core_key d = hash_hot_key c'"
    if b: "hash_hot_entry c' = Some b" for b
  proof -
    have "\<exists>d. core_view c b = Some d \<and> core_key d = hash_hot_key c" using ok' b hot by auto
    with a k v hot show ?thesis by (cases "b = a") auto
  qed
  moreover have "lru_enabled c' = (max_keys c' \<noteq> 0 \<or> max_memory c' \<noteq> 0)"
    unfolding lim using ok' by blast
  moreover have "hash_inv (index c')" using ok' i by simp
  ultimately show ok2: "catalog_ok c'" unfolding catalog_ok_def using m' by blast
  show "content c' = (content c)(core_key d \<mapsto> d')"
  proof
    fix k
    have ka: "hash_map (index c) (core_key d) = Some a" using index_matchesD [OF m, of "core_key d" a] a by simp
    have "b \<noteq> a" if "hash_map (index c) k = Some b" "k \<noteq> core_key d" for b
      using index_matchesD [OF m, of k b] that a by auto
    then show "content c' k = ((content c)(core_key d \<mapsto> d')) k"
      using ka by (cases "hash_map (index c) k") (auto simp: content_def i v)
  qed
qed

text \<open>Writes that leave the heap position, the links and the deadline of an entry alone.\<close>

definition data_only :: "(('m, 'o) cache_entry \<Rightarrow> ('m, 'o) cache_entry) \<Rightarrow> bool" where
  "data_only f \<longleftrightarrow> (\<forall>e. heap_index (f e) = heap_index e \<and> lru_previous (f e) = lru_previous e
     \<and> lru_next (f e) = lru_next e \<and> expire_at_ms (f e) = expire_at_ms e)"

lemma data_only_heap:
  assumes f: "data_only f" and e: "entries c' = (entries c)(a := map_option f (entries c a))"
    and h: "expire_heap c' = expire_heap c" and ok: "heap_ok c"
  shows "heap_ok c'"
proof -
  have "heap_position c' = heap_position c"
    using e f by (auto simp: heap_position_def data_only_def fun_eq_iff split: option.splits bind_splits)
  moreover have "deadlines c' = deadlines c"
  proof -
    have "entries c a \<noteq> None" if "a \<in> set (expire_heap c)"
      using that ok unfolding heap_ok_def by (metis in_set_conv_nth index_okD(2))
    then show ?thesis using e f h by (auto simp: deadlines_def entry_def data_only_def)
  qed
  ultimately show ?thesis using ok h by (simp add: heap_ok_def index_ok_def)
qed

lemma data_only_links:
  assumes f: "data_only f" and e: "entries c' = (entries c)(a := map_option f (entries c a))"
    and l: "lru_head c' = lru_head c" "lru_tail c' = lru_tail c"
  shows "lru_list c' xs = lru_list c xs"
proof -
  have "links c' None xs None = links c None xs None"
    by (rule links_cong) (use e f in \<open>auto simp: data_only_def option.map_comp comp_def\<close>)
  with l show ?thesis by (simp add: lru_list_def)
qed

lemma cache_ok_data:
  assumes ok: "cache_ok c xs" and a: "core_view c a = Some d" and f: "data_only f"
    and e: "entries c' = (entries c)(a := map_option f (entries c a))"
    and k: "core_key d' = core_key d" "core_expire d' = core_expire d" "core (f (entry c a)) = d'"
    and i: "index c' = index c" "expire_heap c' = expire_heap c" "heap_capacity c' = heap_capacity c"
      "lru_head c' = lru_head c" "lru_tail c' = lru_tail c"
    and g: "\<And>g. gauge_of c' g = gauge_of c g - weight g d + weight g d'"
    and hot: "hash_hot_entry c' = hash_hot_entry c" "hash_hot_key c' = hash_hot_key c"
    and lim: "max_keys c' = max_keys c" "max_memory c' = max_memory c" "lru_enabled c' = lru_enabled c"
  shows "cache_ok c' xs" "content c' = (content c)(core_key d \<mapsto> d')" "core_view c' = (core_view c)(a \<mapsto> d')"
proof -
  show v: "core_view c' = (core_view c)(a \<mapsto> d')"
    using a e k(3) by (auto simp: core_view_def fun_eq_iff entry_def)
  have cat: "catalog_ok c" using ok by (simp add: cache_ok_def)
  note u = catalog_update [OF cat a k(1) v i(1) g hot lim]
  show "content c' = (content c)(core_key d \<mapsto> d')" by (rule u(2))
  have "heap_ok c" using ok by (simp add: cache_ok_def heap_matches_def)
  then have "heap_ok c'" by (rule data_only_heap [OF f e i(2)])
  moreover have "{b. \<exists>d. core_view c' b = Some d \<and> core_expire d \<noteq> 0} = {b. \<exists>d. core_view c b = Some d \<and> core_expire d \<noteq> 0}"
    using v a k(2) by auto
  ultimately have "heap_matches c'" using ok i by (simp add: cache_ok_def heap_matches_def)
  moreover have "recency_ok c' xs"
    using ok data_only_links [OF f e i(4,5), of xs] e lim(3) a
    by (auto simp: cache_ok_def recency_ok_def core_view_Some)
  ultimately show "cache_ok c' xs" using u(1) by (simp add: cache_ok_def)
qed

subsection \<open>Changing a deadline\<close>

definition heap_part :: "('m, 'o, 'x) heap_state_scheme \<Rightarrow> ('m, 'o, 'x) heap_state_scheme \<Rightarrow> bool" where
  "heap_part c c' \<longleftrightarrow> (\<exists>x h. c' = c\<lparr>entries := x, expire_heap := h\<rparr>)"

lemma heap_part_modify: "heap_part c (modify a f c)"
proof -
  have "modify a f c = c\<lparr>entries := (entries c)(a := map_option f (entries c a)), expire_heap := expire_heap c\<rparr>"
    by (simp add: modify_def)
  then show ?thesis unfolding heap_part_def by blast
qed

lemma heap_part_frame: "heap_frame c c' \<Longrightarrow> heap_part c c'"
  unfolding heap_frame_def heap_part_def by blast

lemma heap_part_trans: "heap_part c d \<Longrightarrow> heap_part d e \<Longrightarrow> heap_part c e"
  unfolding heap_part_def by force

lemma heap_part_fields:
  assumes "heap_part c c'"
  shows "index c' = index c" "max_keys c' = max_keys c" "max_memory c' = max_memory c"
    "hash_hot_entry c' = hash_hot_entry c" "hash_hot_key c' = hash_hot_key c"
    "lru_enabled c' = lru_enabled c" "heap_capacity c' = heap_capacity c" "gauge_of c' g = gauge_of c g"
    "same_setup c c'" "hits c' = hits c" "misses c' = misses c" "evict_log c' = evict_log c"
    "used_memory c' = used_memory c" "expired_keys c' = expired_keys c" "evicted_keys c' = evicted_keys c"
  using assms by (auto simp: heap_part_def same_setup_def) (cases g; simp)

lemma set_expire_fields [simp]:
  "heap_index (set_expire t e) = heap_index e" "lru_previous (set_expire t e) = lru_previous e"
  "lru_next (set_expire t e) = lru_next e" "expire_at_ms (set_expire t e) = t"
  "core (set_expire t e) = (core e)\<lparr>core_expire := t\<rparr>"
  by (simp_all add: set_expire_def core_def)

lemma modify_expire:
  assumes "core_view c a = Some d"
  shows "core_view (modify a (set_expire t) c) = (core_view c)(a \<mapsto> d\<lparr>core_expire := t\<rparr>)"
    "heap_position (modify a (set_expire t) c) = heap_position c"
    "lru_list (modify a (set_expire t) c) xs = lru_list c xs"
proof -
  show "core_view (modify a (set_expire t) c) = (core_view c)(a \<mapsto> d\<lparr>core_expire := t\<rparr>)"
    using assms by (auto simp: core_view_def entries_modify fun_eq_iff)
  show "heap_position (modify a (set_expire t) c) = heap_position c"
    using assms by (auto simp: heap_position_def entries_modify fun_eq_iff split: bind_splits)
  have "links (modify a (set_expire t) c) None xs None = links c None xs None"
    by (rule links_cong) (auto simp: entries_modify option.map_comp comp_def)
  then show "lru_list (modify a (set_expire t) c) xs = lru_list c xs" by (simp add: lru_list_def)
qed

lemma modify_expire_heap_ok:
  fixes c :: "('m, 'o, 'x) lru_state_scheme"
  assumes ok: "heap_ok c" and a: "core_view c a = Some d" "a \<notin> set (expire_heap c)"
  shows "heap_ok (modify a (set_expire t) c)"
proof -
  have "deadlines (modify a (set_expire t) c) = deadlines c"
    using a(2) by (auto simp: deadlines_def entry_def entries_modify)
  with ok modify_expire(2) [OF a(1), of t] show ?thesis by (simp add: heap_ok_def index_ok_def)
qed

lemma modify_same: "entries c a = Some e \<Longrightarrow> f e = e \<Longrightarrow> modify a f c = c"
proof -
  assume "entries c a = Some e" "f e = e"
  then have "(entries c)(a := map_option f (entries c a)) = entries c" by auto
  then show ?thesis unfolding modify_def by simp
qed

lemma modify_expire_same:
  assumes "core_view c a = Some d" "core_expire d = t"
  shows "modify a (set_expire t) c = c"
  using assms by (auto simp: core_view_Some set_expire_def intro!: modify_same)

text \<open>The effect of a change of the deadline of an entry.\<close>

definition deadline_changed ::
  "('m, 'o, 'x) cache_scheme \<Rightarrow> nat \<Rightarrow> ('m, 'o) core \<Rightarrow> u64 \<Rightarrow> ('m, 'o, 'x) cache_scheme \<Rightarrow> bool" where
  "deadline_changed c a d t c' \<longleftrightarrow> heap_part c c' \<and> core_view c' = (core_view c)(a \<mapsto> d\<lparr>core_expire := t\<rparr>)
     \<and> heap_ok c' \<and> set (expire_heap c') = (if t = 0 then set (expire_heap c) - {a} else insert a (set (expire_heap c)))
     \<and> (\<forall>xs. lru_list c' xs = lru_list c xs)"

lemma deadline_cleared:
  assumes m: "heap_matches c" and a: "core_view c a = Some d" and i: "heap_index (entry c a) = Some i"
  shows "deadline_changed c a d 0 (modify a (set_expire 0) (heap_remove_at c i))"
proof -
  note r = heap_remove_entry [OF m a i]
  let ?c1 = "heap_remove_at c i"
  have v: "core_view ?c1 = core_view c" using r(2) heap_view_core [of ?c1 c] by (auto simp: heap_frame_def)
  have a1: "core_view ?c1 a = Some d" using v a by simp
  note m1 = modify_expire [OF a1, of 0]
  have "heap_part c (modify a (set_expire 0) ?c1)"
    using heap_part_trans [OF heap_part_frame [OF r(2)] heap_part_modify] .
  moreover have "heap_ok (modify a (set_expire 0) ?c1)"
    by (rule modify_expire_heap_ok [OF r(1) a1]) (simp add: r(3))
  ultimately show ?thesis
    unfolding deadline_changed_def using m1(1,3) v r(3) heap_frame_list [OF r(2)] by simp
qed

lemma deadline_added:
  assumes m: "heap_matches c" and a: "core_view c a = Some d" "core_expire d = 0" and t: "t \<noteq> 0"
  shows "deadline_changed c a d t (heap_insert_reserved (modify a (set_expire t) c) a)"
proof -
  let ?c1 = "modify a (set_expire t) c"
  have out: "a \<notin> set (expire_heap c)" using m a by (simp add: heap_matches_def)
  have ok: "heap_ok c" using m by (simp add: heap_matches_def)
  have ok1: "heap_ok ?c1" by (rule modify_expire_heap_ok [OF ok a(1) out])
  have "heap_position c a = None"
    using ok out unfolding heap_ok_def index_ok_def by (metis nth_mem option.exhaust)
  then have p1: "heap_position ?c1 a = None" using modify_expire(2) [OF a(1), of t] by simp
  have e1: "entries ?c1 a \<noteq> None" using a(1) by (auto simp: core_view_Some)
  note r = heap_insert_reserved_ok [OF ok1 e1 p1]
  let ?c2 = "heap_insert_reserved ?c1 a"
  have f: "heap_frame ?c1 ?c2" using r by blast
  have v: "core_view ?c2 = core_view ?c1" using f heap_view_core [of ?c2 ?c1] by (simp add: heap_frame_def)
  have "set_mset (mset (expire_heap ?c2)) = insert a (set (expire_heap c))" using r by simp
  then have "set (expire_heap ?c2) = insert a (set (expire_heap c))" by simp
  moreover have "heap_part c ?c2" using heap_part_trans [OF heap_part_modify heap_part_frame [OF f]] .
  ultimately show ?thesis
    unfolding deadline_changed_def using r v t modify_expire [OF a(1), of t] heap_frame_list [OF f] by simp
qed

lemma deadline_moved:
  assumes m: "heap_matches c" and a: "core_view c a = Some d" "core_expire d \<noteq> 0" and t: "t \<noteq> 0"
  shows "deadline_changed c a d t (heap_expiration_changed (modify a (set_expire t) c) a)"
proof -
  let ?c1 = "modify a (set_expire t) c"
  obtain i where i: "heap_index (entry c a) = Some i" using entry_position(1) [OF m a(1)] a(2) by auto
  note p = entry_position(2) [OF m a(1) i]
  have ok: "heap_ok c" using m by (simp add: heap_matches_def)
  have pos: "heap_position c a = Some i" using i a(1) by (auto simp: heap_position_def entry_def core_view_Some)
  then have pos1: "heap_position ?c1 a = Some i" using modify_expire(2) [OF a(1), of t] by simp
  have idx1: "index_ok ?c1" using ok modify_expire(2) [OF a(1), of t] by (simp add: heap_ok_def index_ok_def)
  have "expire_at_ms (entry ?c1 a) = t" using a(1) by (auto simp: entry_def entries_modify core_view_Some)
  moreover have "deadlines ?c1 = (deadlines c)[i := t]"
  proof (rule nth_equalityI)
    fix j assume "j < length (deadlines ?c1)"
    then have j: "j < heap_count c" by simp
    then show "deadlines ?c1 ! j = (deadlines c)[i := t] ! j"
      using p index_ok_inj [of c j i] ok a(1)
      by (cases "j = i") (auto simp: deadlines_def entry_def entries_modify heap_ok_def core_view_Some nth_list_update)
  qed simp
  ultimately have "deadlines ?c1 = (deadlines c)[i := expire_at_ms (entry ?c1 a)]" by simp
  moreover have "is_heap (deadlines c)" using ok by (simp add: heap_ok_def)
  ultimately have r: "heap_ok (heap_expiration_changed ?c1 a)" "heap_frame ?c1 (heap_expiration_changed ?c1 a)"
    "mset (expire_heap (heap_expiration_changed ?c1 a)) = mset (expire_heap ?c1)"
    using heap_expiration_changed_ok [OF idx1 pos1] by blast+
  let ?c2 = "heap_expiration_changed ?c1 a"
  have v: "core_view ?c2 = core_view ?c1" using r(2) heap_view_core [of ?c2 ?c1] by (simp add: heap_frame_def)
  have "a \<in> set (expire_heap c)" using p nth_mem by metis
  then have "set (expire_heap ?c2) = insert a (set (expire_heap c))"
    using mset_eq_setD [OF r(3)] by auto
  moreover have "heap_part c ?c2" using heap_part_trans [OF heap_part_modify heap_part_frame [OF r(2)]] .
  ultimately show ?thesis
    unfolding deadline_changed_def using r v t modify_expire [OF a(1), of t] heap_frame_list [OF r(2)] by simp
qed

lemma weight_expire [simp]: "weight g (d\<lparr>core_expire := t\<rparr>) = weight g d"
  by (cases g) simp_all

lemma heap_count_card: "heap_ok c \<Longrightarrow> heap_count c = card (set (expire_heap c))"
  by (simp add: heap_ok_def index_ok_distinct distinct_card)

lemma cache_ok_deadline:
  assumes ok: "cache_ok c xs" and a: "core_view c a = Some d" and ch: "deadline_changed c a d t c'"
    and room: "core_expire d = 0 \<Longrightarrow> t \<noteq> 0 \<Longrightarrow> heap_count c < heap_capacity c"
  shows "cache_ok c' xs" "content c' = (content c)(core_key d \<mapsto> d\<lparr>core_expire := t\<rparr>)"
proof -
  note ch' = ch [unfolded deadline_changed_def]
  note f = heap_part_fields [of c c']
  have v: "core_view c' = (core_view c)(a \<mapsto> d\<lparr>core_expire := t\<rparr>)" using ch' by blast
  have cat: "catalog_ok c" and m: "heap_matches c" and r: "recency_ok c xs" using ok by (simp_all add: cache_ok_def)
  have "catalog_ok c' \<and> content c' = (content c)(core_key d \<mapsto> d\<lparr>core_expire := t\<rparr>)"
    using catalog_update [OF cat a _ v] f ch' by simp
  then have cat': "catalog_ok c'" and con: "content c' = (content c)(core_key d \<mapsto> d\<lparr>core_expire := t\<rparr>)" by auto
  show "content c' = (content c)(core_key d \<mapsto> d\<lparr>core_expire := t\<rparr>)" by (rule con)
  have "set (expire_heap c') = {b. \<exists>d. core_view c' b = Some d \<and> core_expire d \<noteq> 0}"
    using ch' m v a by (auto simp: heap_matches_def)
  moreover have "heap_count c' \<le> heap_capacity c'"
  proof (cases "core_expire d = 0 \<and> t \<noteq> 0")
    case True
    have "heap_count c' \<le> Suc (heap_count c)"
      using ch' m True card_insert_le_m1 [of "heap_count c + 1" "set (expire_heap c)" a]
      by (simp add: heap_count_card heap_matches_def)
    then show ?thesis using room True f(7) ch' by simp
  next
    case False
    then have "set (expire_heap c') \<subseteq> set (expire_heap c)" using ch' m a by (auto simp: heap_matches_def)
    then show ?thesis using heap_count_mono [of c' c] ch' m f(7) by (simp add: heap_matches_def)
  qed
  ultimately have "heap_matches c'" using ch' by (simp add: heap_matches_def)
  moreover have "a \<in> dom (entries c)" using a by (auto simp: core_view_Some)
  then have "dom (entries c') = dom (entries c)"
    using dom_core_view [of c', unfolded v] by (simp add: insert_absorb)
  then have "recency_ok c' xs" using r ch' f(6) by (simp add: recency_ok_def)
  ultimately show "cache_ok c' xs" using cat' by (simp add: cache_ok_def)
qed

text \<open>The recency order after a use of entry \<open>a\<close>.\<close>

definition touched :: "('m, 'o, 'x) lru_state_scheme \<Rightarrow> nat \<Rightarrow> nat list \<Rightarrow> nat list" where
  "touched c a xs = (if lru_enabled c then a # remove1 a xs else [])"

lemma content_frame: "cache_frame c c' \<Longrightarrow> content c' = content c"
  by (rule ext) (simp add: content_def cache_frame_fields)

lemma gauge_frame: "cache_frame c c' \<Longrightarrow> gauge_of c' g = gauge_of c g"
  by (cases g) (simp_all add: cache_frame_fields)

lemma catalog_frame:
  assumes "cache_frame c c'" "catalog_ok c"
  shows "catalog_ok c'"
  using assms(2) unfolding catalog_ok_def gauge_frame [OF assms(1)] cache_frame_fields [OF assms(1)] .

lemma lru_touch_ok:
  assumes ok: "cache_ok c xs" and a: "entries c a \<noteq> None"
  shows "cache_ok (lru_touch c a) (touched c a xs)" "cache_frame c (lru_touch c a)"
proof -
  have r: "recency_ok c xs" and m: "heap_matches c" and cat: "catalog_ok c" using ok by (simp_all add: cache_ok_def)
  have fr: "lru_frame c (lru_touch c a)"
    using r a lru_touch_list(2) [of c xs a] by (cases "lru_enabled c") (auto simp: recency_ok_def)
  then show f: "cache_frame c (lru_touch c a)" by (rule lru_frame_cache)
  note ff = cache_frame_fields [OF f]
  have "heap_matches (lru_touch c a)"
    using m lru_frame_heap [OF fr] ff by (simp add: heap_matches_def)
  moreover have "recency_ok (lru_touch c a) (touched c a xs)"
  proof (cases "lru_enabled c")
    case True
    then have l: "lru_list c xs" "set xs = dom (entries c)" using r by (simp_all add: recency_ok_def)
    then have ax: "a \<in> set xs" "distinct xs" using a by (auto simp: lru_list_def)
    then have "set (a # remove1 a xs) = dom (entries (lru_touch c a))"
      using l(2) cache_frame_dom [OF f] by auto
    then show ?thesis
      using True ff(19) lru_touch_list(1) [OF True l(1) ax(1)] by (simp add: recency_ok_def touched_def)
  qed (use ff(19) in \<open>simp add: recency_ok_def touched_def\<close>)
  ultimately show "cache_ok (lru_touch c a) (touched c a xs)"
    using catalog_frame [OF f cat] by (simp add: cache_ok_def)
qed

definition deadline_set :: "('m, 'o, 'x) cache_scheme \<Rightarrow> nat \<Rightarrow> u64 \<Rightarrow> ('m, 'o, 'x) cache_scheme" where
  "deadline_set c a t =
     modify a (set_expire t)
       (if expire_at_ms (entry c a) \<noteq> 0 \<and> t = 0 then heap_remove_at c (the (heap_index (entry c a)))
        else if expire_at_ms (entry c a) = 0 \<and> t \<noteq> 0 then heap_insert_reserved (modify a (set_expire t) c) a
        else if expire_at_ms (entry c a) \<noteq> 0 \<and> t \<noteq> 0 then heap_expiration_changed (modify a (set_expire t) c) a
        else c)"

lemma store_expiration_parts: "store_expiration c a t = lru_touch (deadline_set c a t) a"
  by (simp add: store_expiration_def deadline_set_def Let_def)

lemma deadline_changed_again:
  assumes "deadline_changed c a d t c'"
  shows "modify a (set_expire t) c' = c'"
  by (rule modify_expire_same [where d = "d\<lparr>core_expire := t\<rparr>"])
    (use assms in \<open>auto simp: deadline_changed_def\<close>)

lemma deadline_set_ok:
  assumes m: "heap_matches c" and a: "core_view c a = Some d"
  shows "deadline_changed c a d t (deadline_set c a t)"
proof -
  note e = core_entry_fields(5) [OF a]
  consider "core_expire d \<noteq> 0" "t = 0" | "core_expire d = 0" "t \<noteq> 0" | "core_expire d \<noteq> 0" "t \<noteq> 0"
    | "core_expire d = 0" "t = 0" by blast
  then show ?thesis
  proof cases
    case 1
    then obtain i where i: "heap_index (entry c a) = Some i" using entry_position(1) [OF m a] by auto
    with deadline_cleared [OF m a i] 1 e show ?thesis by (simp add: deadline_set_def)
  next
    case 2
    note ch = deadline_added [OF m a 2]
    from deadline_changed_again [OF ch] ch 2 e show ?thesis by (simp add: deadline_set_def)
  next
    case 3
    note ch = deadline_moved [OF m a 3]
    from deadline_changed_again [OF ch] ch 3 e show ?thesis by (simp add: deadline_set_def)
  next
    case 4
    then have "modify a (set_expire 0) c = c" "d\<lparr>core_expire := 0\<rparr> = d" using modify_expire_same [OF a] by simp_all
    moreover have "a \<notin> set (expire_heap c)" using m a 4 by (simp add: heap_matches_def)
    ultimately show ?thesis
      using 4 e m a by (auto simp: deadline_set_def deadline_changed_def heap_part_frame heap_matches_def)
  qed
qed

lemma store_expiration_ok:
  assumes ok: "cache_ok c xs" and a: "core_view c a = Some d"
    and room: "core_expire d = 0 \<Longrightarrow> t \<noteq> 0 \<Longrightarrow> heap_count c < heap_capacity c"
  shows "cache_ok (store_expiration c a t) (touched c a xs)"
    "content (store_expiration c a t) = (content c)(core_key d \<mapsto> d\<lparr>core_expire := t\<rparr>)"
    "same_setup c (store_expiration c a t)" "used_memory (store_expiration c a t) = used_memory c"
    "evict_log (store_expiration c a t) = evict_log c"
    "kv_hash_count (index (store_expiration c a t)) = kv_hash_count (index c)"
    "core_view (store_expiration c a t) = (core_view c)(a \<mapsto> d\<lparr>core_expire := t\<rparr>)"
proof -
  have m: "heap_matches c" using ok by (simp add: cache_ok_def)
  note ch = deadline_set_ok [OF m a, of t]
  note d = cache_ok_deadline [OF ok a ch room]
  let ?c1 = "deadline_set c a t"
  have hp: "heap_part c ?c1" using ch by (simp add: deadline_changed_def)
  note hf = heap_part_fields [OF hp]
  have "entries ?c1 a \<noteq> None" using ch core_view_None [of ?c1 a] by (auto simp: deadline_changed_def)
  note t = lru_touch_ok [OF d(1) this]
  note tf = cache_frame_fields [OF t(2)]
  show "cache_ok (store_expiration c a t) (touched c a xs)"
    using t(1) hf(6) by (simp add: store_expiration_parts touched_def)
  show "content (store_expiration c a t) = (content c)(core_key d \<mapsto> d\<lparr>core_expire := t\<rparr>)"
    using d(2) content_frame [OF t(2)] by (simp add: store_expiration_parts)
  show "same_setup c (store_expiration c a t)" "used_memory (store_expiration c a t) = used_memory c"
    "evict_log (store_expiration c a t) = evict_log c"
    "kv_hash_count (index (store_expiration c a t)) = kv_hash_count (index c)"
    "core_view (store_expiration c a t) = (core_view c)(a \<mapsto> d\<lparr>core_expire := t\<rparr>)"
    using tf hf ch by (simp_all add: store_expiration_parts same_setup_def deadline_changed_def)
qed

subsection \<open>Replacing a value\<close>

lemma modify_entries: "entries (modify a f c) = (entries c)(a := map_option f (entries c a))"
  by (simp add: modify_def)

lemma modify_outer [simp]:
  "index (modify a f c) = index c" "used_memory (modify a f c) = used_memory c"
  "max_keys (modify a f c) = max_keys c" "max_memory (modify a f c) = max_memory c"
  "heap_capacity (modify a f c) = heap_capacity c" "on_evict (modify a f c) = on_evict c"
  "hash_hot_entry (modify a f c) = hash_hot_entry c" "hash_hot_key (modify a f c) = hash_hot_key c"
  "evict_log (modify a f c) = evict_log c" "hits (modify a f c) = hits c" "misses (modify a f c) = misses c"
  "string_keys (modify a f c) = string_keys c" "hash_keys (modify a f c) = hash_keys c"
  "zset_keys (modify a f c) = zset_keys c" "hash_fields (modify a f c) = hash_fields c"
  "zset_members (modify a f c) = zset_members c" "gauge_of (modify a f c) g = gauge_of c g"
  "expired_keys (modify a f c) = expired_keys c" "evicted_keys (modify a f c) = evicted_keys c"
  by (cases g; simp add: modify_def)+

definition put_object :: "('m, 'o) kv_object \<Rightarrow> nat \<Rightarrow> u64 \<Rightarrow> ('m, 'o) cache_entry \<Rightarrow> ('m, 'o) cache_entry" where
  "put_object obj items charge e = e\<lparr>object := obj, object_items := items, memory_charge := charge\<rparr>"

lemma put_object_core: "core (put_object obj items charge e) =
    (core e)\<lparr>core_object := obj, core_items := items, core_charge := charge\<rparr>"
  by (simp add: put_object_def core_def)

lemma put_object_data: "data_only (put_object obj items charge)"
  by (simp add: data_only_def put_object_def)

lemma replace_object_gauge:
  assumes a: "core_view c a = Some d"
    and d': "d' = d\<lparr>core_object := obj, core_items := items, core_charge := charge\<rparr>"
  shows "gauge_of (replace_object c a obj items charge) g = gauge_of c g - weight g d + weight g d'"
proof -
  note f = core_entry_fields [OF a, unfolded entry_def]
  show ?thesis
    by (cases g; cases "kv_object_type (core_object d)"; cases "kv_object_type obj")
      (simp_all add: replace_object_def Let_def entry_def f d' stats_remove_object_def stats_add_object_def)
qed

lemma replace_object_ok:
  assumes ok: "cache_ok c xs" and a: "core_view c a = Some d"
    and d': "d' = d\<lparr>core_object := obj, core_items := items, core_charge := charge\<rparr>"
    and c': "c' = replace_object c a obj items charge"
  shows "cache_ok c' xs" "content c' = (content c)(core_key d \<mapsto> d')" "core_view c' = (core_view c)(a \<mapsto> d')"
    "same_setup c c'" "used_memory c' = used_memory c - core_charge d + charge" "evict_log c' = evict_log c"
    "index c' = index c" "heap_capacity c' = heap_capacity c" "expire_heap c' = expire_heap c"
proof -
  note f = core_entry_fields [OF a, unfolded entry_def]
  have e: "entries c' = (entries c)(a := map_option (put_object obj items charge) (entries c a))"
    unfolding c' by (auto simp: replace_object_def Let_def modify_entries put_object_def [abs_def] option.map_comp comp_def
        fun_eq_iff)
  have dd: "core (put_object obj items charge (entry c a)) = d'" using core_entry [OF a] d' by (simp add: put_object_core)
  show "index c' = index c" "same_setup c c'" "evict_log c' = evict_log c" "heap_capacity c' = heap_capacity c"
    "expire_heap c' = expire_heap c"
    unfolding c' by (simp_all add: replace_object_def Let_def same_setup_def)
  show "used_memory c' = used_memory c - core_charge d + charge"
    unfolding c' by (simp add: replace_object_def Let_def entry_def f)
  have g: "gauge_of c' g = gauge_of c g - weight g d + weight g d'" for g
    unfolding c' by (rule replace_object_gauge [OF a d'])
  show "cache_ok c' xs" "content c' = (content c)(core_key d \<mapsto> d')" "core_view c' = (core_view c)(a \<mapsto> d')"
    using cache_ok_data [OF ok a put_object_data e _ _ dd _ _ _ _ _ g]
    by (simp_all add: d' c' replace_object_def Let_def)
qed

text \<open>Overwriting a string in its buffer.\<close>

lemma set_object_ok:
  assumes ok: "cache_ok c xs" and a: "core_view c a = Some d"
    and ty: "kv_object_type obj = kv_object_type (core_object d)"
    and c': "c' = modify a (set_object obj) c"
  shows "cache_ok c' xs" "content c' = (content c)(core_key d \<mapsto> d\<lparr>core_object := obj\<rparr>)"
    "core_view c' = (core_view c)(a \<mapsto> d\<lparr>core_object := obj\<rparr>)"
proof -
  have f: "data_only (set_object obj)" by (simp add: data_only_def set_object_def)
  have e: "entries c' = (entries c)(a := map_option (set_object obj) (entries c a))"
    unfolding c' by (rule modify_entries)
  have dd: "core (set_object obj (entry c a)) = d\<lparr>core_object := obj\<rparr>"
    using core_entry [OF a] by (auto simp: core_def set_object_def)
  have "weight g (d\<lparr>core_object := obj\<rparr>) = weight g d" for g using ty by (cases g) simp_all
  then have g: "gauge_of c' g = gauge_of c g - weight g d + weight g (d\<lparr>core_object := obj\<rparr>)" for g
    unfolding c' by simp
  show "cache_ok c' xs" "content c' = (content c)(core_key d \<mapsto> d\<lparr>core_object := obj\<rparr>)"
    "core_view c' = (core_view c)(a \<mapsto> d\<lparr>core_object := obj\<rparr>)"
    using cache_ok_data [OF ok a f e _ _ dd _ _ _ _ _ g] by (simp_all add: c')
qed

subsection \<open>Storing\<close>

definition victim_keys :: "('m, 'o, 'x) cache_scheme \<Rightarrow> nat list \<Rightarrow> bytes set" where
  "victim_keys c vs = (\<lambda>a. core_key (victim c a)) ` set vs"

lemma content_evicted:
  assumes c: "catalog_ok c" "catalog_ok c'" and v: "core_view c' = core_view c |` (- set vs)"
    and vs: "set vs \<subseteq> dom (entries c)"
  shows "content c' = content c |` (- victim_keys c vs)"
proof
  fix k
  have m: "index_matches (core_view c) (hash_map (index c))" using c(1) by (simp add: catalog_ok_def)
  have key: "a \<in> set vs \<longleftrightarrow> core_key d \<in> victim_keys c vs" if "core_view c a = Some d" for a d
  proof
    assume "core_key d \<in> victim_keys c vs"
    then obtain b where b: "b \<in> set vs" "core_key d = core_key (victim c b)" by (auto simp: victim_keys_def)
    then have "core_view c b = Some (victim c b)" using vs by (auto simp: victim_def core_view_def)
    with b index_matches_unique [OF m that] show "a \<in> set vs" by metis
  qed (use that in \<open>force simp: victim_keys_def victim_def\<close>)
  have "content c' k = Some d \<longleftrightarrow> (content c |` (- victim_keys c vs)) k = Some d" for d
    using content_iff [OF c(1), of k d] content_iff [OF c(2), of k d] key
    by (auto simp: v restrict_map_def split: if_splits)
  then show "content c' k = (content c |` (- victim_keys c vs)) k"
    by (metis not_None_eq)
qed

text \<open>The stored object may reuse the buffer of an old string: then the value is the same.\<close>

definition same_value :: "('m, 'o) kv_object \<Rightarrow> ('m, 'o) kv_object \<Rightarrow> bool" where
  "same_value o1 o2 \<longleftrightarrow> o1 = o2 \<or>
     (\<exists>v cap cap'. object_value o1 = KV_OBJECT_STRING v cap \<and> object_value o2 = KV_OBJECT_STRING v cap')"

definition within_limits :: "('m, 'o, 'x) cache_scheme \<Rightarrow> bool" where
  "within_limits c \<longleftrightarrow> \<not> limits_exceeded c (kv_hash_count (index c)) (used_memory c)"

text \<open>A successful store under \<open>key\<close> that evicted \<open>vs\<close>.\<close>

definition stored ::
  "('m, 'o, 'x) cache_scheme \<Rightarrow> bytes \<Rightarrow> ('m, 'o) kv_object \<Rightarrow> u64 \<Rightarrow> u64 \<Rightarrow> u64 \<Rightarrow> nat list
     \<Rightarrow> ('m, 'o, 'x) cache_scheme \<Rightarrow> bool" where
  "stored c key obj charge expire t vs c' \<longleftrightarrow> (\<exists>d. content c' = (content c |` (- victim_keys c vs))(key \<mapsto> d)
       \<and> core_key d = key \<and> core_expire d = expire \<and> same_value (core_object d) obj
       \<and> (core_charge d = charge \<or> (\<exists>d0. content c key = Some d0 \<and> core_charge d = core_charge d0)))
     \<and> key \<notin> victim_keys c vs \<and> set vs \<subseteq> dom (entries c) \<and> distinct vs
     \<and> same_setup c c' \<and> evict_log c' = evict_log c @ (if on_evict c
         then [core_key (victim c a). a \<leftarrow> vs, \<not> expired_at t (victim c a)] else [])"

lemma string_update_ok:
  assumes u: "(case (object_value old, object_value obj) of
       (KV_OBJECT_STRING _ _, KV_OBJECT_STRING v _) \<Rightarrow> kv_object_string_update old v
     | _ \<Rightarrow> (old, 0)) = (obj', n)"
  shows "n = 0 \<or> n = 1" "n = 1 \<Longrightarrow> same_value obj' obj \<and> kv_object_type obj' = kv_object_type old"
  using u by (auto simp: kv_object_string_update_def same_value_def kv_object_type_def
      split: kv_value.splits if_splits)

lemma victim_key_other:
  assumes cat: "catalog_ok c" and a: "core_view c a = Some d" and vs: "set vs \<subseteq> dom (entries c)" "a \<notin> set vs"
  shows "core_key d \<notin> victim_keys c vs"
proof
  assume "core_key d \<in> victim_keys c vs"
  then obtain b where b: "b \<in> set vs" "core_key d = core_key (victim c b)" by (auto simp: victim_keys_def)
  have "core_view c b = Some (victim c b)" using vs(1) b(1) by (auto simp: victim_def core_view_def)
  moreover have m: "index_matches (core_view c) (hash_map (index c))" using cat by (simp add: catalog_ok_def)
  ultimately have "a = b" using index_matches_unique [OF m a] b(2) by blast
  with b vs show False by simp
qed

lemma evicted_heap_count:
  assumes "cache_ok c xs" "cache_ok c' ys" "evicted c t vs c'"
  shows "heap_count c' \<le> heap_count c" "heap_capacity c' = heap_capacity c"
proof -
  have "set (expire_heap c') \<subseteq> set (expire_heap c)"
    using assms by (auto simp: cache_ok_def heap_matches_def evicted_def restrict_map_def split: if_splits)
  then show "heap_count c' \<le> heap_count c"
    using assms heap_count_mono [of c' c] by (simp add: cache_ok_def heap_matches_def)
  show "heap_capacity c' = heap_capacity c" using assms by (simp add: evicted_def)
qed

text \<open>One victim fewer and a limit would still be exceeded.\<close>

definition minimal :: "('m, 'o, 'x) cache_scheme \<Rightarrow> nat list \<Rightarrow> ('m, 'o, 'x) cache_scheme \<Rightarrow> bool" where
  "minimal c vs c' \<longleftrightarrow> (\<forall>n < length vs. limits_exceeded c (kv_hash_count (index c') + (length vs - n))
     (used_memory c' + (\<Sum>a\<leftarrow>drop n vs. core_charge (victim c a))))"

text \<open>
  A store that succeeded: the entry \<open>a\<close> of the key is the most recent one, the victims were the
  least recent others.
\<close>

definition store_done ::
  "('m, 'o, 'x) cache_scheme \<Rightarrow> nat list \<Rightarrow> nat \<Rightarrow> bytes \<Rightarrow> ('m, 'o) kv_object \<Rightarrow> u64 \<Rightarrow> u64 \<Rightarrow> u64 \<Rightarrow> nat list
     \<Rightarrow> ('m, 'o, 'x) cache_scheme \<Rightarrow> nat list \<Rightarrow> bool" where
  "store_done c xs a key obj charge expire t vs c' xs' \<longleftrightarrow> cache_ok c' xs' \<and> (within_limits c \<longrightarrow> within_limits c')
     \<and> stored c key obj charge expire t vs c' \<and> minimal c vs c'
     \<and> (lru_enabled c \<longrightarrow> (\<exists>ys. xs' = a # ys \<and> remove1 a xs = ys @ rev vs))
     \<and> (\<forall>b \<in> set xs'. b \<noteq> a \<longrightarrow> core_view c' b = core_view c b) \<and> (\<exists>d. core_view c' a = Some d \<and> core_key d = key)
     \<and> (\<forall>d. core_view c a = Some d \<longrightarrow> core_key d = key)"

lemma sum_list_take_drop: "(\<Sum>x\<leftarrow>take n xs. f x) + (\<Sum>x\<leftarrow>drop n xs. f x) = (\<Sum>x\<leftarrow>xs. f x :: u64)"
  by (metis append_take_drop_id map_append sum_list_append)

lemma evict_post_count:
  assumes ok: "cache_ok c xs" and post: "evict_post M p delta t c xs c1 q vs"
  shows "kv_hash_count (index c) = kv_hash_count (index c1) + length vs"
proof -
  note post' = post [unfolded evict_post_def]
  have cat: "catalog_ok c" "catalog_ok c1" using ok post' by (auto simp: cache_ok_def)
  have v: "core_view c1 = core_view c |` (- set vs)" using post' by (simp add: evicted_def)
  have vs: "set vs \<subseteq> dom (entries c)" "distinct vs" using post' by auto
  have "dom (entries c1) = dom (entries c) - set vs"
    using dom_core_view [of c1, unfolded v] by (auto simp: dom_restrict)
  then have "card (dom (entries c1)) + length vs = card (dom (entries c))"
    using vs cache_finite [OF cat(1)] card_mono [OF _ vs(1)] by (simp add: card_Diff_subset distinct_card)
  then show ?thesis using cache_count [OF cat(1)] cache_count [OF cat(2)] by simp
qed

lemma evict_post_minimal:
  assumes ok: "cache_ok c xs" and post: "evict_post M p delta t c xs c1 q vs"
    and c': "kv_hash_count (index c') = kv_hash_count (index c1)" "used_memory c' = used_memory c1 + delta"
  shows "minimal c vs c'"
  unfolding minimal_def
proof (intro allI impI)
  fix n assume n: "n < length vs"
  note post' = post [unfolded evict_post_def]
  note cnt = evict_post_count [OF ok post]
  have "used_memory c1 = used_memory c - (\<Sum>a\<leftarrow>vs. core_charge (victim c a))"
    using post' by (simp add: evicted_def)
  then have "used_memory c' + (\<Sum>a\<leftarrow>drop n vs. core_charge (victim c a)) =
      used_memory c + delta - (\<Sum>a\<leftarrow>take n vs. core_charge (victim c a))"
    using c'(2) sum_list_take_drop [of "\<lambda>a. core_charge (victim c a)" n vs] by (simp add: algebra_simps)
  moreover have "kv_hash_count (index c') + (length vs - n) = kv_hash_count (index c) - n"
    using cnt c'(1) n by simp
  ultimately show "limits_exceeded c (kv_hash_count (index c') + (length vs - n))
      (used_memory c' + (\<Sum>a\<leftarrow>drop n vs. core_charge (victim c a)))"
    using post' n by simp
qed

lemma cache_ok_distinct: "cache_ok c xs \<Longrightarrow> distinct xs"
  by (auto simp: cache_ok_def recency_ok_def lru_list_def split: if_splits)

lemma cache_ok_set: "cache_ok c xs \<Longrightarrow> lru_enabled c \<Longrightarrow> set xs = dom (entries c)"
  by (simp add: cache_ok_def recency_ok_def)

lemma filter_suffix: "distinct (ys @ rev vs) \<Longrightarrow> filter (\<lambda>b. b \<notin> set vs) (ys @ rev vs) = ys"
  by (auto simp: filter_empty_conv intro!: filter_True)

lemma filter_remove1_suffix:
  assumes "distinct xs" "remove1 a xs = ys @ rev vs" "a \<notin> set vs"
  shows "remove1 a (filter (\<lambda>b. b \<notin> set vs) xs) = ys"
  using filter_suffix [of ys vs] distinct_remove1 [OF assms(1), of a] assms(2,3)
  by (simp add: filter_remove1 [symmetric])

lemma store_inplace_ok:
  assumes ok: "cache_ok c xs" and a: "core_view c a = Some d"
    and up: "same_value obj' obj" "kv_object_type obj' = kv_object_type (core_object d)"
    and room: "core_expire d = 0 \<Longrightarrow> t \<noteq> 0 \<Longrightarrow> heap_count c < heap_capacity c"
  defines "c1 \<equiv> modify a (set_object obj') c"
  shows "store_done c xs a (core_key d) obj charge t t' [] (store_expiration c1 a t) (touched c a xs)"
proof -
  let ?c2 = "store_expiration c1 a t"
  let ?d = "d\<lparr>core_object := obj'\<rparr>"
  have cat: "catalog_ok c" using ok by (simp add: cache_ok_def)
  have s: "cache_ok c1 xs" "content c1 = (content c)(core_key d \<mapsto> ?d)" "core_view c1 = (core_view c)(a \<mapsto> ?d)"
    using set_object_ok [OF ok a up(2) c1_def [THEN meta_eq_to_obj_eq]] by simp_all
  have a1: "core_view c1 a = Some ?d" using s(3) by simp
  have room1: "heap_count c1 < heap_capacity c1" if "core_expire ?d = 0" "t \<noteq> 0"
    using room that by (simp add: c1_def)
  note r = store_expiration_ok [where t = t, OF s(1) a1 room1, simplified]
  have key: "content c (core_key d) = Some d" using content_iff [OF cat] a by blast
  have "stored c (core_key d) obj charge t t' [] ?c2"
    using r s up key by (auto simp: stored_def victim_keys_def same_setup_def restrict_map_def c1_def)
  moreover have "within_limits c \<longrightarrow> within_limits ?c2"
    using r(4,6) limits_exceeded_setup [OF r(3)] by (simp add: within_limits_def limits_exceeded_def c1_def)
  moreover have "touched c1 a xs = touched c a xs" by (simp add: touched_def c1_def)
  ultimately show ?thesis
    using r(1,7) s(3) a by (auto simp: store_done_def minimal_def touched_def)
qed

lemma store_replace_ok:
  assumes ok: "cache_ok c xs" and a: "core_view c a = Some d"
    and post: "evict_post M a (charge - core_charge d) t' c xs c1 q vs"
    and room: "core_expire d = 0 \<Longrightarrow> t \<noteq> 0 \<Longrightarrow> heap_count c < heap_capacity c"
  shows "\<exists>xs'. store_done c xs a (core_key d) obj charge t t' vs
    (store_expiration (replace_object c1 a obj items charge) a t) xs'"
proof -
  note post' = post [unfolded evict_post_def]
  have cat: "catalog_ok c" using ok by (simp add: cache_ok_def)
  have a1: "core_view c1 a = Some d" using post' a by (simp add: evicted_def)
  let ?c2 = "replace_object c1 a obj items charge"
  let ?c3 = "store_expiration ?c2 a t"
  let ?d2 = "d\<lparr>core_object := obj, core_items := items, core_charge := charge\<rparr>"
  let ?xs = "filter (\<lambda>b. b \<notin> set vs) xs"
  have ok1: "cache_ok c1 ?xs" and ev: "evicted c t' vs c1" using post' by auto
  have su1: "same_setup c c1" using ev unfolding evicted_def by blast
  note rep = replace_object_ok [OF ok1 a1 refl refl, of obj items charge]
  have a2: "core_view ?c2 a = Some ?d2" using rep(3) by simp
  have room2: "heap_count ?c2 < heap_capacity ?c2" if "core_expire ?d2 = 0" "t \<noteq> 0"
    using rep(8,9) evicted_heap_count [OF ok ok1 ev] room that by simp
  note st = store_expiration_ok [where t = t, OF rep(1) a2 room2, simplified]
  have su: "same_setup c ?c3" using su1 rep(4) st(3) same_setup_trans by blast
  have used: "used_memory ?c3 = used_memory c1 + (charge - core_charge d)" using st(4) rep(5) by simp
  have "content c1 = content c |` (- victim_keys c vs)"
    using content_evicted [OF cat, of c1 vs] ok1 ev post' by (auto simp: cache_ok_def evicted_def)
  then have "stored c (core_key d) obj charge t t' vs ?c3"
    using st(2,5) rep(2,6) ev post' su victim_key_other [OF cat a, of vs]
    by (auto simp: stored_def evicted_def same_value_def)
  moreover have "within_limits ?c3"
    using post' used st(6) rep(7) limits_exceeded_setup [OF su] limits_exceeded_setup [OF su1]
    unfolding within_limits_def by metis
  moreover have "minimal c vs ?c3"
    by (rule evict_post_minimal [OF ok post]) (use st(6) rep(7) used in simp_all)
  moreover have "cache_ok ?c3 (touched c a ?xs)"
    using st(1) rep(4) su1 by (simp add: touched_def same_setup_def)
  moreover obtain ys where ys: "remove1 a xs = ys @ rev vs" using post' by blast
  moreover have "touched c a ?xs = (if lru_enabled c then a # ys else [])"
    using filter_remove1_suffix [OF cache_ok_distinct [OF ok] ys] post' by (simp add: touched_def)
  moreover have "core_view ?c3 b = core_view c b" if "b \<in> set ys" "b \<noteq> a" for b
  proof -
    have "b \<notin> set vs" using that ys distinct_remove1 [OF cache_ok_distinct [OF ok], of a] by auto
    then show ?thesis using st(7) rep(3) ev that by (simp add: evicted_def)
  qed
  ultimately show ?thesis
    unfolding store_done_def using st(7) a
    by (intro exI [of _ "touched c a ?xs"]) auto
qed

lemma store_existing_ok:
  assumes ok: "cache_ok c xs" and a: "core_view c a = Some d"
    and fits: "max_memory c \<noteq> 0 \<Longrightarrow> charge \<le> max_memory c"
    and room: "core_expire d = 0 \<Longrightarrow> t \<noteq> 0 \<Longrightarrow> heap_count c < heap_capacity c"
  shows "\<exists>c' vs xs'. store_existing clock c a obj items charge t now = Some (c', CACHE_SET_OK)
    \<and> store_done c xs a (core_key d) obj charge t (eviction_time True (clock 2) now) vs c' xs'"
proof -
  note e = core_entry_fields [OF a]
  obtain obj' n where u: "(case (object_value (core_object d), object_value obj) of
       (KV_OBJECT_STRING _ _, KV_OBJECT_STRING v _) \<Rightarrow> kv_object_string_update (core_object d) v
     | _ \<Rightarrow> (core_object d, 0)) = (obj', n)" by fastforce
  note up = string_update_ok [OF u]
  show ?thesis
  proof (cases "n = 1")
    case True
    have "store_existing clock c a obj items charge t now =
        Some (store_expiration (modify a (set_object obj') c) a t, CACHE_SET_OK)"
      unfolding store_existing_def Let_def e u using True by simp
    with store_inplace_ok [OF ok a _ _ room] up True show ?thesis by blast
  next
    case False
    let ?d = "charge - core_charge d"
    let ?t = "eviction_time True (clock 2) now"
    have m: "used_memory c - core_charge d + charge = used_memory c + ?d" by simp
    obtain c1 q vs where l: "evict_loop (\<lambda>c p. p) True a (clock 2) c (used_memory c - core_charge d + charge) now
          = Some (c1, q, True)" and post: "evict_post (\<lambda>c p. p) a ?d ?t c xs c1 q vs"
      using evict_loop_ok [where M = "\<lambda>c p. p" and q = "used_memory c - core_charge d + charge" and delta = ?d
          and reread = True and reading = "clock 2" and now = now, OF ok a m _ _ refl] fits
      by (auto simp: tracks_def)
    have "store_existing clock c a obj items charge t now =
        Some (store_expiration (replace_object c1 a obj items charge) a t, CACHE_SET_OK)"
      unfolding store_existing_def Let_def e u using False up(1) l by auto
    with store_replace_ok [OF ok a post room] show ?thesis by blast
  qed
qed

subsection \<open>A new entry\<close>

definition new_entry :: "bytes \<Rightarrow> ('m, 'o) kv_object \<Rightarrow> nat \<Rightarrow> u64 \<Rightarrow> u64 \<Rightarrow> ('m, 'o) cache_entry" where
  "new_entry key obj items charge t =
     \<lparr>object = obj, memory_charge = charge, object_items = items, expire_at_ms = t, heap_index = None,
      index_node = key, lru_previous = None, lru_next = None\<rparr>"

definition new_core :: "bytes \<Rightarrow> ('m, 'o) kv_object \<Rightarrow> nat \<Rightarrow> u64 \<Rightarrow> u64 \<Rightarrow> ('m, 'o) core" where
  "new_core key obj items charge t =
     \<lparr>core_key = key, core_object = obj, core_charge = charge, core_items = items, core_expire = t\<rparr>"

lemma core_new_entry: "core (new_entry key obj items charge t) = new_core key obj items charge t"
  by (simp add: core_def new_entry_def new_core_def)

text \<open>Allocated and entered in index and statistics, not yet in list and heap.\<close>

definition enter ::
  "('m, 'o, 'x) cache_scheme \<Rightarrow> nat hashtable \<Rightarrow> nat \<Rightarrow> ('m, 'o) cache_entry \<Rightarrow> ('m, 'o, 'x) cache_scheme" where
  "enter c h a e = stats_add_object (c\<lparr>index := h, entries := (entries c)(a \<mapsto> e)\<rparr>) (object e) (object_items e)"

definition link_new ::
  "('m, 'o, 'x) cache_scheme \<Rightarrow> nat \<Rightarrow> u64 \<Rightarrow> u64 \<Rightarrow> ('m, 'o, 'x) cache_scheme" where
  "link_new c a charge t =
     (let c = lru_link_head c a; c = c\<lparr>used_memory := used_memory c + charge\<rparr>
      in if t \<noteq> 0 then heap_insert_reserved c a else c)"

lemma enter_simps [simp]:
  "entries (enter c h a e) = (entries c)(a \<mapsto> e)" "index (enter c h a e) = h"
  "expire_heap (enter c h a e) = expire_heap c" "heap_capacity (enter c h a e) = heap_capacity c"
  "lru_head (enter c h a e) = lru_head c" "lru_tail (enter c h a e) = lru_tail c"
  "lru_enabled (enter c h a e) = lru_enabled c" "max_keys (enter c h a e) = max_keys c"
  "max_memory (enter c h a e) = max_memory c" "used_memory (enter c h a e) = used_memory c"
  "hash_hot_entry (enter c h a e) = hash_hot_entry c" "hash_hot_key (enter c h a e) = hash_hot_key c"
  "evict_log (enter c h a e) = evict_log c" "on_evict (enter c h a e) = on_evict c"
  "core_view (enter c h a e) = (core_view c)(a \<mapsto> core e)"
  by (simp_all add: enter_def core_view_def fun_eq_iff)

lemma enter_gauge: "gauge_of (enter c h a e) g = (if g = Memory then used_memory c else gauge_of c g + weight g (core e))"
  using gauge_add [of "c\<lparr>index := h, entries := (entries c)(a \<mapsto> e)\<rparr>" "core e" g]
  by (cases g) (simp_all add: enter_def)

lemma enter_heap:
  assumes ok: "heap_ok c" and a: "entries c a = None" "heap_index e = None"
  shows "heap_ok (enter c h a e)" "heap_position (enter c h a e) a = None" "a \<notin> set (expire_heap c)"
proof -
  show out: "a \<notin> set (expire_heap c)"
    using ok a(1) unfolding heap_ok_def by (metis in_set_conv_nth index_okD(2))
  have "heap_position (enter c h a e) = heap_position c"
    using a by (auto simp: heap_position_def fun_eq_iff)
  moreover have "deadlines (enter c h a e) = deadlines c"
    using out by (auto simp: deadlines_def entry_def)
  ultimately show "heap_ok (enter c h a e)" using ok by (simp add: heap_ok_def index_ok_def)
  show "heap_position (enter c h a e) a = None" using a by (simp add: heap_position_def)
qed

lemma link_new_ok:
  assumes ok: "heap_ok c" and p: "heap_position c a = None" and e: "entries c a \<noteq> None"
    and l: "lru_enabled c \<Longrightarrow> lru_list c xs" "a \<notin> set xs" and c'_def: "c' = link_new c a charge t"
  shows "cache_frame (c\<lparr>used_memory := used_memory c + charge\<rparr>) c'" "heap_ok c'"
    "set (expire_heap c') = (if t = 0 then set (expire_heap c) else insert a (set (expire_heap c)))"
    "lru_enabled c \<Longrightarrow> lru_list c' (a # xs)"
proof -
  let ?c1 = "lru_link_head c a"
  let ?u = "used_memory c + charge"
  have fr: "lru_frame c ?c1"
    using l e lru_link_head_list(2) [of c xs a] by (cases "lru_enabled c") auto
  obtain x u v where c1: "?c1 = c\<lparr>entries := x, lru_head := u, lru_tail := v\<rparr>" and w: "lru_view ?c1 = lru_view c"
    using fr unfolding lru_frame_def by blast
  let ?c2 = "?c1\<lparr>used_memory := ?u\<rparr>"
  have c2: "c' = (if t \<noteq> 0 then heap_insert_reserved ?c2 a else ?c2)"
    by (simp add: c'_def link_new_def Let_def c1)
  have v2: "core_view ?c2 = core_view c" using lru_view_core [OF w] core_view_cong [of ?c2 ?c1] by simp
  have f2: "cache_frame (c\<lparr>used_memory := ?u\<rparr>) ?c2"
    by (rule cache_frameI [where x = x and h = "expire_heap c" and u = u and v = v])
      (use v2 core_view_cong [of "c\<lparr>used_memory := ?u\<rparr>" c] in \<open>simp_all add: c1\<close>)
  have h2: "heap_ok ?c2" "expire_heap ?c2 = expire_heap c"
    using lru_frame_heap [OF fr] ok heap_ok_cong [of ?c2 ?c1] by simp_all
  have p2: "heap_position ?c2 a = None"
    using lru_view_fields(1) [OF w, of a] p by (simp add: heap_position_def)
  have e2: "entries ?c2 a \<noteq> None" using lru_view_fields(2) [OF w, of a] e by simp
  have l2: "lru_enabled c \<Longrightarrow> lru_list ?c2 (a # xs)"
    using lru_link_head_list(1) [OF _ l(1,2) e] lru_list_cong [of "a # xs" ?c2 ?c1] by simp
  note ins = heap_insert_reserved_ok [OF h2(1) e2 p2]
  have f3: "heap_frame ?c2 (heap_insert_reserved ?c2 a)" using ins by blast
  have s3: "set (expire_heap (heap_insert_reserved ?c2 a)) = insert a (set (expire_heap c))"
    using ins h2(2) by (metis set_mset_add_mset_insert set_mset_mset)
  show "cache_frame (c\<lparr>used_memory := ?u\<rparr>) c'"
    using f2 cache_frame_trans [OF f2 heap_frame_cache [OF f3]] by (simp add: c2)
  show "heap_ok c'" "set (expire_heap c') = (if t = 0 then set (expire_heap c) else insert a (set (expire_heap c)))"
    using ins h2 s3 by (simp_all add: c2)
  show "lru_enabled c \<Longrightarrow> lru_list c' (a # xs)" using l2 heap_frame_list [OF f3] by (simp add: c2)
qed

lemma catalog_insert:
  assumes ok: "catalog_ok c" and a: "core_view c a = None" and k: "hash_map (index c) (core_key d) = None"
    and v: "core_view c' = (core_view c)(a \<mapsto> d)" and i: "hash_inv (index c')"
    and h: "hash_map (index c') = (hash_map (index c))(core_key d \<mapsto> a)"
    and g: "\<And>g. gauge_of c' g = gauge_of c g + weight g d"
    and hot: "hash_hot_entry c' = hash_hot_entry c" "hash_hot_key c' = hash_hot_key c"
    and lim: "max_keys c' = max_keys c" "max_memory c' = max_memory c" "lru_enabled c' = lru_enabled c"
  shows "catalog_ok c'" "content c' = (content c)(core_key d \<mapsto> d)"
proof -
  note ok' = ok [unfolded catalog_ok_def]
  have fin: "finite (dom (core_view c))" using cache_finite [OF ok] by simp
  have m0: "index_matches (core_view c) (hash_map (index c))" using ok' by blast
  have m: "index_matches (core_view c') (hash_map (index c'))"
    unfolding v h by (rule index_matches_insert [OF m0 a k])
  have "gauge_of c' g = total g (core_view c')" for g
  proof -
    have "gauge_of c g = total g (core_view c)" using ok' by blast
    with total_insert [OF fin a, of g d] g [of g] v show ?thesis by simp
  qed
  moreover have "\<exists>d. core_view c' b = Some d \<and> core_key d = hash_hot_key c'"
    if b: "hash_hot_entry c' = Some b" for b
  proof -
    have "\<exists>d. core_view c b = Some d \<and> core_key d = hash_hot_key c" using ok' b hot by auto
    moreover from this have "b \<noteq> a" using a by (metis option.distinct(1))
    ultimately show ?thesis using v hot by simp
  qed
  moreover have "lru_enabled c' = (max_keys c' \<noteq> 0 \<or> max_memory c' \<noteq> 0)"
    unfolding lim using ok' by blast
  ultimately show "catalog_ok c'" unfolding catalog_ok_def using i m by blast
  show "content c' = (content c)(core_key d \<mapsto> d)"
  proof
    fix k
    have "b \<noteq> a" if "hash_map (index c) k = Some b" for b
      using index_matchesD [OF m0, of k b] that a by (metis option.distinct(1))
    then show "content c' k = ((content c)(core_key d \<mapsto> d)) k"
      by (cases "hash_map (index c) k") (auto simp: content_def h v)
  qed
qed

lemma insert_entry_ok:
  assumes ok: "cache_ok c xs" and a: "entries c a = None" and k: "hash_map (index c) key = None"
    and h: "hash_inv h" "hash_map h = (hash_map (index c))(key \<mapsto> a)"
    and room: "t \<noteq> 0 \<Longrightarrow> heap_count c < heap_capacity c"
    and c': "c' = link_new (enter c h a (new_entry key obj items charge t)) a charge t"
  shows "cache_ok c' (if lru_enabled c then a # xs else [])"
    "content c' = (content c)(key \<mapsto> new_core key obj items charge t)"
    "core_view c' = (core_view c)(a \<mapsto> new_core key obj items charge t)"
    "same_setup c c'" "evict_log c' = evict_log c"
proof -
  let ?e = "new_entry key obj items charge t"
  let ?d = "new_core key obj items charge t"
  let ?c1 = "enter c h a ?e"
  have cat: "catalog_ok c" and m: "heap_matches c" and r: "recency_ok c xs" using ok by (simp_all add: cache_ok_def)
  have hok: "heap_ok c" using m by (simp add: heap_matches_def)
  have he: "heap_index ?e = None" by (simp add: new_entry_def)
  note en = enter_heap(1,2) [OF hok a he, of h] enter_heap(3) [OF hok a he]
  have ax: "a \<notin> set xs" using r a by (auto simp: recency_ok_def split: if_splits)
  have l1: "lru_enabled ?c1 \<Longrightarrow> lru_list ?c1 xs"
  proof -
    have "entries ?c1 x = entries c x" if "x \<in> set xs" for x using that ax by auto
    then show "lru_enabled ?c1 \<Longrightarrow> lru_list ?c1 xs"
      using r lru_list_cong [of xs ?c1 c] by (simp add: recency_ok_def)
  qed
  have e1: "entries ?c1 a \<noteq> None" by simp
  note ln = link_new_ok [OF en(1,2) e1 l1 ax c']
  note f = cache_frame_fields [OF ln(1)]
  show v: "core_view c' = (core_view c)(a \<mapsto> ?d)"
    using f(1) core_view_cong [of "?c1\<lparr>used_memory := used_memory ?c1 + charge\<rparr>" ?c1] by (simp add: core_new_entry)
  show "same_setup c c'" "evict_log c' = evict_log c" using f by (simp_all add: same_setup_def)
  have kd: "core_key ?d = key" by (simp add: new_core_def)
  have g: "gauge_of c' g = gauge_of c g + weight g ?d" for g
    using gauge_frame [OF ln(1), of g] enter_gauge [of c h a ?e g]
    by (cases g) (simp_all add: core_new_entry new_core_def)
  note ci = catalog_insert [OF cat _ _ v _ _ g, unfolded kd]
  show "content c' = (content c)(key \<mapsto> ?d)" by (rule ci(2)) (use a k h f in simp_all)
  have "catalog_ok c'" by (rule ci(1)) (use a k h f in simp_all)
  moreover have "heap_matches c'"
  proof -
    have "set (expire_heap c') = {b. \<exists>d. core_view c' b = Some d \<and> core_expire d \<noteq> 0}"
      using ln(3) m v en(3) by (auto simp: heap_matches_def new_core_def)
    moreover have "heap_count c' \<le> heap_capacity c'"
    proof -
      have "heap_count c' = (if t = 0 then heap_count c else Suc (heap_count c))"
        using heap_count_card [OF ln(2)] heap_count_card [OF hok] ln(3) en(3) by simp
      moreover have "heap_count c \<le> heap_capacity c" using m by (simp add: heap_matches_def)
      ultimately show ?thesis using room f(20) by (simp split: if_splits)
    qed
    ultimately show ?thesis using ln(2) by (simp add: heap_matches_def)
  qed
  moreover have "dom (entries c') = insert a (dom (entries c))"
    using dom_core_view [of c', unfolded v] by simp
  then have "recency_ok c' (if lru_enabled c then a # xs else [])"
    using r ln(4) f(19) by (simp add: recency_ok_def)
  ultimately show "cache_ok c' (if lru_enabled c then a # xs else [])" by (simp add: cache_ok_def)
qed

subsection \<open>Storing under an absent key\<close>

lemma heap_grow_ok: "heap_grow capacity required = Some n \<Longrightarrow> 0 < capacity \<Longrightarrow> required \<le> n \<and> capacity \<le> n"
proof (induction capacity required rule: heap_grow.induct)
  case (1 capacity required)
  show ?case
    using "1.prems" "1.IH" heap_grow.simps [of capacity required]
    by (cases "capacity < required"; cases "capacity > SIZE_MAX div 2") auto
qed

lemma heap_reserve_ok:
  assumes "heap_reserve allocated c required = Some c'"
  shows "required \<le> heap_capacity c'" "heap_capacity c \<le> heap_capacity c'" "c' = c\<lparr>heap_capacity := heap_capacity c'\<rparr>"
proof -
  have "required \<le> heap_capacity c' \<and> heap_capacity c \<le> heap_capacity c' \<and> c' = c\<lparr>heap_capacity := heap_capacity c'\<rparr>"
    using assms heap_grow_ok [of _ required]
    by (fastforce simp: heap_reserve_def CACHE_HEAP_INITIAL_CAPACITY_def split: if_splits option.splits)
  then show "required \<le> heap_capacity c'" "heap_capacity c \<le> heap_capacity c'" "c' = c\<lparr>heap_capacity := heap_capacity c'\<rparr>"
    by auto
qed

lemma room_ok:
  assumes ok: "cache_ok c xs" and r: "(if b then heap_reserve allocated c (heap_count c + 1) else Some c) = Some c'"
  shows "cache_ok c' xs" "content c' = content c" "core_view c' = core_view c" "index c' = index c" "entries c' = entries c"
    "same_setup c c'" "evict_log c' = evict_log c" "b \<Longrightarrow> heap_count c' < heap_capacity c'" "used_memory c' = used_memory c"
proof -
  obtain n where c': "c' = c\<lparr>heap_capacity := n\<rparr>" and n: "heap_capacity c \<le> n" "b \<Longrightarrow> heap_count c < n"
  proof (cases b)
    case True
    with r have r': "heap_reserve allocated c (heap_count c + 1) = Some c'" by simp
    show ?thesis by (rule that [OF heap_reserve_ok(3,2) [OF r']]) (use heap_reserve_ok(1) [OF r'] in simp)
  next
    case False
    then show ?thesis using r that [of "heap_capacity c"] by simp
  qed
  have v: "core_view c' = core_view c" by (rule core_view_cong) (simp add: c')
  show "cache_ok c' xs"
  proof (rule cache_ok_cong [OF ok])
    show "gauge_of c' g = gauge_of c g" for g by (cases g) (simp_all add: c')
  qed (use ok n in \<open>auto simp: c' cache_ok_def catalog_ok_def\<close>)
  show "content c' = content c" by (rule ext) (simp add: content_def v, simp add: c')
  show "core_view c' = core_view c" by (rule v)
  show "index c' = index c" "entries c' = entries c" "same_setup c c'" "evict_log c' = evict_log c"
    "b \<Longrightarrow> heap_count c' < heap_capacity c'" "used_memory c' = used_memory c"
    using n by (simp_all add: c' same_setup_def)
qed

text \<open>A store that failed for lack of memory keeps every key.\<close>

definition kept :: "('m, 'o, 'x) cache_scheme \<Rightarrow> ('m, 'o, 'x) cache_scheme \<Rightarrow> bool" where
  "kept c c' \<longleftrightarrow> content c' = content c \<and> same_setup c c' \<and> evict_log c' = evict_log c"

lemma store_new_linked:
  assumes r: "(if t \<noteq> 0 then heap_reserve (heap_allocated alloc) c (heap_count c + 1) else Some c) = Some c1"
    and a: "entry_allocated alloc = Some a"
    and i: "kv_hash_insert (index_allocated alloc) (index c1) key a = (h, Some node)" and n: "node_key node = key"
    and l: "evict_loop (\<lambda>c p. used_memory c) True a (clock 2)
        (link_new (enter c1 h a (new_entry key obj items charge t)) a charge t) 0 now = Some (c', q, True)"
  shows "store_new alloc clock c key obj items charge t now = Some (c', CACHE_SET_OK)"
  unfolding store_new_def r using a i n l
  by (cases "t = 0") (simp_all add: Let_def link_new_def enter_def new_entry_def)

lemma stored_new:
  assumes ok: "cache_ok c xs" and k: "content c key = None"
    and c1: "content c1 = content c" "core_view c1 = core_view c" "same_setup c c1" "evict_log c1 = evict_log c"
    and ea: "entries c1 a = None"
    and c2: "content c2 = (content c1)(key \<mapsto> d)" "core_view c2 = (core_view c1)(a \<mapsto> d)"
      "same_setup c1 c2" "evict_log c2 = evict_log c1" "cache_ok c2 ys"
    and post: "evict_post (\<lambda>c p. used_memory c) a 0 t c2 ys c' q vs"
    and d: "core_key d = key" "core_expire d = e" "core_object d = obj" "core_charge d = charge"
  shows "stored c key obj charge e t vs c' \<and> within_limits c'"
proof -
  note post' = post [unfolded evict_post_def]
  have ev: "evicted c2 t vs c'" and av: "a \<notin> set vs" and vs2: "set vs \<subseteq> dom (entries c2)"
    and ok': "\<exists>zs. cache_ok c' zs" and dist: "distinct vs"
    and lim: "\<not> limits_exceeded c' (kv_hash_count (index c')) (used_memory c')" using post' by auto
  have vic: "victim c2 b = victim c b" if "b \<in> set vs" for b
    using that av c2(2) c1(2) by (auto simp: victim_def)
  have vk: "victim_keys c2 vs = victim_keys c vs" using vic by (simp add: victim_keys_def)
  have cat2: "catalog_ok c2" and cat': "catalog_ok c'" using c2(5) ok' by (auto simp: cache_ok_def)
  have a2: "core_view c2 a = Some d" using c2(2) by simp
  have kv: "key \<notin> victim_keys c vs" using victim_key_other [OF cat2 a2 vs2 av] d(1) vk by simp
  have "content c' = content c2 |` (- victim_keys c2 vs)"
    using content_evicted [OF cat2 cat' _ vs2] ev by (simp add: evicted_def)
  then have con: "content c' = (content c |` (- victim_keys c vs))(key \<mapsto> d)"
    using kv by (simp add: c2(1) c1(1) vk restrict_map_insert fun_eq_iff restrict_map_def)
  have "set vs \<subseteq> dom (entries c)"
    using vs2 av dom_core_view [of c2, unfolded c2(2) c1(2)] by auto
  moreover have su: "same_setup c c2" "same_setup c c'"
    using ev c1(3) c2(3) same_setup_trans unfolding evicted_def by blast+
  moreover have "evict_log c' = evict_log c @ (if on_evict c
         then [core_key (victim c a). a \<leftarrow> vs, \<not> expired_at t (victim c a)] else [])"
  proof -
    have "[core_key (victim c2 b). b \<leftarrow> vs, \<not> expired_at t (victim c2 b)] =
        [core_key (victim c b). b \<leftarrow> vs, \<not> expired_at t (victim c b)]"
      by (rule arg_cong [where f = concat], rule map_cong [OF refl]) (simp add: vic)
    moreover have "on_evict c2 = on_evict c" using su(1) by (simp add: same_setup_def)
    ultimately show ?thesis using ev c2(4) c1(4) unfolding evicted_def by simp
  qed
  ultimately show ?thesis
    unfolding stored_def using con d kv dist lim by (auto simp: within_limits_def same_value_def)
qed

lemma store_new_done:
  assumes ok: "cache_ok c xs" and k: "content c key = None"
    and c1: "content c1 = content c" "core_view c1 = core_view c" "same_setup c c1" "evict_log c1 = evict_log c"
    and ea: "entries c1 a = None"
    and c2: "content c2 = (content c1)(key \<mapsto> d)" "core_view c2 = (core_view c1)(a \<mapsto> d)"
      "same_setup c1 c2" "evict_log c2 = evict_log c1" "cache_ok c2 (if lru_enabled c1 then a # xs else [])"
    and post: "evict_post (\<lambda>c p. used_memory c) a 0 t c2 (if lru_enabled c1 then a # xs else []) c' q vs"
    and d: "core_key d = key" "core_expire d = e" "core_object d = obj" "core_charge d = charge"
  shows "\<exists>xs'. store_done c xs a key obj charge e t vs c' xs'"
proof -
  note st = stored_new [OF ok k c1 ea c2 post d]
  note post' = post [unfolded evict_post_def]
  have en: "lru_enabled c1 = lru_enabled c" using c1(3) by (simp add: same_setup_def)
  have dom: "dom (entries c1) = dom (entries c)" using dom_core_view [of c1, unfolded c1(2)] by simp
  have su: "same_setup c c2" using same_setup_trans [OF c1(3) c2(3)] .
  have av: "a \<notin> set vs" using post' by blast
  have vic: "victim c2 b = victim c b" if "b \<in> set vs" for b
    using that av c2(2) c1(2) by (auto simp: victim_def)
  have "minimal c2 vs c'" by (rule evict_post_minimal [OF c2(5) post]) simp_all
  moreover have "map (\<lambda>b. core_charge (victim c2 b)) (drop n vs) = map (\<lambda>b. core_charge (victim c b)) (drop n vs)" for n
    using vic by (auto dest: in_set_dropD)
  ultimately have mn: "minimal c vs c'" by (simp add: minimal_def limits_exceeded_setup [OF su])
  let ?xs = "filter (\<lambda>b. b \<notin> set vs) (if lru_enabled c1 then a # xs else [])"
  have ok': "cache_ok c' ?xs" using post' by blast
  have ax: "a \<notin> set xs" if "lru_enabled c" using cache_ok_set [OF ok that] ea dom by auto
  obtain ys where ys: "remove1 a (if lru_enabled c1 then a # xs else []) = ys @ rev vs" using post' by blast
  have order: "?xs = a # ys" "remove1 a xs = ys @ rev vs" if "lru_enabled c"
  proof -
    show "remove1 a xs = ys @ rev vs" using that en ys ax by (simp add: remove1_idem)
    moreover have "distinct (ys @ rev vs)"
      using calculation ax that cache_ok_distinct [OF ok] by (metis remove1_idem)
    ultimately show "?xs = a # ys" using that en ys av filter_suffix [of ys vs] ax by (simp add: remove1_idem)
  qed
  have view: "core_view c' b = core_view c b" if "b \<in> set ?xs" "b \<noteq> a" for b
    using post' that c2(2) c1(2) by (simp add: evicted_def)
  moreover have "core_view c' a = Some d" using post' av c2(2) by (simp add: evicted_def)
  moreover have none: "core_view c a \<noteq> Some d'" for d' using ea c1(2) core_view_None [of c1 a] by (metis option.distinct(1))
  ultimately show ?thesis
    unfolding store_done_def using st ok' mn order d(1) none
    by (intro exI [of _ ?xs]) auto
qed

text \<open>The branch in which every allocation succeeded.\<close>

lemma store_new_inserted:
  assumes ok: "cache_ok c xs" and k: "content c key = None" and ea: "entries c a = None"
    and fits: "max_memory c \<noteq> 0 \<Longrightarrow> charge \<le> max_memory c"
    and r: "(if t \<noteq> 0 then heap_reserve (heap_allocated alloc) c (heap_count c + 1) else Some c) = Some c1"
    and al: "entry_allocated alloc = Some a"
    and i: "kv_hash_insert (index_allocated alloc) (index c1) key a = (h, Some node)"
  shows "\<exists>c' vs xs'. store_new alloc clock c key obj items charge t now = Some (c', CACHE_SET_OK)
    \<and> store_done c xs a key obj charge t (eviction_time True (clock 2) now) vs c' xs'"
proof -
  note res = room_ok [OF ok r]
  have hi: "hash_inv (index c1)" using res(1) by (simp add: cache_ok_def catalog_ok_def)
  with kv_hash_insert_ok [OF hi i] have h: "hash_inv h" "hash_map (index c1) key = None"
    "hash_map h = (hash_map (index c1))(key \<mapsto> a)" "node_key node = key" by simp_all
  let ?c2 = "link_new (enter c1 h a (new_entry key obj items charge t)) a charge t"
  let ?xs = "if lru_enabled c1 then a # xs else []"
  let ?d = "new_core key obj items charge t"
  let ?t = "eviction_time True (clock 2) now"
  have ea1: "entries c1 a = None" using ea res(5) by simp
  note ins = insert_entry_ok [OF res(1) ea1 h(2,1,3) res(8) refl]
  have su2: "same_setup c ?c2" using same_setup_trans [OF res(6) ins(4)] .
  have a2: "core_view ?c2 a = Some ?d" using ins(3) by simp
  have "max_memory ?c2 \<noteq> 0 \<Longrightarrow> core_charge ?d + 0 \<le> max_memory ?c2"
    using fits su2 by (simp add: new_core_def same_setup_def)
  with evict_loop_ok [where M = "\<lambda>c p. used_memory c" and q = 0 and delta = 0 and reread = True
      and reading = "clock 2" and now = now, OF ins(1) a2 _ _ _ refl]
  obtain c' q vs where l: "evict_loop (\<lambda>c p. used_memory c) True a (clock 2) ?c2 0 now = Some (c', q, True)"
    and post: "evict_post (\<lambda>c p. used_memory c) a 0 ?t ?c2 ?xs c' q vs"
    by (auto simp: tracks_def)
  have "store_new alloc clock c key obj items charge t now = Some (c', CACHE_SET_OK)"
    using store_new_linked [where clock = clock, OF r al i h(4) l] .
  moreover have "\<exists>xs'. store_done c xs a key obj charge t ?t vs c' xs'"
    by (rule store_new_done [OF ok k res(2,3,6,7) ea1 ins(2-5,1) post]) (simp_all add: new_core_def)
  ultimately show ?thesis by blast
qed

lemma store_new_ok:
  assumes ok: "cache_ok c xs" and k: "content c key = None"
    and fresh: "\<And>a. entry_allocated alloc = Some a \<Longrightarrow> entries c a = None"
    and fits: "max_memory c \<noteq> 0 \<Longrightarrow> charge \<le> max_memory c"
  shows "\<exists>c' r. store_new alloc clock c key obj items charge t now = Some (c', r)
    \<and> (r = CACHE_SET_ERROR \<and> cache_ok c' xs \<and> kept c c'
       \<or> r = CACHE_SET_OK \<and>
         (\<exists>a vs xs'. store_done c xs a key obj charge t (eviction_time True (clock 2) now) vs c' xs'))"
proof (cases "if t \<noteq> 0 then heap_reserve (heap_allocated alloc) c (heap_count c + 1) else Some c")
  case None
  then have "store_new alloc clock c key obj items charge t now = Some (c, CACHE_SET_ERROR)"
    unfolding store_new_def by simp
  with ok show ?thesis by (simp add: kept_def)
next
  case (Some c1)
  note res = room_ok [OF ok Some]
  have kept1: "kept c c1" using res by (simp add: kept_def)
  show ?thesis
  proof (cases "entry_allocated alloc")
    case None
    then have "store_new alloc clock c key obj items charge t now = Some (c1, CACHE_SET_ERROR)"
      unfolding store_new_def Some by simp
    with res kept1 show ?thesis by blast
  next
    case al: (Some a)
    obtain h r where i: "kv_hash_insert (index_allocated alloc) (index c1) key a = (h, r)" by fastforce
    have hi: "hash_inv (index c1)" using res(1) by (simp add: cache_ok_def catalog_ok_def)
    show ?thesis
    proof (cases r)
      case None
      with kv_hash_insert_ok [OF hi i] have h: "hash_inv h" "hash_map h = hash_map (index c1)" by simp_all
      note ix = cache_ok_index [OF res(1) h]
      have "store_new alloc clock c key obj items charge t now = Some (c1\<lparr>index := h\<rparr>, CACHE_SET_ERROR)"
        unfolding store_new_def Some using al i None by simp
      moreover have "kept c (c1\<lparr>index := h\<rparr>)" using kept1 ix(2) by (simp add: kept_def same_setup_def)
      ultimately show ?thesis using ix(1) by blast
    next
      case n: (Some node)
      from store_new_inserted [where clock = clock and obj = obj and items = items and now = now,
          OF ok k fresh [OF al] fits Some al i [unfolded n]]
      obtain c' vs xs' where "store_new alloc clock c key obj items charge t now = Some (c', CACHE_SET_OK)"
        "store_done c xs a key obj charge t (eviction_time True (clock 2) now) vs c' xs'" by auto
      then show ?thesis by blast
    qed
  qed
qed

end
