(* ===== verification/CacheSpec.thy ===== *)
theory CacheSpec
  imports CacheStore
begin

text \<open>
  The operations of the cache against their specification: what each returns and does to the
  contents, and that all of them keep the invariant and the configured limits.
\<close>

subsection \<open>Limits\<close>

text \<open>The exact sum of the charges, which the 64-bit counter \<open>used_memory\<close> follows modulo \<open>2 ^ 64\<close>.\<close>

definition charge_sum :: "('m, 'o, 'x) cache_scheme \<Rightarrow> nat" where
  "charge_sum c = (\<Sum>k \<in> dom (content c). unat (core_charge (the (content c k))))"

definition bounded :: "('m, 'o, 'x) cache_scheme \<Rightarrow> bool" where
  "bounded c \<longleftrightarrow> (max_keys c \<noteq> 0 \<longrightarrow> card (dom (content c)) \<le> max_keys c)
     \<and> (max_memory c \<noteq> 0 \<longrightarrow> charge_sum c \<le> unat (max_memory c))"

lemma content_bij:
  assumes "catalog_ok c"
  shows "bij_betw (\<lambda>a. core_key (the (core_view c a))) (dom (entries c)) (dom (content c))"
proof (rule bij_betw_imageI)
  have m: "index_matches (core_view c) (hash_map (index c))" using assms by (simp add: catalog_ok_def)
  show "inj_on (\<lambda>a. core_key (the (core_view c a))) (dom (entries c))"
  proof (rule inj_onI)
    fix a b assume "a \<in> dom (entries c)" "b \<in> dom (entries c)"
      and e: "core_key (the (core_view c a)) = core_key (the (core_view c b))"
    then obtain d d' where "core_view c a = Some d" "core_view c b = Some d'" by (auto simp: core_view_def)
    with e index_matches_unique [OF m] show "a = b" by auto
  qed
  show "(\<lambda>a. core_key (the (core_view c a))) ` dom (entries c) = dom (content c)"
  proof (rule set_eqI)
    fix k
    have "k \<in> dom (content c) \<longleftrightarrow> (\<exists>a d. core_view c a = Some d \<and> core_key d = k)"
      using content_iff [OF assms, of k] by (auto simp: dom_def)
    then show "k \<in> (\<lambda>a. core_key (the (core_view c a))) ` dom (entries c) \<longleftrightarrow> k \<in> dom (content c)"
      by (force simp: core_view_def)
  qed
qed

lemma content_of_key:
  assumes "catalog_ok c" "a \<in> dom (entries c)"
  shows "content c (core_key (the (core_view c a))) = core_view c a"
proof -
  obtain d where d: "core_view c a = Some d" using assms(2) by (auto simp: core_view_def)
  then have "content c (core_key d) = Some d" using content_iff [OF assms(1)] by blast
  with d show ?thesis by simp
qed

lemma content_card: "catalog_ok c \<Longrightarrow> card (dom (content c)) = kv_hash_count (index c)"
  using bij_betw_same_card [OF content_bij] cache_count by metis

lemma content_finite: "catalog_ok c \<Longrightarrow> finite (dom (content c))"
  using bij_betw_finite [OF content_bij] cache_finite by metis

lemma total_content:
  assumes "catalog_ok c"
  shows "gauge_of c g = (\<Sum>k \<in> dom (content c). weight g (the (content c k)))"
proof -
  have "gauge_of c g = (\<Sum>a \<in> dom (entries c). weight g (the (core_view c a)))"
    using assms unfolding catalog_ok_def total_def by simp
  also have "\<dots> = (\<Sum>a \<in> dom (entries c). weight g (the (content c (core_key (the (core_view c a))))))"
    by (rule sum.cong) (simp_all add: content_of_key [OF assms])
  also have "\<dots> = (\<Sum>k \<in> dom (content c). weight g (the (content c k)))"
    by (rule sum.reindex_bij_betw [OF content_bij [OF assms]])
  finally show ?thesis .
qed

lemma used_memory_sum: "catalog_ok c \<Longrightarrow> used_memory c = of_nat (charge_sum c)"
  using total_content [of c Memory] by (simp add: charge_sum_def)

lemma used_memory_exact: "catalog_ok c \<Longrightarrow> charge_sum c < 2 ^ 64 \<Longrightarrow> unat (used_memory c) = charge_sum c"
  by (simp add: used_memory_sum unat_of_nat)

lemma charge_sum_submap:
  assumes "catalog_ok c" "content c' \<subseteq>\<^sub>m content c"
  shows "charge_sum c' \<le> charge_sum c" "card (dom (content c')) \<le> card (dom (content c))"
proof -
  have d: "dom (content c') \<subseteq> dom (content c)" using map_le_implies_dom_le [OF assms(2)] .
  note fin = content_finite [OF assms(1)]
  have "charge_sum c' = (\<Sum>k \<in> dom (content c'). unat (core_charge (the (content c k))))"
    unfolding charge_sum_def using assms(2) by (intro sum.cong) (auto simp: map_le_def)
  also have "\<dots> \<le> charge_sum c" unfolding charge_sum_def by (rule sum_mono2 [OF fin d]) simp
  finally show "charge_sum c' \<le> charge_sum c" .
  show "card (dom (content c')) \<le> card (dom (content c))" by (rule card_mono [OF fin d])
qed

lemma bounded_submap:
  assumes "catalog_ok c" "content c' \<subseteq>\<^sub>m content c" "same_setup c c'" "bounded c"
  shows "bounded c'"
  using charge_sum_submap [OF assms(1,2)] assms(3,4) by (auto simp: bounded_def same_setup_def)

lemma u64_less: "unat (w :: u64) < 2 ^ 64"
  using unsigned_less [of w, where 'a = nat] by simp

lemma bounded_within:
  assumes "catalog_ok c" "bounded c"
  shows "within_limits c"
proof -
  have "max_memory c \<noteq> 0 \<Longrightarrow> used_memory c \<le> max_memory c"
  proof -
    assume "max_memory c \<noteq> 0"
    then have "charge_sum c \<le> unat (max_memory c)" using assms(2) by (simp add: bounded_def)
    then show "used_memory c \<le> max_memory c"
      using used_memory_exact [OF assms(1)] u64_less [of "max_memory c"] by (simp add: word_le_nat_alt)
  qed
  then show ?thesis
    using assms content_card [OF assms(1)] by (auto simp: within_limits_def limits_exceeded_def bounded_def)
qed

lemma within_bounded:
  assumes "catalog_ok c" "within_limits c" "max_memory c \<noteq> 0 \<Longrightarrow> charge_sum c < 2 ^ 64"
  shows "bounded c"
  using assms(2,3) content_card [OF assms(1)] used_memory_exact [OF assms(1)]
  by (auto simp: within_limits_def limits_exceeded_def bounded_def word_le_nat_alt not_less)

text \<open>A store below half the address space cannot overflow the counter.\<close>

lemma stored_bounded:
  assumes cat: "catalog_ok c" "catalog_ok c'" and b: "bounded c" and s: "stored c key obj charge e t vs c'"
    and w: "within_limits c'" and ch: "max_memory c \<noteq> 0 \<Longrightarrow> charge \<le> max_memory c \<and> max_memory c < 2 ^ 63"
  shows "bounded c'"
proof (rule within_bounded [OF cat(2)])
  show "within_limits c'" by (rule w)
  assume "max_memory c' \<noteq> 0"
  then have mm: "max_memory c \<noteq> 0" using s by (simp add: stored_def same_setup_def)
  let ?m = "content c |` (- victim_keys c vs)"
  obtain d where d: "content c' = ?m(key \<mapsto> d)"
    "core_charge d = charge \<or> (\<exists>d0. content c key = Some d0 \<and> core_charge d = core_charge d0)"
    using s by (auto simp: stored_def)
  let ?w = "\<lambda>m k. unat (core_charge (the (m k :: ('a, 'b) core option)))"
  have fin: "finite (dom (content c))" by (rule content_finite [OF cat(1)])
  have lt: "unat (max_memory c) < 2 ^ 63" using ch mm by (simp add: word_less_nat_alt)
  have old: "charge_sum c \<le> unat (max_memory c)" using b mm by (simp add: bounded_def)
  have dch: "unat (core_charge d) \<le> unat (max_memory c)"
  proof (cases "core_charge d = charge")
    case False
    then obtain d0 where d0: "content c key = Some d0" "core_charge d = core_charge d0" using d(2) by blast
    then have "unat (core_charge d0) \<le> charge_sum c"
      unfolding charge_sum_def using member_le_sum [of key "dom (content c)" "?w (content c)"] fin by force
    with d0 old show ?thesis by simp
  qed (use ch mm in \<open>simp add: word_le_nat_alt\<close>)
  have "charge_sum c' = unat (core_charge d) + (\<Sum>k \<in> dom ?m - {key}. ?w ?m k)"
  proof -
    have "charge_sum c' = (\<Sum>k \<in> insert key (dom ?m - {key}). ?w (?m(key \<mapsto> d)) k)"
      unfolding charge_sum_def d(1) by (rule sum.cong) auto
    also have "\<dots> = unat (core_charge d) + (\<Sum>k \<in> dom ?m - {key}. ?w (?m(key \<mapsto> d)) k)"
      using fin by (subst sum.insert) (auto simp: dom_restrict)
    also have "(\<Sum>k \<in> dom ?m - {key}. ?w (?m(key \<mapsto> d)) k) = (\<Sum>k \<in> dom ?m - {key}. ?w ?m k)"
      by (rule sum.cong) auto
    finally show ?thesis .
  qed
  also have "(\<Sum>k \<in> dom ?m - {key}. ?w ?m k) = (\<Sum>k \<in> dom ?m - {key}. ?w (content c) k)"
    by (rule sum.cong) (auto simp: restrict_map_def split: if_splits)
  also have "\<dots> \<le> charge_sum c" unfolding charge_sum_def by (rule sum_mono2 [OF fin]) (auto simp: dom_restrict)
  finally have "charge_sum c' \<le> unat (core_charge d) + charge_sum c" by simp
  with old dch lt show "charge_sum c' < 2 ^ 64" by simp
qed

subsection \<open>Lookup\<close>

text \<open>The contents after the entry of \<open>key\<close> was dropped if it had expired at time \<open>t\<close>.\<close>

definition purge :: "bytes \<Rightarrow> u64 \<Rightarrow> (bytes \<Rightarrow> ('m, 'o) core option) \<Rightarrow> bytes \<Rightarrow> ('m, 'o) core option" where
  "purge key t m = m(key := live t (m key))"

lemma purge_simps:
  "m key = None \<Longrightarrow> purge key t m = m" "m key = Some d \<Longrightarrow> \<not> expired_at t d \<Longrightarrow> purge key t m = m"
  "m key = Some d \<Longrightarrow> expired_at t d \<Longrightarrow> purge key t m = m(key := None)"
  by (simp_all add: purge_def live_def fun_upd_idem)

lemma purge_submap: "purge key t m \<subseteq>\<^sub>m m"
  by (cases "m key") (auto simp: map_le_def purge_def live_def split: if_splits)

text \<open>What a lookup does besides answering.\<close>

definition looked_up ::
  "('m, 'o, 'x) cache_scheme \<Rightarrow> nat list \<Rightarrow> bytes \<Rightarrow> u64 \<Rightarrow> ('m, 'o, 'x) cache_scheme \<Rightarrow> nat list \<Rightarrow> bool" where
  "looked_up c xs key t c' xs' \<longleftrightarrow> cache_ok c' xs' \<and> content c' = purge key t (content c) \<and> same_setup c c'
     \<and> evict_log c' = evict_log c \<and> hits c' = hits c \<and> misses c' = misses c
     \<and> core_view c' \<subseteq>\<^sub>m core_view c
     \<and> (xs' = xs \<or> (\<exists>a. xs' = remove1 a xs \<and> core_key (victim c a) = key))"

lemma index_only:
  "c' = c\<lparr>index := h\<rparr> \<Longrightarrow>
     same_setup c c' \<and> evict_log c' = evict_log c \<and> hits c' = hits c \<and> misses c' = misses c"
  by (simp add: same_setup_def)

lemma find_live_ok:
  assumes ok: "cache_ok c xs" and f: "find_live c key now reading = (c', r)"
  obtains xs' where "looked_up c xs key (clock_time now reading) c' xs'"
    "r = None \<Longrightarrow> live (clock_time now reading) (content c key) = None"
    "\<And>a. r = Some a \<Longrightarrow> core_view c' a = content c key \<and> xs' = xs \<and> hash_map (index c') key = Some a
       \<and> (\<exists>d. content c key = Some d \<and> \<not> expired_at (clock_time now reading) d) \<and> content c' = content c
       \<and> core_view c' = core_view c"
proof -
  have cat: "catalog_ok c" using ok by (simp add: cache_ok_def)
  from ok f show thesis
  proof (cases rule: find_live_cases)
    case missing
    with index_only [OF missing(3)] show thesis
      by (intro that [of xs]) (auto simp: looked_up_def purge_simps live_def)
  next
    case (expired a d)
    have "core_key (victim c a) = key" using content_key [OF cat expired(2)] expired(4) by (simp add: victim_def)
    moreover have "same_setup c c'" "core_view c' \<subseteq>\<^sub>m core_view c" "evict_log c' = evict_log c" "hits c' = hits c"
      "misses c' = misses c" using expired(7) by (auto simp: removed_def same_setup_def map_le_def)
    ultimately show thesis
      using expired(1-6) by (intro that [of "remove1 a xs"]) (auto simp: looked_up_def purge_simps live_def)
  next
    case (found a d)
    with index_only [OF found(5)] show thesis
      by (intro that [of xs]) (auto simp: looked_up_def purge_simps live_def)
  qed
qed

subsection \<open>Storing\<close>

definition too_large :: "('m, 'o, 'x) cache_scheme \<Rightarrow> bytes \<Rightarrow> ('m, 'o) kv_object \<Rightarrow> bool" where
  "too_large c key obj \<longleftrightarrow> entry_memory_charge (length key) obj = UINT64_MAX \<or>
     (max_memory c \<noteq> 0 \<and> entry_memory_charge (length key) obj > max_memory c)"

text \<open>
  The deadline a store sets: the given one, or the one the key had when it is to be preserved.
  \<open>t\<close> is the time at which the old entry is looked up.
\<close>

definition store_deadline :: "('m, 'o, 'x) cache_scheme \<Rightarrow> bytes \<Rightarrow> u64 \<Rightarrow> u64 \<Rightarrow> bool \<Rightarrow> u64" where
  "store_deadline c key t expire preserve = (case live t (content c key) of
     Some d \<Rightarrow> if preserve then core_expire d else expire
   | None \<Rightarrow> expire)"

text \<open>The keys in the order of their last use.\<close>

definition order_of :: "('m, 'o, 'x) cache_scheme \<Rightarrow> nat list \<Rightarrow> bytes list" where
  "order_of c xs = map (\<lambda>a. core_key (victim c a)) xs"

text \<open>
  The outcome of a store.  The victims \<open>vs\<close> are the least recently used other keys, no more of
  them than needed, in the order of eviction; the stored key becomes the most recent one.
\<close>

definition store_post ::
  "(nat \<Rightarrow> u64) \<Rightarrow> ('m, 'o, 'x) cache_scheme \<Rightarrow> nat list \<Rightarrow> bytes \<Rightarrow> ('m, 'o) kv_object \<Rightarrow> u64 \<Rightarrow> bool
     \<Rightarrow> ('m, 'o, 'x) cache_scheme \<Rightarrow> nat list \<Rightarrow> cache_set_result \<Rightarrow> bool" where
  "store_post clock c xs key obj expire preserve c' xs' r \<longleftrightarrow>
     (let now = (if expire \<noteq> 0 then clock 0 else UINT64_MAX); t = clock_time now (clock 1);
          charge = entry_memory_charge (length key) obj in
      case r of
         CACHE_SET_CAPACITY \<Rightarrow> too_large c key obj \<and> c' = c
       | CACHE_SET_ERROR \<Rightarrow> \<not> too_large c key obj \<and> content c' = purge key t (content c) \<and> evict_log c' = evict_log c
       | CACHE_SET_OK \<Rightarrow> \<not> too_large c key obj \<and> (\<exists>vs. stored c key obj charge
            (store_deadline c key t expire preserve) (clock_time now (clock 2)) vs c' \<and> minimal c vs c'
            \<and> (lru_enabled c \<longrightarrow> (\<exists>ks. order_of c' xs' = key # ks
                 \<and> filter (\<lambda>k. k \<noteq> key) (order_of c xs) = ks @ rev (order_of c vs))))
       | CACHE_SET_RANGE \<Rightarrow> False)"

lemma victim_submap:
  assumes "core_view c0 \<subseteq>\<^sub>m core_view c" "a \<in> dom (entries c0)"
  shows "victim c0 a = victim c a"
proof -
  have "a \<in> dom (core_view c0)" using assms(2) by simp
  then have "core_view c0 a = core_view c a" using assms(1) unfolding map_le_def by blast
  then show ?thesis by (simp add: victim_def)
qed

lemma dom_submap: "core_view c0 \<subseteq>\<^sub>m core_view c \<Longrightarrow> dom (entries c0) \<subseteq> dom (entries c)"
  using map_le_implies_dom_le [of "core_view c0" "core_view c"] by simp

lemma stored_transfer:
  assumes v: "core_view c0 \<subseteq>\<^sub>m core_view c" and su: "same_setup c c0" and ev: "evict_log c0 = evict_log c"
    and con: "content c0 = purge key t (content c)" and s: "stored c0 key obj charge e t' vs c'"
  shows "stored c key obj charge e t' vs c'"
proof -
  have vs: "set vs \<subseteq> dom (entries c0)" using s by (simp add: stored_def)
  then have vic: "victim c0 a = victim c a" if "a \<in> set vs" for a using victim_submap [OF v] that by blast
  have vk: "victim_keys c0 vs = victim_keys c vs" using vic by (simp add: victim_keys_def)
  have keys: "[core_key (victim c0 b). b \<leftarrow> vs, \<not> expired_at t' (victim c0 b)] =
      [core_key (victim c b). b \<leftarrow> vs, \<not> expired_at t' (victim c b)]"
    by (rule arg_cong [where f = concat], rule map_cong [OF refl]) (simp add: vic)
  have oe: "on_evict c0 = on_evict c" using su by (simp add: same_setup_def)
  have "((content c)(key := x) |` S)(key \<mapsto> d) = (content c |` S)(key \<mapsto> d)" for x S and d :: "('a, 'b) core"
    by (auto simp: restrict_map_def fun_eq_iff)
  then have con': "(content c0 |` S)(key \<mapsto> d) = (content c |` S)(key \<mapsto> d)" for S d
    unfolding con purge_def by blast
  have "content c0 \<subseteq>\<^sub>m content c" using con purge_submap by simp
  then have sub: "content c key = Some d" if "content c0 key = Some d" for d
    using that unfolding map_le_def by (metis domI)
  have "set vs \<subseteq> dom (entries c)" using vs dom_submap [OF v] by blast
  moreover have "same_setup c c'" using s su same_setup_trans unfolding stored_def by blast
  moreover obtain d where "content c' = (content c |` (- victim_keys c vs))(key \<mapsto> d)" "core_key d = key"
    "core_expire d = e" "same_value (core_object d) obj"
    "core_charge d = charge \<or> (\<exists>d0. content c key = Some d0 \<and> core_charge d = core_charge d0)"
    using s sub unfolding stored_def vk con' by blast
  moreover have "key \<notin> victim_keys c vs" "distinct vs" using s unfolding stored_def vk by blast+
  moreover have "evict_log c' = evict_log c @ (if on_evict c
      then [core_key (victim c a). a \<leftarrow> vs, \<not> expired_at t' (victim c a)] else [])"
    using s ev unfolding stored_def keys oe by simp
  ultimately show ?thesis unfolding stored_def by blast
qed

lemma minimal_transfer:
  assumes v: "core_view c0 \<subseteq>\<^sub>m core_view c" and su: "same_setup c c0" and vs: "set vs \<subseteq> dom (entries c0)"
    and m: "minimal c0 vs c'"
  shows "minimal c vs c'"
proof -
  have "victim c0 a = victim c a" if "a \<in> set vs" for a using victim_submap [OF v] vs that by blast
  then have eq: "map (\<lambda>a. core_charge (victim c0 a)) (drop n vs) = map (\<lambda>a. core_charge (victim c a)) (drop n vs)" for n
    by (auto dest!: in_set_dropD)
  show ?thesis using m unfolding minimal_def limits_exceeded_setup [OF su] eq .
qed

lemma filter_own_key:
  assumes cat: "catalog_ok c" and xs: "set xs = dom (entries c)" "distinct xs"
    and a: "\<And>d. core_view c a = Some d \<Longrightarrow> core_key d = key" and k: "content c key \<noteq> None \<Longrightarrow> entries c a \<noteq> None"
  shows "filter (\<lambda>b. core_key (victim c b) \<noteq> key) xs = remove1 a xs"
proof -
  have "core_key (victim c b) \<noteq> key \<longleftrightarrow> b \<noteq> a" if b: "b \<in> set xs" for b
  proof -
    obtain d where d: "core_view c b = Some d" using b xs(1) by (auto simp: core_view_def)
    then have v: "victim c b = d" by (simp add: victim_def)
    show ?thesis
    proof
      assume "b \<noteq> a"
      show "core_key (victim c b) \<noteq> key"
      proof
        assume e: "core_key (victim c b) = key"
        then have "content c key = Some d" using content_iff [OF cat] d v by blast
        then obtain d' where d': "core_view c a = Some d'" using k by (auto simp: core_view_def)
        have m: "index_matches (core_view c) (hash_map (index c))" using cat by (simp add: catalog_ok_def)
        from index_matches_unique [OF m d d'] a [OF d'] e v \<open>b \<noteq> a\<close> show False by simp
      qed
    qed (use a d v in auto)
  qed
  then have "filter (\<lambda>b. core_key (victim c b) \<noteq> key) xs = filter (\<lambda>b. b \<noteq> a) xs" by (rule filter_cong [OF refl])
  also have "\<dots> = remove1 a xs" using xs(2) by (simp add: distinct_remove1_removeAll removeAll_filter_not_eq eq_commute)
  finally show ?thesis .
qed

lemma filter_remove1_not: "\<not> P a \<Longrightarrow> filter P (remove1 a xs) = filter P xs"
  by (induction xs) auto

lemma store_done_post:
  assumes ok: "cache_ok c xs" and lk: "looked_up c xs key t c0 xs0" and rs: "content c1 = content c0"
    "core_view c1 = core_view c0" "same_setup c0 c1" "evict_log c1 = evict_log c0" "cache_ok c1 xs0"
    and d: "store_done c1 xs0 a key obj charge e t' vs c' xs'" and k: "content c1 key \<noteq> None \<Longrightarrow> entries c1 a \<noteq> None"
  shows "stored c key obj charge e t' vs c'" "minimal c vs c'" "cache_ok c' xs'"
    "lru_enabled c \<Longrightarrow> \<exists>ks. order_of c' xs' = key # ks
       \<and> filter (\<lambda>k. k \<noteq> key) (order_of c xs) = ks @ rev (order_of c vs)"
proof -
  have v: "core_view c1 \<subseteq>\<^sub>m core_view c" and su: "same_setup c c1" and ev: "evict_log c1 = evict_log c"
    and con: "content c1 = purge key t (content c)"
    using lk rs same_setup_trans by (auto simp: looked_up_def)
  note d' = d [unfolded store_done_def]
  show "stored c key obj charge e t' vs c'" using stored_transfer [OF v su ev con] d' by blast
  have vs: "set vs \<subseteq> dom (entries c1)" using d' by (simp add: stored_def)
  show "minimal c vs c'" using minimal_transfer [OF v su vs] d' by blast
  show "cache_ok c' xs'" using d' by blast
  assume en: "lru_enabled c"
  then have en1: "lru_enabled c1" using su by (simp add: same_setup_def)
  obtain ys where ys: "xs' = a # ys" "remove1 a xs0 = ys @ rev vs" using d' en1 by blast
  have set0: "set xs0 = dom (entries c1)" using cache_ok_set [OF rs(5) en1] .
  have set1: "set xs = dom (entries c)" using cache_ok_set [OF ok en] .
  have cat1: "catalog_ok c1" and cat: "catalog_ok c" using rs(5) ok by (auto simp: cache_ok_def)
  have own: "filter (\<lambda>b. core_key (victim c1 b) \<noteq> key) xs0 = remove1 a xs0"
    by (rule filter_own_key [OF cat1 set0 cache_ok_distinct [OF rs(5)] _ k]) (use d' in blast)
  have vic: "victim c1 b = victim c b" if "b \<in> set xs0" for b
    using victim_submap [OF v] that set0 by blast
  have "filter (\<lambda>b. core_key (victim c b) \<noteq> key) xs = filter (\<lambda>b. core_key (victim c b) \<noteq> key) xs0"
    using lk filter_remove1_not [of "\<lambda>b. core_key (victim c b) \<noteq> key"] by (auto simp: looked_up_def)
  then have f: "filter (\<lambda>b. core_key (victim c b) \<noteq> key) xs = ys @ rev vs"
    using own ys(2) vic by (metis (mono_tags, lifting) filter_cong)
  have "order_of c' xs' = key # order_of c ys"
  proof -
    have "victim c' b = victim c b" if b: "b \<in> set ys" for b
    proof -
      have "b \<in> set (remove1 a xs0)" using b ys(2) by simp
      then have "b \<in> set xs0" "b \<noteq> a" using cache_ok_distinct [OF rs(5)] by (auto simp: set_remove1_eq)
      moreover have "core_view c' b = core_view c1 b" using d' b ys(1) \<open>b \<noteq> a\<close> by simp
      ultimately show ?thesis using vic by (simp add: victim_def)
    qed
    moreover have "core_key (victim c' a) = key" using d' by (auto simp: victim_def)
    ultimately show ?thesis by (simp add: order_of_def ys(1))
  qed
  moreover have "filter (\<lambda>k. k \<noteq> key) (order_of c xs) = order_of c ys @ rev (order_of c vs)"
    using f by (simp add: order_of_def filter_map comp_def rev_map)
  ultimately show "\<exists>ks. order_of c' xs' = key # ks
       \<and> filter (\<lambda>k. k \<noteq> key) (order_of c xs) = ks @ rev (order_of c vs)" by blast
qed

text \<open>Storing after the lookup, with \<open>c1\<close> the state after the reservation in the heap.\<close>

lemma store_done_bounded:
  assumes ok: "cache_ok c xs" and lk: "looked_up c xs key t c0 xs0" and rs: "content c1 = content c0"
    "same_setup c0 c1" "cache_ok c1 xs0" and d: "store_done c1 xs0 a key obj charge e t' vs c' xs'"
    and b: "bounded c" and ch: "max_memory c \<noteq> 0 \<Longrightarrow> charge \<le> max_memory c \<and> max_memory c < 2 ^ 63"
  shows "bounded c'"
proof -
  note d' = d [unfolded store_done_def]
  have cat: "catalog_ok c" "catalog_ok c1" "catalog_ok c'" using ok rs(3) d' by (auto simp: cache_ok_def)
  have su: "same_setup c c1" using lk rs(2) same_setup_trans by (auto simp: looked_up_def)
  have "content c1 \<subseteq>\<^sub>m content c" using rs(1) lk purge_submap by (auto simp: looked_up_def)
  then have b1: "bounded c1" by (rule bounded_submap [OF cat(1) _ su b])
  have w: "within_limits c'" using d' bounded_within [OF cat(2) b1] by blast
  have s: "stored c1 key obj charge e t' vs c'" using d' by blast
  show ?thesis
    by (rule stored_bounded [OF cat(2,3) b1 s w]) (use ch su in \<open>simp add: same_setup_def\<close>)
qed

definition store_outcome ::
  "(nat \<Rightarrow> u64) \<Rightarrow> ('m, 'o, 'x) cache_scheme \<Rightarrow> nat list \<Rightarrow> bytes \<Rightarrow> ('m, 'o) kv_object \<Rightarrow> u64 \<Rightarrow> bool
     \<Rightarrow> (('m, 'o, 'x) cache_scheme \<times> cache_set_result) option \<Rightarrow> bool" where
  "store_outcome clock c xs key obj expire preserve out \<longleftrightarrow> (\<exists>c' r xs'. out = Some (c', r) \<and> cache_ok c' xs'
     \<and> same_setup c c' \<and> store_post clock c xs key obj expire preserve c' xs' r
     \<and> (bounded c \<and> (max_memory c = 0 \<or> max_memory c < 2 ^ 63) \<longrightarrow> bounded c'))"

abbreviation store_now :: "(nat \<Rightarrow> u64) \<Rightarrow> u64 \<Rightarrow> u64" where
  "store_now clock expire \<equiv> (if expire \<noteq> 0 then clock 0 else UINT64_MAX)"

lemma store_outcome_error:
  assumes ok: "cache_ok c xs" and small: "\<not> too_large c key obj"
    and lk: "looked_up c xs key (clock_time (store_now clock expire) (clock 1)) c0 xs0"
    and c': "cache_ok c' xs'" "kept c0 c'"
  shows "store_outcome clock c xs key obj expire preserve (Some (c', CACHE_SET_ERROR))"
proof -
  have cat: "catalog_ok c" using ok by (simp add: cache_ok_def)
  have su: "same_setup c c'" using lk c'(2) same_setup_trans by (auto simp: looked_up_def kept_def)
  have con: "content c' = purge key (clock_time (store_now clock expire) (clock 1)) (content c)"
    "evict_log c' = evict_log c" using lk c'(2) by (auto simp: looked_up_def kept_def)
  have "content c' \<subseteq>\<^sub>m content c" unfolding con(1) by (rule purge_submap)
  then have "bounded c \<Longrightarrow> bounded c'" by (rule bounded_submap [OF cat _ su])
  with con su small c'(1) show ?thesis by (auto simp: store_outcome_def store_post_def Let_def)
qed

lemma store_outcome_done:
  assumes ok: "cache_ok c xs" and small: "\<not> too_large c key obj"
    and lk: "looked_up c xs key (clock_time (store_now clock expire) (clock 1)) c0 xs0"
    and rs: "content c1 = content c0" "core_view c1 = core_view c0" "same_setup c0 c1" "evict_log c1 = evict_log c0"
      "cache_ok c1 xs0"
    and d: "store_done c1 xs0 a key obj (entry_memory_charge (length key) obj)
      (store_deadline c key (clock_time (store_now clock expire) (clock 1)) expire preserve)
      (eviction_time True (clock 2) (store_now clock expire)) vs c' xs'"
    and k: "content c1 key \<noteq> None \<Longrightarrow> entries c1 a \<noteq> None"
  shows "store_outcome clock c xs key obj expire preserve (Some (c', CACHE_SET_OK))"
proof -
  note post = store_done_post [OF ok lk rs d k]
  have su: "same_setup c c'" using post(1) by (simp add: stored_def)
  have "bounded c'" if b: "bounded c" "max_memory c = 0 \<or> max_memory c < 2 ^ 63"
    by (rule store_done_bounded [OF ok lk rs(1,3,5) d b(1)]) (use small b(2) in \<open>auto simp: too_large_def\<close>)
  moreover have "store_post clock c xs key obj expire preserve c' xs' CACHE_SET_OK"
    unfolding store_post_def Let_def cache_set_result.case
    using small post(1,2,4) unfolding simp_thms by blast
  ultimately show ?thesis
    unfolding store_outcome_def using post(3) su by blast
qed

lemma cache_store_object_ok:
  assumes ok: "cache_ok c xs" and fresh: "\<And>a. entry_allocated alloc = Some a \<Longrightarrow> entries c a = None"
  shows "store_outcome clock c xs key obj expire preserve
    (cache_store_object alloc clock c key obj expire preserve)"
proof (cases "too_large c key obj")
  case True
  then have "cache_store_object alloc clock c key obj expire preserve = Some (c, CACHE_SET_CAPACITY)"
    by (simp add: cache_store_object_def too_large_def Let_def)
  with True ok show ?thesis by (auto simp: store_outcome_def store_post_def Let_def)
next
  case small: False
  let ?charge = "entry_memory_charge (length key) obj"
  let ?now = "store_now clock expire"
  let ?t = "clock_time ?now (clock 1)"
  obtain c0 r0 where f: "find_live c key ?now (clock 1) = (c0, r0)" by fastforce
  obtain xs0 where lk: "looked_up c xs key ?t c0 xs0" and none: "r0 = None \<Longrightarrow> live ?t (content c key) = None"
    and some: "\<And>a. r0 = Some a \<Longrightarrow> core_view c0 a = content c key \<and> xs0 = xs \<and> hash_map (index c0) key = Some a
       \<and> (\<exists>d. content c key = Some d \<and> \<not> expired_at ?t d) \<and> content c0 = content c \<and> core_view c0 = core_view c"
    by (rule find_live_ok [OF ok f]) blast
  have ok0: "cache_ok c0 xs0" and con0: "content c0 = purge key ?t (content c)" and su0: "same_setup c c0"
    and v0: "core_view c0 \<subseteq>\<^sub>m core_view c" using lk by (auto simp: looked_up_def)
  have fits: "max_memory c0 \<noteq> 0 \<Longrightarrow> ?charge \<le> max_memory c0"
    using small su0 by (auto simp: too_large_def same_setup_def)
  have small': "\<not> (?charge = UINT64_MAX \<or> (max_memory c \<noteq> 0 \<and> ?charge > max_memory c))"
    using small by (simp add: too_large_def)
  show ?thesis
  proof (cases r0)
    case None
    have "content c0 key = None" using con0 none [OF None] by (simp add: purge_def)
    moreover have "entries c0 b = None" if "entry_allocated alloc = Some b" for b
      using fresh [OF that] dom_submap [OF v0] by auto
    moreover have dl: "store_deadline c key ?t expire preserve = expire"
      using none [OF None] by (simp add: store_deadline_def)
    moreover have "cache_store_object alloc clock c key obj expire preserve =
        store_new alloc clock c0 key obj (object_item_count obj) ?charge expire ?now"
      unfolding cache_store_object_def Let_def if_not_P [OF small'] f None prod.case option.case ..
    moreover note store_new_ok [OF ok0 calculation(1) calculation(2) fits,
        where clock = clock and obj = obj and items = "object_item_count obj" and t = expire and now = ?now]
    ultimately show ?thesis
      using store_outcome_error [OF ok small lk, where preserve = preserve]
        store_outcome_done [OF ok small lk refl refl same_setup_refl refl ok0, where preserve = preserve, unfolded dl]
      by metis
  next
    case (Some a)
    note so = some [OF Some]
    then obtain d where d: "core_view c0 a = Some d" "content c key = Some d" "\<not> expired_at ?t d" by auto
    let ?e = "if preserve then core_expire d else expire"
    have dl: "store_deadline c key ?t expire preserve = ?e" using d by (simp add: store_deadline_def live_def)
    have cat: "catalog_ok c" using ok by (simp add: cache_ok_def)
    have kd: "core_key d = key" using content_key [OF cat d(2)] .
    note en = core_entry_fields(5) [OF d(1)]
    let ?r = "if ?e \<noteq> 0 \<and> core_expire d = 0 then heap_reserve (heap_allocated alloc) c0 (heap_count c0 + 1) else Some c0"
    have eq: "cache_store_object alloc clock c key obj expire preserve = (case ?r of
         None \<Rightarrow> Some (c0, CACHE_SET_ERROR)
       | Some c1 \<Rightarrow> store_existing clock c1 a obj (object_item_count obj) ?charge ?e ?now)"
      unfolding cache_store_object_def Let_def if_not_P [OF small'] f Some prod.case option.case en ..
    show ?thesis
    proof (cases ?r)
      case None
      have "kept c0 c0" by (simp add: kept_def)
      from store_outcome_error [OF ok small lk ok0 this] show ?thesis unfolding eq None by simp
    next
      case r: (Some c1)
      note res = room_ok [OF ok0 r]
      have d1: "core_view c1 a = Some d" using res(3) d(1) by simp
      have f1: "max_memory c1 \<noteq> 0 \<Longrightarrow> ?charge \<le> max_memory c1" using fits res(6) by (simp add: same_setup_def)
      have k1: "entries c1 a \<noteq> None" using d1 by (auto simp: core_view_Some)
      obtain c' vs xs' where "store_existing clock c1 a obj (object_item_count obj) ?charge ?e ?now = Some (c', CACHE_SET_OK)"
        and sd: "store_done c1 xs0 a (core_key d) obj ?charge ?e (eviction_time True (clock 2) ?now) vs c' xs'"
        using store_existing_ok [OF res(1) d1 f1, of ?e] res(8) by blast
      with store_outcome_done [OF ok small lk res(2,3,6,7,1), where preserve = preserve] k1 dl kd
      show ?thesis unfolding eq r by simp
    qed
  qed
qed

end
