(* ===== verification/CacheOps.thy ===== *)
theory CacheOps
  imports CacheSpec
begin

text \<open>
  The remaining operations of the cache, sequences of operations, and the properties of the
  component.
\<close>

subsection \<open>Reading\<close>

text \<open>The answer \<open>r\<close> of a lookup at time \<open>t\<close> that led to the state \<open>c0\<close>.\<close>

definition answered ::
  "('m, 'o, 'x) cache_scheme \<Rightarrow> nat list \<Rightarrow> bytes \<Rightarrow> u64 \<Rightarrow> ('m, 'o, 'x) cache_scheme \<Rightarrow> nat list \<Rightarrow> nat option \<Rightarrow> bool" where
  "answered c xs key t c0 xs0 r \<longleftrightarrow> looked_up c xs key t c0 xs0 \<and> (r = None \<longrightarrow> live t (content c key) = None)
     \<and> (\<forall>a. r = Some a \<longrightarrow> core_view c0 a = content c key \<and> xs0 = xs
          \<and> (\<exists>d. content c key = Some d \<and> \<not> expired_at t d) \<and> content c0 = content c \<and> core_view c0 = core_view c)"

lemma find_live_answered:
  assumes ok: "cache_ok c xs" and f: "find_live c key now reading = (c0, r)"
  shows "\<exists>xs0. answered c xs key (clock_time now reading) c0 xs0 r"
  using find_live_ok [OF ok f, of ?thesis] unfolding answered_def by blast

lemma find_live_reading:
  assumes "cache_ok c xs" "find_live c key UINT64_MAX reading = (c0, r)"
  shows "\<exists>xs0. answered c xs key reading c0 xs0 r"
  using find_live_answered [OF assms] by simp

lemma find_live_now:
  assumes "cache_ok c xs" "find_live c key now now = (c0, r)"
  shows "\<exists>xs0. answered c xs key now c0 xs0 r"
  using find_live_answered [OF assms] by simp

lemma answeredD:
  assumes "answered c xs key t c0 xs0 r"
  shows "cache_ok c0 xs0" "same_setup c c0" "content c0 = purge key t (content c)" "evict_log c0 = evict_log c"
    "r = None \<Longrightarrow> live t (content c key) = None" "content c0 \<subseteq>\<^sub>m content c"
    "r = Some a \<Longrightarrow> \<exists>d. core_view c0 a = Some d \<and> content c key = Some d \<and> live t (content c key) = Some d
       \<and> entries c0 a \<noteq> None"
proof -
  show "cache_ok c0 xs0" "same_setup c c0" "content c0 = purge key t (content c)" "evict_log c0 = evict_log c"
    "r = None \<Longrightarrow> live t (content c key) = None"
    using assms by (auto simp: answered_def looked_up_def)
  show "content c0 \<subseteq>\<^sub>m content c" using assms purge_submap by (simp add: answered_def looked_up_def)
  assume "r = Some a"
  then obtain d where d: "core_view c0 a = Some d" "content c key = Some d" "\<not> expired_at t d"
    using assms by (auto simp: answered_def)
  then have "entries c0 a \<noteq> None" using core_view_None [of c0 a] by (metis option.distinct(1))
  with d show "\<exists>d. core_view c0 a = Some d \<and> content c key = Some d \<and> live t (content c key) = Some d
       \<and> entries c0 a \<noteq> None" by (auto simp: live_def)
qed

lemma cache_ok_counters:
  assumes ok: "cache_ok c xs"
  shows "cache_ok (c\<lparr>hits := n\<rparr>) xs" "content (c\<lparr>hits := n\<rparr>) = content c"
    "cache_ok (c\<lparr>misses := n\<rparr>) xs" "content (c\<lparr>misses := n\<rparr>) = content c"
proof -
  have v: "core_view (c\<lparr>hits := n\<rparr>) = core_view c" "core_view (c\<lparr>misses := n\<rparr>) = core_view c"
    by (rule core_view_cong, simp)+
  show "content (c\<lparr>hits := n\<rparr>) = content c" "content (c\<lparr>misses := n\<rparr>) = content c"
    by (rule ext, simp add: content_def v)+
  show "cache_ok (c\<lparr>hits := n\<rparr>) xs"
  proof (rule cache_ok_cong [OF ok])
    show "gauge_of (c\<lparr>hits := n\<rparr>) g = gauge_of c g" for g by (cases g) simp_all
  qed (use ok in \<open>auto simp: cache_ok_def catalog_ok_def\<close>)
  show "cache_ok (c\<lparr>misses := n\<rparr>) xs"
  proof (rule cache_ok_cong [OF ok])
    show "gauge_of (c\<lparr>misses := n\<rparr>) g = gauge_of c g" for g by (cases g) simp_all
  qed (use ok in \<open>auto simp: cache_ok_def catalog_ok_def\<close>)
qed

text \<open>The part of a read that follows the lookup: counting and moving the entry to the front.\<close>

definition read_entry ::
  "('m, 'o, 'x) cache_scheme \<Rightarrow> nat option \<Rightarrow> bool \<Rightarrow> ('m, 'o, 'x) cache_scheme" where
  "read_entry c r record_hit_or_miss = (case r of
     None \<Rightarrow> if record_hit_or_miss then c\<lparr>misses := misses c + 1\<rparr> else c
   | Some a \<Rightarrow> lru_touch (if record_hit_or_miss then c\<lparr>hits := hits c + 1\<rparr> else c) a)"

lemma read_entry_ok:
  assumes ok: "cache_ok c xs" and a: "\<And>a. r = Some a \<Longrightarrow> entries c a \<noteq> None"
  shows "cache_ok (read_entry c r b) (case r of None \<Rightarrow> xs | Some a \<Rightarrow> touched c a xs)"
    "content (read_entry c r b) = content c" "same_setup c (read_entry c r b)" "core_view (read_entry c r b) = core_view c"
    "evict_log (read_entry c r b) = evict_log c"
    "hits (read_entry c r b) = hits c + (if b \<and> r \<noteq> None then 1 else 0)"
    "misses (read_entry c r b) = misses c + (if b \<and> r = None then 1 else 0)"
proof -
  let ?p = "\<lambda>c'. cache_ok c' (case r of None \<Rightarrow> xs | Some a \<Rightarrow> touched c a xs) \<and> content c' = content c \<and> same_setup c c'
    \<and> core_view c' = core_view c \<and> evict_log c' = evict_log c \<and> hits c' = hits c + (if b \<and> r \<noteq> None then 1 else 0)
    \<and> misses c' = misses c + (if b \<and> r = None then 1 else 0)"
  have "?p (read_entry c r b)"
  proof (cases r)
    case None
    then show ?thesis
      using ok cache_ok_counters [OF ok] core_view_cong [of "c\<lparr>misses := misses c + 1\<rparr>" c]
      by (simp add: read_entry_def same_setup_def)
  next
    case (Some a)
    define c1 where "c1 = (if b then c\<lparr>hits := hits c + 1\<rparr> else c)"
    have c1: "cache_ok c1 xs" "content c1 = content c" using ok cache_ok_counters [OF ok] by (simp_all add: c1_def)
    have v1: "core_view c1 = core_view c" by (rule core_view_cong) (simp add: c1_def)
    have o1: "lru_enabled c1 = lru_enabled c" "same_setup c c1" "evict_log c1 = evict_log c"
      "hits c1 = hits c + (if b then 1 else 0)" "misses c1 = misses c" by (simp_all add: c1_def same_setup_def)
    have "entries c1 a \<noteq> None" using a [OF Some] by (simp add: c1_def)
    note t = lru_touch_ok [OF c1(1) this]
    have "read_entry c r b = lru_touch c1 a" by (simp add: read_entry_def Some c1_def)
    moreover have "touched c1 a xs = touched c a xs" by (simp add: touched_def o1)
    ultimately show ?thesis
      using t(1) content_frame [OF t(2)] cache_frame_fields [OF t(2)] c1 v1 o1 Some by (simp add: same_setup_def)
  qed
  then show "cache_ok (read_entry c r b) (case r of None \<Rightarrow> xs | Some a \<Rightarrow> touched c a xs)"
    "content (read_entry c r b) = content c" "same_setup c (read_entry c r b)" "core_view (read_entry c r b) = core_view c"
    "evict_log (read_entry c r b) = evict_log c"
    "hits (read_entry c r b) = hits c + (if b \<and> r \<noteq> None then 1 else 0)"
    "misses (read_entry c r b) = misses c + (if b \<and> r = None then 1 else 0)" by simp_all
qed

lemma cache_get_object_ref_parts:
  "cache_get_object_ref reading c key b =
     (case find_live c key UINT64_MAX reading of (c, r) \<Rightarrow> (read_entry c r b, r))"
  by (auto simp: cache_get_object_ref_def read_entry_def split: prod.split option.split)

text \<open>What a read does to the cache and answers, at time \<open>t\<close>.\<close>

definition read_post ::
  "('m, 'o, 'x) cache_scheme \<Rightarrow> nat list \<Rightarrow> bytes \<Rightarrow> u64 \<Rightarrow> bool \<Rightarrow> ('m, 'o, 'x) cache_scheme \<Rightarrow> nat list \<Rightarrow> nat option \<Rightarrow> bool" where
  "read_post c xs key t b c' xs' r \<longleftrightarrow> cache_ok c' xs' \<and> content c' = purge key t (content c) \<and> same_setup c c'
     \<and> evict_log c' = evict_log c \<and> Option.bind r (core_view c') = live t (content c key)
     \<and> (r = None \<longleftrightarrow> live t (content c key) = None)
     \<and> hits c' = hits c + (if b \<and> r \<noteq> None then 1 else 0) \<and> misses c' = misses c + (if b \<and> r = None then 1 else 0)
     \<and> (lru_enabled c \<longrightarrow> r \<noteq> None \<longrightarrow>
          order_of c' xs' = key # filter (\<lambda>k. k \<noteq> key) (order_of c xs))"

lemma touched_order:
  assumes ok: "cache_ok c xs" and a: "core_view c a = Some d" "core_key d = key" and en: "lru_enabled c"
    and v: "core_view c' = core_view c"
  shows "order_of c' (touched c a xs) = key # filter (\<lambda>k. k \<noteq> key) (order_of c xs)"
proof -
  have cat: "catalog_ok c" using ok by (simp add: cache_ok_def)
  have "filter (\<lambda>b. core_key (victim c b) \<noteq> key) xs = remove1 a xs"
    by (rule filter_own_key [OF cat cache_ok_set [OF ok en] cache_ok_distinct [OF ok]])
      (use a in \<open>auto simp: core_view_Some\<close>)
  moreover have "victim c' = victim c" using v by (simp add: victim_def fun_eq_iff)
  ultimately show ?thesis
    using en a by (simp add: order_of_def touched_def filter_map comp_def victim_def)
qed

lemma live_not_expired: "live t r = Some d \<longleftrightarrow> r = Some d \<and> \<not> expired_at t d"
  by (auto simp: live_def split: option.splits)

lemma read_after_lookup:
  assumes ok: "cache_ok c xs" and an: "answered c xs key t c0 xs0 r"
  shows "\<exists>xs'. read_post c xs key t b (read_entry c0 r b) xs' r"
proof -
  note an' = answeredD [OF an]
  let ?c' = "read_entry c0 r b"
  have e: "entries c0 a \<noteq> None" if "r = Some a" for a using an'(7) [OF that] by blast
  note rd = read_entry_ok [where r = r and b = b, OF an'(1) e, simplified]
  let ?xs' = "case r of None \<Rightarrow> xs0 | Some a \<Rightarrow> touched c0 a xs0"
  have ans: "Option.bind r (core_view ?c') = live t (content c key)" "r = None \<longleftrightarrow> live t (content c key) = None"
    using an'(5,7) rd(4) by (cases r; auto)+
  have order: "order_of ?c' ?xs' = key # filter (\<lambda>k. k \<noteq> key) (order_of c xs)"
    if en: "lru_enabled c" and r: "r \<noteq> None"
  proof -
    obtain a d where a: "r = Some a" "core_view c0 a = Some d" "content c key = Some d" using r an'(7) by auto
    have "core_key d = key" using content_key [of c key d] ok a(3) by (simp add: cache_ok_def)
    moreover have "lru_enabled c0" using en an'(2) by (simp add: same_setup_def)
    moreover have "order_of c0 xs0 = order_of c xs" using an a(1) by (simp add: answered_def order_of_def victim_def)
    ultimately show ?thesis using touched_order [OF an'(1) a(2) _ _ rd(4)] a(1) by simp
  qed
  have "read_post c xs key t b ?c' ?xs' r"
    unfolding read_post_def
    using rd ans order an' same_setup_trans [OF an'(2) rd(3)] an by (auto simp: answered_def looked_up_def)
  then show ?thesis by blast
qed

lemma cache_get_object_ref_ok:
  assumes ok: "cache_ok c xs" and g: "cache_get_object_ref reading c key b = (c', r)"
  shows "\<exists>xs'. read_post c xs key reading b c' xs' r"
proof -
  obtain c0 where f: "find_live c key UINT64_MAX reading = (c0, r)" and c': "c' = read_entry c0 r b"
    using g by (auto simp: cache_get_object_ref_parts split: prod.splits)
  from find_live_reading [OF ok f] read_after_lookup [OF ok] c' show ?thesis by blast
qed

subsection \<open>Reading through the remembered hash entry\<close>

lemma set_hot_ok:
  assumes ok: "cache_ok c xs" and a: "\<And>a. r = Some a \<Longrightarrow> \<exists>d. core_view c a = Some d \<and> core_key d = key"
    and c': "c' = c\<lparr>hash_hot_entry := r, hash_hot_key := (if r = None then [] else key)\<rparr>"
  shows "cache_ok c' xs" "content c' = content c" "core_view c' = core_view c"
proof -
  show v: "core_view c' = core_view c" by (rule core_view_cong) (simp add: c')
  show "content c' = content c" by (rule ext) (simp add: content_def v, simp add: c')
  show "cache_ok c' xs"
  proof (rule cache_ok_cong [OF ok])
    show "gauge_of c' g = gauge_of c g" for g by (cases g) (simp_all add: c')
    show "\<exists>d. core_view c a = Some d \<and> core_key d = hash_hot_key c'" if "hash_hot_entry c' = Some a" for a
      using that a by (auto simp: c')
  qed (use ok in \<open>auto simp: c' cache_ok_def catalog_ok_def\<close>)
qed

lemma looked_up_cong:
  assumes "looked_up c xs key t c0 xs0" "cache_ok c1 xs0" "content c1 = content c0" "core_view c1 = core_view c0"
    "same_setup c0 c1" "evict_log c1 = evict_log c0" "hits c1 = hits c0" "misses c1 = misses c0"
  shows "looked_up c xs key t c1 xs0"
  using assms same_setup_trans unfolding looked_up_def by metis

lemma find_live_hash_ok:
  assumes ok: "cache_ok c xs" and f: "find_live_hash reading c key = (c0, r)"
  shows "\<exists>xs0. answered c xs key reading c0 xs0 r"
proof (cases "\<exists>a. hash_hot_entry c = Some a \<and> hash_hot_key c = key")
  case True
  then obtain a where a: "hash_hot_entry c = Some a" "hash_hot_key c = key" by blast
  have cat: "catalog_ok c" using ok by (simp add: cache_ok_def)
  obtain d where d: "core_view c a = Some d" "core_key d = key" using cat a by (auto simp: catalog_ok_def)
  have con: "content c key = Some d" using content_iff [OF cat] d by blast
  note e = core_entry_fields(5) [OF d(1)]
  show ?thesis
  proof (cases "expired_at reading d")
    case False
    then have "(c0, r) = (c, Some a)"
      using f a e by (auto simp: find_live_hash_def expired_at_def not_le split: if_splits)
    with False con d ok show ?thesis
      by (intro exI [of _ xs]) (auto simp: answered_def looked_up_def live_def purge_simps)
  next
    case True
    then have c0: "c0 = entry_remove c a REMOVE_EXPIRED" "r = None"
      using f a e by (auto simp: find_live_hash_def expired_at_def not_le split: if_splits)
    note rm = entry_remove_ok [OF ok d(1) c0(1)]
    have "content c0 = (content c)(key := None)"
      using content_removed [OF cat d(1)] rm(1) d(2) by (auto simp: removed_def)
    moreover have "same_setup c c0" by (rule removed_setup [OF rm(1)])
    moreover have "core_view c0 \<subseteq>\<^sub>m core_view c" "evict_log c0 = evict_log c" "hits c0 = hits c" "misses c0 = misses c"
      using rm(1) by (auto simp: removed_def map_le_def)
    ultimately show ?thesis
      using rm(2) c0(2) con True d by (intro exI [of _ "remove1 a xs"])
        (auto simp: answered_def looked_up_def live_def purge_simps victim_def)
  qed
next
  case False
  obtain c1 where g: "find_live c key UINT64_MAX reading = (c1, r)"
    and c0: "c0 = c1\<lparr>hash_hot_entry := r, hash_hot_key := (if r = None then [] else key)\<rparr>"
    using f False by (auto simp: find_live_hash_def split: option.splits prod.splits if_splits)
  obtain xs0 where an: "answered c xs key reading c1 xs0 r" using find_live_reading [OF ok g] by blast
  have "\<exists>d. core_view c1 a = Some d \<and> core_key d = key" if "r = Some a" for a
    using answeredD(7) [OF an that] content_key [of c key] ok by (auto simp: cache_ok_def)
  note hot = set_hot_ok [OF answeredD(1) [OF an] this c0]
  have lk: "looked_up c xs key reading c1 xs0" using an by (simp add: answered_def)
  have "looked_up c xs key reading c0 xs0"
    by (rule looked_up_cong [OF lk hot]) (simp_all add: c0 same_setup_def)
  with an hot show ?thesis unfolding answered_def by metis
qed

lemma cache_get_hash_object_ref_ok:
  assumes ok: "cache_ok c xs" and g: "cache_get_hash_object_ref reading c key b = (c', r)"
  shows "\<exists>xs'. read_post c xs key reading b c' xs' r"
proof -
  obtain c0 where f: "find_live_hash reading c key = (c0, r)" and c': "c' = read_entry c0 r b"
    using g by (auto simp: cache_get_hash_object_ref_def read_entry_def split: prod.splits option.splits)
  from find_live_hash_ok [OF ok f] read_after_lookup [OF ok] c' show ?thesis by blast
qed

subsection \<open>Deletion and deadlines\<close>

lemma cache_delete_ok:
  assumes ok: "cache_ok c xs" and g: "cache_delete reading c key = (c', n)"
  shows "\<exists>xs'. cache_ok c' xs' \<and> content c' = (content c)(key := None) \<and> same_setup c c' \<and> evict_log c' = evict_log c
    \<and> n = (if live reading (content c key) = None then 0 else 1)"
proof -
  obtain c0 r where f: "find_live c key UINT64_MAX reading = (c0, r)" by fastforce
  obtain xs0 where an: "answered c xs key reading c0 xs0 r" using find_live_reading [OF ok f] by blast
  note an' = answeredD [OF an]
  show ?thesis
  proof (cases r)
    case None
    then have "c' = c0" "n = 0" using g f by (simp_all add: cache_delete_def)
    with an'(1-5) None show ?thesis by (intro exI [of _ xs0]) (auto simp: purge_def)
  next
    case (Some a)
    then have c': "c' = entry_remove c0 a REMOVE_NORMAL" "n = 1" using g f by (simp_all add: cache_delete_def)
    obtain d where d: "core_view c0 a = Some d" "content c key = Some d" "live reading (content c key) = Some d"
      using an'(7) [OF Some] by blast
    have cat: "catalog_ok c" "catalog_ok c0" using ok an'(1) by (auto simp: cache_ok_def)
    note rm = entry_remove_ok [OF an'(1) d(1) c'(1)]
    have "content c' = (content c0)(key := None)"
      using content_removed [OF cat(2) d(1)] rm(1) content_key [OF cat(1) d(2)] by (auto simp: removed_def)
    moreover have "same_setup c c'" using an'(2) removed_setup [OF rm(1)] same_setup_trans by blast
    moreover have "evict_log c' = evict_log c" using rm(1) an'(4) by (simp add: removed_def)
    ultimately show ?thesis using rm(2) an'(3) d c'(2) by (auto simp: purge_def)
  qed
qed

text \<open>A new deadline for an entry, at an absolute time other than zero.\<close>

lemma deadline_result:
  assumes ok: "cache_ok c0 xs" and a: "core_view c0 a = Some d" and ch: "deadline_changed c0 a d t c'"
    and room: "core_expire d = 0 \<Longrightarrow> t \<noteq> 0 \<Longrightarrow> heap_count c0 < heap_capacity c0"
  shows "cache_ok c' xs \<and> content c' = (content c0)(core_key d \<mapsto> d\<lparr>core_expire := t\<rparr>) \<and> same_setup c0 c'
    \<and> evict_log c' = evict_log c0"
  using cache_ok_deadline [OF ok a ch room] ch heap_part_fields [of c0 c'] by (simp add: deadline_changed_def)

lemma cache_expire_at_ok:
  assumes ok: "cache_ok c xs" and g: "cache_expire_at heap_ok' now c key t = (c', n)" and t: "t \<noteq> 0"
  shows "\<exists>xs'. cache_ok c' xs' \<and> same_setup c c' \<and> evict_log c' = evict_log c \<and>
    (case live now (content c key) of
       None \<Rightarrow> n = 0 \<and> content c' = (content c)(key := None)
     | Some d \<Rightarrow> n = 1 \<and> content c' = (content c)(key \<mapsto> d\<lparr>core_expire := t\<rparr>)
         \<or> n = - 1 \<and> content c' = content c \<and> core_expire d = 0)"
proof -
  obtain c0 r where f: "find_live c key now now = (c0, r)" by fastforce
  obtain xs0 where an: "answered c xs key now c0 xs0 r" using find_live_now [OF ok f] by blast
  note an' = answeredD [OF an]
  show ?thesis
  proof (cases r)
    case None
    then have "c' = c0" "n = 0" using g f t by (simp_all add: cache_expire_at_def)
    with an'(1-5) None show ?thesis by (intro exI [of _ xs0]) (auto simp: purge_def)
  next
    case (Some a)
    obtain d where d: "core_view c0 a = Some d" "content c key = Some d" "live now (content c key) = Some d"
      using an'(7) [OF Some] by blast
    have kd: "core_key d = key" using content_key [of c key d] ok d(2) by (simp add: cache_ok_def)
    have con: "content c0 = content c" using an'(3) d(2,3) by (simp add: purge_def fun_upd_idem)
    note e = core_entry_fields(5) [OF d(1)]
    have m: "heap_matches c0" using an'(1) by (simp add: cache_ok_def)
    show ?thesis
    proof (cases "core_expire d = 0")
      case False
      then have c': "c' = heap_expiration_changed (modify a (set_expire t) c0) a" "n = 1"
        using g f t Some e by (simp_all add: cache_expire_at_def)
      note dr = deadline_result [OF an'(1) d(1) deadline_moved [OF m d(1) False t]]
      with c' False d con kd an'(2,4) same_setup_trans show ?thesis by (auto intro!: exI [of _ xs0])
    next
      case True
      let ?r = "heap_reserve heap_ok' c0 (heap_count c0 + 1)"
      show ?thesis
      proof (cases ?r)
        case None
        then have "c' = c0" "n = - 1" using g f t Some e True by (simp_all add: cache_expire_at_def)
        with d con True an'(1,2,4) show ?thesis by auto
      next
        case r: (Some c1)
        then have c': "c' = heap_insert_reserved (modify a (set_expire t) c1) a" "n = 1"
          using g f t Some e True by (simp_all add: cache_expire_at_def)
        have "(if True then ?r else Some c0) = Some c1" using r by simp
        note res = room_ok [OF an'(1) this]
        have d1: "core_view c1 a = Some d" and m1: "heap_matches c1" using res d by (auto simp: cache_ok_def)
        note dr = deadline_result [OF res(1) d1 deadline_added [OF m1 d1 True t]]
        moreover have "same_setup c c1" using same_setup_trans [OF an'(2) res(6)] .
        ultimately show ?thesis
          using c' d con kd an'(4) res(2,7,8) same_setup_trans by (auto intro!: exI [of _ xs0])
      qed
    qed
  qed
qed

lemma cache_persist_ok:
  assumes ok: "cache_ok c xs" and g: "cache_persist reading c key = (c', n)"
  shows "\<exists>xs'. cache_ok c' xs' \<and> same_setup c c' \<and> evict_log c' = evict_log c \<and>
    (case live reading (content c key) of
       None \<Rightarrow> n = 0 \<and> content c' = (content c)(key := None)
     | Some d \<Rightarrow> n = (if core_expire d = 0 then 0 else 1) \<and> content c' = (content c)(key \<mapsto> d\<lparr>core_expire := 0\<rparr>))"
proof -
  obtain c0 r where f: "find_live c key UINT64_MAX reading = (c0, r)" by fastforce
  obtain xs0 where an: "answered c xs key reading c0 xs0 r" using find_live_reading [OF ok f] by blast
  note an' = answeredD [OF an]
  show ?thesis
  proof (cases r)
    case None
    then have "c' = c0" "n = 0" using g f by (simp_all add: cache_persist_def)
    with an'(1-5) None show ?thesis by (intro exI [of _ xs0]) (auto simp: purge_def)
  next
    case (Some a)
    obtain d where d: "core_view c0 a = Some d" "content c key = Some d" "live reading (content c key) = Some d"
      using an'(7) [OF Some] by blast
    have kd: "core_key d = key" using content_key [of c key d] ok d(2) by (simp add: cache_ok_def)
    have con: "content c0 = content c" using an'(3) d(2,3) by (simp add: purge_def fun_upd_idem)
    note e = core_entry_fields(5) [OF d(1)]
    have m: "heap_matches c0" using an'(1) by (simp add: cache_ok_def)
    show ?thesis
    proof (cases "core_expire d = 0")
      case True
      then have "c' = c0" "n = 0" using g f Some e by (simp_all add: cache_persist_def)
      moreover have "d\<lparr>core_expire := 0\<rparr> = d" using True by simp
      ultimately show ?thesis using d con True an'(1,2,4) by (auto simp: fun_upd_idem)
    next
      case False
      then obtain i where i: "heap_index (entry c0 a) = Some i" using entry_position(1) [OF m d(1)] by auto
      have c': "c' = modify a (set_expire 0) (heap_remove_at c0 i)" "n = 1"
        using g f Some e i False by (simp_all add: cache_persist_def)
      note dr = deadline_result [OF an'(1) d(1) deadline_cleared [OF m d(1) i]]
      with c' False d con kd an'(2,4) same_setup_trans show ?thesis by (auto intro!: exI [of _ xs0])
    qed
  qed
qed

lemma cache_ttl_ms_ok:
  assumes ok: "cache_ok c xs" and g: "cache_ttl_ms now c key = (c', n)"
  shows "\<exists>xs'. cache_ok c' xs' \<and> same_setup c c' \<and> evict_log c' = evict_log c \<and> content c' = purge key now (content c)
    \<and> n = (case live now (content c key) of None \<Rightarrow> - 2
         | Some d \<Rightarrow> if core_expire d = 0 then - 1 else min (uint (core_expire d) - uint now) (2 ^ 63 - 1))"
proof -
  obtain c0 r where f: "find_live c key now now = (c0, r)" by fastforce
  obtain xs0 where an: "answered c xs key now c0 xs0 r" using find_live_now [OF ok f] by blast
  note an' = answeredD [OF an]
  have c': "c' = c0" using g f by (auto simp: cache_ttl_ms_def Let_def split: option.splits if_splits)
  have "n = (case live now (content c key) of None \<Rightarrow> - 2
         | Some d \<Rightarrow> if core_expire d = 0 then - 1 else min (uint (core_expire d) - uint now) (2 ^ 63 - 1))"
  proof (cases r)
    case None
    then show ?thesis using g f an'(5) by (simp add: cache_ttl_ms_def)
  next
    case (Some a)
    obtain d where d: "core_view c0 a = Some d" "live now (content c key) = Some d" using an'(7) [OF Some] by blast
    have "\<not> core_expire d \<le> now" if "core_expire d \<noteq> 0"
      using d(2) that by (auto simp: live_def expired_at_def split: option.splits if_splits)
    then have "core_expire d \<noteq> 0 \<Longrightarrow> uint (core_expire d - now) = uint (core_expire d) - uint now"
      by (simp add: uint_minus_simple_alt [THEN iffD1] word_le_def not_le)
    then show ?thesis
      using g f Some d core_entry_fields(5) [OF d(1)]
      by (auto simp: cache_ttl_ms_def Let_def word_less_def min_def split: if_splits)
  qed
  with an'(1-4) c' show ?thesis by blast
qed

subsection \<open>Maintenance\<close>

lemma heap_root:
  assumes ok: "cache_ok c xs" and n: "heap_count c > 0"
  obtains d where "core_view c (expire_heap c ! 0) = Some d" "core_expire d \<noteq> 0"
    "\<And>k d'. content c k = Some d' \<Longrightarrow> core_expire d' \<noteq> 0 \<Longrightarrow> core_expire d \<le> core_expire d'"
proof -
  have m: "heap_matches c" and cat: "catalog_ok c" using ok by (auto simp: cache_ok_def)
  have "expire_heap c ! 0 \<in> set (expire_heap c)" using n nth_mem by blast
  then obtain d where d: "core_view c (expire_heap c ! 0) = Some d" "core_expire d \<noteq> 0"
    using m by (auto simp: heap_matches_def)
  have "core_expire d \<le> core_expire d'" if k: "content c k = Some d'" and e: "core_expire d' \<noteq> 0" for k d'
  proof -
    obtain b where b: "core_view c b = Some d'" using content_iff [OF cat] k by blast
    then have "b \<in> set (expire_heap c)" using m e by (auto simp: heap_matches_def)
    then obtain i where i: "i < heap_count c" "expire_heap c ! i = b" by (auto simp: in_set_conv_nth)
    have "deadlines c ! 0 \<le> deadlines c ! i"
      using heap_least [of "deadlines c" i] m i(1) by (simp add: heap_matches_def heap_ok_def)
    moreover have "deadlines c ! 0 = core_expire d" "deadlines c ! i = core_expire d'"
      using i n core_entry_fields(5) [OF d(1)] core_entry_fields(5) [OF b] by (simp_all add: deadlines_def)
    ultimately show ?thesis by simp
  qed
  with d show thesis using that by blast
qed

lemma no_deadlines:
  assumes "cache_ok c xs" "heap_count c = 0" "content c k = Some d"
  shows "core_expire d = 0"
proof -
  have cat: "catalog_ok c" using assms(1) by (simp add: cache_ok_def)
  obtain b where "core_view c b = Some d" using content_iff [OF cat, of k d] assms(3) by blast
  moreover have "{a. \<exists>d. core_view c a = Some d \<and> core_expire d \<noteq> 0} = {}"
    using assms(1,2) by (auto simp: cache_ok_def heap_matches_def)
  ultimately show ?thesis by blast
qed

text \<open>
  The removal of expired keys, earliest deadline first, at most \<open>budget\<close> of them; \<open>n\<close> were removed
  before and \<open>m\<close> are when it stops.
\<close>

definition expire_post ::
  "('m, 'o, 'x) cache_scheme \<Rightarrow> u64 \<Rightarrow> nat \<Rightarrow> nat \<Rightarrow> ('m, 'o, 'x) cache_scheme \<Rightarrow> nat \<Rightarrow> bool" where
  "expire_post c now budget n c' m \<longleftrightarrow> cache_inv c' \<and> same_setup c c' \<and> evict_log c' = evict_log c
     \<and> content c' \<subseteq>\<^sub>m content c \<and> m + card (dom (content c')) = n + card (dom (content c))
     \<and> (\<forall>k d. content c k = Some d \<longrightarrow> content c' k = None \<longrightarrow> expired_at now d
          \<and> (\<forall>k' d'. content c' k' = Some d' \<longrightarrow> core_expire d' \<noteq> 0 \<longrightarrow> core_expire d \<le> core_expire d'))
     \<and> (m < budget \<longrightarrow> (\<forall>k d. content c' k = Some d \<longrightarrow> \<not> expired_at now d)) \<and> (n \<le> budget \<longrightarrow> m \<le> budget)"

lemma expire_post_done:
  assumes "cache_ok c xs" "n < budget \<Longrightarrow> \<forall>k d. content c k = Some d \<longrightarrow> \<not> expired_at now d"
  shows "expire_post c now budget n c n"
  using assms by (auto simp: expire_post_def cache_inv_def)

lemma expire_post_step:
  assumes ok: "cache_ok c xs" and a: "core_view c a = Some d" and ex: "expired_at now d"
    and least: "\<And>k d'. content c k = Some d' \<Longrightarrow> core_expire d' \<noteq> 0 \<Longrightarrow> core_expire d \<le> core_expire d'"
    and rm: "removed c a d REMOVE_EXPIRED c1" and p: "expire_post c1 now budget (n + 1) c' m" and n: "n < budget"
  shows "expire_post c now budget n c' m"
proof -
  note p' = p [unfolded expire_post_def]
  have cat: "catalog_ok c" using ok by (simp add: cache_ok_def)
  have key: "content c (core_key d) = Some d" using content_iff [OF cat] a by blast
  have con: "content c1 = (content c)(core_key d := None)"
    using content_removed [OF cat a, of c1] rm by (simp add: removed_def)
  then have sub: "content c1 \<subseteq>\<^sub>m content c" by (auto simp: map_le_def)
  have "card (dom (content c)) = Suc (card (dom (content c1)))"
    using con card_Suc_Diff1 [OF content_finite [OF cat], of "core_key d"] key domI [of "content c"] by simp
  moreover have subs: "content c' \<subseteq>\<^sub>m content c" using p' sub map_le_trans by blast
  moreover have "same_setup c c'" using removed_setup [OF rm] p' same_setup_trans by blast
  moreover have "evict_log c' = evict_log c" using rm p' by (simp add: removed_def)
  moreover have "expired_at now e \<and> (\<forall>k' d'. content c' k' = Some d' \<longrightarrow> core_expire d' \<noteq> 0 \<longrightarrow> core_expire e \<le> core_expire d')"
    if k: "content c k = Some e" "content c' k = None" for k e
  proof (cases "k = core_key d")
    case True
    then have "e = d" using k key by simp
    moreover have "content c k' = Some d'" if "content c' k' = Some d'" for k' d'
      using that subs unfolding map_le_def by (metis domI)
    ultimately show ?thesis using ex least by blast
  next
    case False
    then have "content c1 k = Some e" using con k by simp
    with k(2) p' show ?thesis by blast
  qed
  ultimately show ?thesis using p' n unfolding expire_post_def by auto
qed

lemma expire_loop_ok:
  "cache_ok c xs \<Longrightarrow> expire_loop c now budget n = (c', m) \<Longrightarrow> expire_post c now budget n c' m"
proof (induction c now budget n arbitrary: xs rule: expire_loop.induct)
  case (1 c now budget n)
  show ?case
  proof (cases "n < budget \<and> heap_count c > 0")
    case False
    then have "c' = c" "m = n" using "1.prems"(2) by (auto simp: expire_loop.simps [of c])
    moreover have "\<forall>k d. content c k = Some d \<longrightarrow> \<not> expired_at now d" if "n < budget"
      using False that no_deadlines [OF "1.prems"(1)] by (auto simp: expired_at_def)
    ultimately show ?thesis using expire_post_done [OF "1.prems"(1)] by blast
  next
    case True
    let ?a = "expire_heap c ! 0"
    obtain d where d: "core_view c ?a = Some d" "core_expire d \<noteq> 0"
      "\<And>k d'. content c k = Some d' \<Longrightarrow> core_expire d' \<noteq> 0 \<Longrightarrow> core_expire d \<le> core_expire d'"
      using heap_root [OF "1.prems"(1)] True by blast
    note e = core_entry_fields(5) [OF d(1)]
    show ?thesis
    proof (cases "core_expire d > now")
      case late: True
      then have "c' = c" "m = n" using "1.prems"(2) True e by (auto simp: expire_loop.simps [of c] Let_def)
      moreover have "\<not> expired_at now d'" if "content c k = Some d'" for k d'
        using d(3) [OF that] late by (auto simp: expired_at_def)
      ultimately show ?thesis using expire_post_done [OF "1.prems"(1)] by blast
    next
      case False
      let ?c1 = "entry_remove c ?a REMOVE_EXPIRED"
      note rm = entry_remove_ok [OF "1.prems"(1) d(1) refl, of REMOVE_EXPIRED]
      have "expire_loop ?c1 now budget (n + 1) = (c', m)"
        using "1.prems"(2) True False e by (simp add: expire_loop.simps [of c] Let_def)
      from "1.IH" [OF True refl _ rm(2) this] False e have "expire_post ?c1 now budget (n + 1) c' m" by simp
      from expire_post_step [OF "1.prems"(1) d(1) _ d(3) rm(1) this] False d(2) True show ?thesis
        by (simp add: expired_at_def not_less)
    qed
  qed
qed

lemma cache_maintain_ok:
  assumes ok: "cache_ok c xs" and g: "cache_maintain now c budget rehash_budget = (c', m)"
  shows "expire_post c now budget 0 c' m"
proof -
  obtain c1 where l: "expire_loop c now budget 0 = (c1, m)"
    and c': "c' = c1\<lparr>index := fst (kv_hash_rehash_step (index c1) rehash_budget)\<rparr>"
    using g by (auto simp: cache_maintain_def split: prod.splits)
  note p = expire_loop_ok [OF ok l, unfolded expire_post_def]
  obtain xs1 where ok1: "cache_ok c1 xs1" using p by (auto simp: cache_inv_def)
  note ix = cache_ok_index [OF ok1 rehash_step_keeps [OF ok1], of rehash_budget]
  have inv: "cache_inv c'" and log: "evict_log c' = evict_log c1"
    using ix(1) by (auto simp: c' cache_inv_def)
  have con: "content c' = content c1" using ix(2) by (simp add: c')
  have su: "same_setup c c'" using p by (auto simp: c' same_setup_def)
  show ?thesis unfolding expire_post_def con log using p inv su by blast
qed

subsection \<open>Accounting after an in-place change\<close>

definition recharge_update ::
  "('m, 'o, 'x) cache_scheme \<Rightarrow> nat \<Rightarrow> u64 \<Rightarrow> u64 \<Rightarrow> ('m, 'o, 'x) cache_scheme" where
  "recharge_update c a projected new_charge =
     (let e = entry c a; new_items = object_item_count (object e);
          c = (if kv_object_type (object e) = HASH_TYPE then
                 c\<lparr>hash_fields := hash_fields c - of_nat (object_items e) + of_nat new_items\<rparr>
               else if kv_object_type (object e) = ZSET_TYPE then
                 c\<lparr>zset_members := zset_members c - of_nat (object_items e) + of_nat new_items\<rparr>
               else c);
          c = modify a (\<lambda>e. e\<lparr>object_items := new_items\<rparr>) c;
          c = c\<lparr>used_memory := projected\<rparr>
      in modify a (\<lambda>e. e\<lparr>memory_charge := new_charge\<rparr>) c)"

lemma recharge_is_replace:
  assumes a: "core_view c a = Some d" and p: "projected = used_memory c - core_charge d + new_charge"
  shows "recharge_update c a projected new_charge =
    replace_object c a (core_object d) (object_item_count (core_object d)) new_charge"
proof -
  obtain e where e: "entries c a = Some e" "d = core e" using a by (auto simp: core_view_Some)
  then have "entry c a = e" by (simp add: entry_def)
  then show ?thesis
    using e p by (cases "kv_object_type (object e)")
      (simp_all add: recharge_update_def replace_object_def Let_def modify_def entry_def
        stats_remove_object_def stats_add_object_def)
qed

lemma recharge_replace_ok:
  assumes ok: "cache_ok c xs" and a: "core_view c a = Some d"
    and post: "evict_post M a (charge - core_charge d) t c xs c1 q vs"
    and c': "c' = lru_touch (replace_object c1 a (core_object d) items charge) a"
  shows "(\<exists>xs'. cache_ok c' xs') \<and> within_limits c' \<and> stored c (core_key d) (core_object d) charge (core_expire d) t vs c'
    \<and> minimal c vs c'"
proof -
  note post' = post [unfolded evict_post_def]
  have cat: "catalog_ok c" using ok by (simp add: cache_ok_def)
  have a1: "core_view c1 a = Some d" using post' a by (simp add: evicted_def)
  let ?c2 = "replace_object c1 a (core_object d) items charge"
  have ok1: "cache_ok c1 (filter (\<lambda>b. b \<notin> set vs) xs)" and ev: "evicted c t vs c1" using post' by auto
  have su1: "same_setup c c1" using ev unfolding evicted_def by blast
  note rep = replace_object_ok [OF ok1 a1 refl refl, of "core_object d" items charge]
  have "entries ?c2 a \<noteq> None" using rep(3) core_view_None [of ?c2 a] by (metis fun_upd_same option.distinct(1))
  note t = lru_touch_ok [OF rep(1) this, folded c']
  note f = cache_frame_fields [OF t(2)]
  have su: "same_setup c c'" using su1 rep(4) f by (auto simp: same_setup_def)
  have used: "used_memory c' = used_memory c1 + (charge - core_charge d)" using f rep(5) by simp
  have cnt: "kv_hash_count (index c') = kv_hash_count (index c1)" using f rep(7) by simp
  have "content c1 = content c |` (- victim_keys c vs)"
    using content_evicted [OF cat, of c1 vs] ok1 ev post' by (auto simp: cache_ok_def evicted_def)
  then have "stored c (core_key d) (core_object d) charge (core_expire d) t vs c'"
    using content_frame [OF t(2)] rep(2,6) f ev post' su victim_key_other [OF cat a, of vs]
    by (auto simp: stored_def evicted_def same_value_def)
  moreover have "within_limits c'"
    using post' used cnt limits_exceeded_setup [OF su] limits_exceeded_setup [OF su1]
    unfolding within_limits_def by metis
  moreover have "minimal c vs c'" by (rule evict_post_minimal [OF ok post cnt used])
  ultimately show ?thesis using t(1) by blast
qed

text \<open>The answers of a recharge of entry \<open>a\<close>, whose data is \<open>d\<close>.\<close>

definition recharge_post ::
  "u64 \<Rightarrow> ('m, 'o, 'x) cache_scheme \<Rightarrow> ('m, 'o) core \<Rightarrow> ('m, 'o, 'x) cache_scheme \<Rightarrow> cache_set_result \<Rightarrow> bool" where
  "recharge_post reading c d c' r \<longleftrightarrow>
     (case r of
        CACHE_SET_ERROR \<Rightarrow> expired_at reading d \<and> c' = c
      | CACHE_SET_CAPACITY \<Rightarrow> \<not> expired_at reading d \<and> too_large c (core_key d) (core_object d) \<and> c' = c
      | CACHE_SET_OK \<Rightarrow> \<not> expired_at reading d \<and> \<not> too_large c (core_key d) (core_object d)
          \<and> (\<exists>vs. stored c (core_key d) (core_object d) (entry_memory_charge (length (core_key d)) (core_object d))
                (core_expire d) (if core_expire d \<noteq> 0 then reading else 0) vs c' \<and> minimal c vs c')
      | CACHE_SET_RANGE \<Rightarrow> False)"

lemma cache_recharge_ref_ok:
  assumes ok: "cache_ok c xs" and a: "core_view c a = Some d"
  shows "\<exists>c' r xs'. cache_recharge_ref reading c (Some a) = Some (c', r) \<and> cache_ok c' xs' \<and> same_setup c c'
    \<and> recharge_post reading c d c' r
    \<and> (bounded c \<and> (max_memory c = 0 \<or> max_memory c < 2 ^ 63) \<longrightarrow> bounded c')"
proof -
  note e = core_entry_fields [OF a]
  let ?charge = "entry_memory_charge (length (core_key d)) (core_object d)"
  let ?now = "if core_expire d \<noteq> 0 then reading else 0"
  have cat: "catalog_ok c" using ok by (simp add: cache_ok_def)
  consider (expired) "expired_at reading d" | (large) "\<not> expired_at reading d" "too_large c (core_key d) (core_object d)"
    | (fits) "\<not> expired_at reading d" "\<not> too_large c (core_key d) (core_object d)" by blast
  then show ?thesis
  proof cases
    case expired
    then have "cache_recharge_ref reading c (Some a) = Some (c, CACHE_SET_ERROR)"
      by (simp add: cache_recharge_ref_def Let_def e expired_at_def)
    with expired ok show ?thesis by (auto simp: recharge_post_def)
  next
    case large
    then have "cache_recharge_ref reading c (Some a) = Some (c, CACHE_SET_CAPACITY)"
      by (auto simp: cache_recharge_ref_def Let_def e expired_at_def too_large_def)
    with large ok show ?thesis by (auto simp: recharge_post_def)
  next
    case fits
    let ?d = "?charge - core_charge d"
    have m: "used_memory c - core_charge d + ?charge = used_memory c + ?d" by simp
    have f: "max_memory c \<noteq> 0 \<Longrightarrow> core_charge d + ?d \<le> max_memory c" using fits(2) by (auto simp: too_large_def)
    obtain c1 q vs where l: "evict_loop (\<lambda>c p. p) False a 0 c (used_memory c - core_charge d + ?charge) ?now
          = Some (c1, q, True)" and post: "evict_post (\<lambda>c p. p) a ?d ?now c xs c1 q vs"
      using evict_loop_ok [where M = "\<lambda>c p. p" and q = "used_memory c - core_charge d + ?charge" and delta = ?d
          and reread = False and reading = 0 and now = ?now, OF ok a m _ f refl]
      by (auto simp: tracks_def)
    let ?c' = "lru_touch (replace_object c1 a (core_object d) (object_item_count (core_object d)) ?charge) a"
    have a1: "core_view c1 a = Some d" and q: "q = used_memory c1 - core_charge d + ?charge"
      using post a by (simp_all add: evict_post_def evicted_def)
    have "cache_recharge_ref reading c (Some a) = Some (lru_touch (recharge_update c1 a q ?charge) a, CACHE_SET_OK)"
      using fits l by (auto simp: cache_recharge_ref_def Let_def e expired_at_def too_large_def recharge_update_def)
    then have r: "cache_recharge_ref reading c (Some a) = Some (?c', CACHE_SET_OK)"
      using recharge_is_replace [OF a1 q] by simp
    obtain xs' where d: "cache_ok ?c' xs'" "within_limits ?c'" "minimal c vs ?c'"
      "stored c (core_key d) (core_object d) ?charge (core_expire d) ?now vs ?c'"
      using recharge_replace_ok [OF ok a post refl, of "object_item_count (core_object d)"] by blast
    have "bounded ?c'" if b: "bounded c" "max_memory c = 0 \<or> max_memory c < 2 ^ 63"
      by (rule stored_bounded [OF cat _ b(1) d(4,2)]) (use d(1) b(2) fits in \<open>auto simp: too_large_def cache_ok_def\<close>)
    moreover have "same_setup c ?c'" using d(4) by (simp add: stored_def)
    moreover have "recharge_post reading c d ?c' CACHE_SET_OK" using fits d by (auto simp: recharge_post_def)
    ultimately show ?thesis using r d(1) by blast
  qed
qed

subsection \<open>When a store cannot fail\<close>

text \<open>Every allocation of a store is granted and the arrays are far from the largest size.\<close>

definition ample :: "cache_alloc \<Rightarrow> ('m, 'o, 'x) cache_scheme \<Rightarrow> bytes \<Rightarrow> bool" where
  "ample alloc c key \<longleftrightarrow> heap_allocated alloc \<and> entry_allocated alloc \<noteq> None \<and> plenty (index_allocated alloc) key
     \<and> heap_capacity c < 2 ^ 58 \<and> slots (table0 (index c)) < 2 ^ 58 \<and> slots (table1 (index c)) < 2 ^ 58"

lemma remove_node_sizes:
  "slots (table0 (fst (kv_hash_remove_node h n))) = slots (table0 h) \<and> slots (table1 (fst (kv_hash_remove_node h n))) = slots (table1 h)"
  by (auto simp: kv_hash_remove_node_def remove_target_def unlink_in_table_def Let_def split: option.splits prod.splits if_splits)

lemma entry_remove_index:
  assumes ok: "cache_ok c xs" and a: "core_view c a = Some d"
  shows "index (entry_remove c a reason) = fst (kv_hash_remove_node (index c) (node_of (core_key d) a))"
proof -
  let ?c0 = "announce c a reason"
  have v0: "core_view ?c0 = core_view c" by (rule core_view_cong) simp
  have "heap_matches ?c0" "recency_ok ?c0 xs"
    using ok v0 heap_ok_cong [of ?c0 c] lru_list_cong [of xs ?c0 c]
    by (auto simp: cache_ok_def heap_matches_def recency_ok_def)
  moreover have a0: "core_view ?c0 a = Some d" using v0 a by simp
  ultimately have "cache_frame ?c0 (lru_unlink (drop_deadline ?c0 a) a)" by (rule detach_ok(1))
  note f = cache_frame_fields [OF this]
  from release_ok(6) [OF _ refl, of "lru_unlink (drop_deadline ?c0 a) a" a d reason] f a0 show ?thesis
    by (simp add: entry_remove_parts)
qed

lemma find_live_ample:
  assumes ok: "cache_ok c xs" and am: "ample alloc c key" and f: "find_live c key now reading = (c0, r)"
  shows "ample alloc c0 key"
proof -
  obtain h n where s: "kv_hash_rehash_step (index c) 1 = (h, n)" by fastforce
  let ?c1 = "c\<lparr>index := h\<rparr>"
  note c1 = cache_ok_index [OF ok rehash_step_keeps [OF ok, of 1], unfolded s fst_conv]
  have am1: "ample alloc ?c1 key" using rehash_sizes [OF s] am by (auto simp: ample_def)
  have "ample alloc (entry_remove ?c1 a REMOVE_EXPIRED) key" if "core_view ?c1 a = Some d" for a d
    using am1 entry_remove_ok(1) [OF c1(1) that refl, of REMOVE_EXPIRED] entry_remove_index [OF c1(1) that, of REMOVE_EXPIRED]
    by (auto simp: ample_def remove_node_sizes removed_def)
  moreover have "c0 = ?c1 \<or> (\<exists>a d. core_view ?c1 a = Some d \<and> c0 = entry_remove ?c1 a REMOVE_EXPIRED)"
  proof (cases "kv_hash_find h key")
    case None
    then show ?thesis using f s by (simp add: find_live_def Let_def)
  next
    case (Some node)
    have "hash_map h key = Some (payload node)" 
      using kv_hash_find_map [of h key] Some c1(1) by (simp add: cache_ok_def catalog_ok_def)
    then obtain d where "core_view ?c1 (payload node) = Some d"
      using c1(1) index_matchesD [of "core_view ?c1" "hash_map h" key "payload node"]
      by (auto simp: cache_ok_def catalog_ok_def)
    then show ?thesis using f s Some by (auto simp: find_live_def Let_def split: if_splits)
  qed
  ultimately show ?thesis using am1 by blast
qed

lemma heap_reserve_ample:
  assumes "ample alloc c key" "cache_ok c xs"
  obtains c1 where "heap_reserve (heap_allocated alloc) c (heap_count c + 1) = Some c1"
proof -
  have n: "heap_count c \<le> heap_capacity c" using assms(2) by (simp add: cache_ok_def heap_matches_def)
  have g: "heap_grow k (heap_count c + 1) = Some (if k < heap_count c + 1 then k * 2 else k)"
    if "0 < k" "heap_count c \<le> k" "k < 2 ^ 58" for k
    using that by (simp add: heap_grow.simps [of k] heap_grow.simps [of "k * 2"] SIZE_MAX_def)
  have "heap_reserve (heap_allocated alloc) c (heap_count c + 1) \<noteq> None"
  proof (cases "heap_capacity c = 0")
    case True
    with n assms(1) g [of 16] show ?thesis
      by (auto simp: heap_reserve_def ample_def CACHE_HEAP_INITIAL_CAPACITY_def SIZE_MAX_def sizeof_pointer_def)
  next
    case False
    with n assms(1) g [of "heap_capacity c"] show ?thesis
      by (auto simp: heap_reserve_def ample_def SIZE_MAX_def sizeof_pointer_def)
  qed
  then show thesis using that by blast
qed

lemma store_ample:
  assumes ok: "cache_ok c xs" and fresh: "\<And>a. entry_allocated alloc = Some a \<Longrightarrow> entries c a = None"
    and am: "ample alloc c key" and st: "cache_store_object alloc clock c key obj expire preserve = Some (c', r)"
  shows "r \<noteq> CACHE_SET_ERROR"
proof (cases "too_large c key obj")
  case True
  then have "cache_store_object alloc clock c key obj expire preserve = Some (c, CACHE_SET_CAPACITY)"
    by (simp add: cache_store_object_def too_large_def Let_def)
  with st show ?thesis by simp
next
  case small: False
  let ?charge = "entry_memory_charge (length key) obj"
  let ?now = "store_now clock expire"
  let ?t = "clock_time ?now (clock 1)"
  obtain c0 r0 where f: "find_live c key ?now (clock 1) = (c0, r0)" by fastforce
  obtain xs0 where lk: "looked_up c xs key ?t c0 xs0" and none: "r0 = None \<Longrightarrow> live ?t (content c key) = None"
    and some: "\<And>a. r0 = Some a \<Longrightarrow> core_view c0 a = content c key \<and> xs0 = xs \<and> hash_map (index c0) key = Some a
       \<and> (\<exists>d. content c key = Some d \<and> \<not> expired_at ?t d) \<and> content c0 = content c \<and> core_view c0 = core_view c"
    by (rule find_live_ok [OF ok f]) blast
  have ok0: "cache_ok c0 xs0" and con0: "content c0 = purge key ?t (content c)" and su0: "same_setup c c0"
    and v0: "core_view c0 \<subseteq>\<^sub>m core_view c" using lk by (auto simp: looked_up_def)
  have fits: "max_memory c0 \<noteq> 0 \<Longrightarrow> ?charge \<le> max_memory c0"
    using small su0 by (auto simp: too_large_def same_setup_def)
  have small': "\<not> (?charge = UINT64_MAX \<or> (max_memory c \<noteq> 0 \<and> ?charge > max_memory c))"
    using small by (simp add: too_large_def)
  note am0 = find_live_ample [OF ok am f]
  have room: "\<exists>c1. (if b then heap_reserve (heap_allocated alloc) c0 (heap_count c0 + 1) else Some c0) = Some c1" for b
    by (rule heap_reserve_ample [OF am0 ok0]) (cases b; simp)
  show ?thesis
  proof (cases r0)
    case None
    obtain a where a: "entry_allocated alloc = Some a" using am by (auto simp: ample_def)
    have k: "content c0 key = None" using con0 none [OF None] by (simp add: purge_def)
    have ea: "entries c0 a = None" using fresh [OF a] dom_submap [OF v0] by auto
    obtain c1 where c1: "(if expire \<noteq> 0 then heap_reserve (heap_allocated alloc) c0 (heap_count c0 + 1) else Some c0) = Some c1"
      using room by blast
    obtain h q where i: "kv_hash_insert (index_allocated alloc) (index c1) key a = (h, q)" by fastforce
    have hi: "hash_inv (index c0)" "index_matches (core_view c0) (hash_map (index c0))"
      using ok0 by (simp_all add: cache_ok_def catalog_ok_def)
    have "hash_map (index c0) key = None"
    proof (rule ccontr)
      assume "hash_map (index c0) key \<noteq> None"
      then obtain b where "hash_map (index c0) key = Some b" by blast
      with k index_matchesD [OF hi(2), of key b] show False by (auto simp: content_def core_view_Some)
    qed
    with hi am0 kv_hash_insert_iff [OF _ i] room_ok(4) [OF ok0 c1] obtain node where "q = Some node"
      by (auto simp: ample_def plenty_def SIZE_MAX_def sizeof_pointer_def)
    with store_new_inserted [where clock = clock and now = ?now, OF ok0 k ea fits c1 a] i
    obtain c2 where "store_new alloc clock c0 key obj (object_item_count obj) ?charge expire ?now = Some (c2, CACHE_SET_OK)"
      by blast
    moreover have "cache_store_object alloc clock c key obj expire preserve =
        store_new alloc clock c0 key obj (object_item_count obj) ?charge expire ?now"
      unfolding cache_store_object_def Let_def if_not_P [OF small'] f None prod.case option.case ..
    ultimately show ?thesis using st by simp
  next
    case (Some a)
    obtain d where d: "core_view c0 a = Some d" using some [OF Some] by auto
    note en = core_entry_fields(5) [OF d]
    let ?e = "if preserve then core_expire d else expire"
    obtain c1 where c1: "(if ?e \<noteq> 0 \<and> core_expire d = 0 then heap_reserve (heap_allocated alloc) c0 (heap_count c0 + 1) else Some c0)
        = Some c1" using room by blast
    have eq: "cache_store_object alloc clock c key obj expire preserve =
       store_existing clock c1 a obj (object_item_count obj) ?charge ?e ?now"
      unfolding cache_store_object_def Let_def if_not_P [OF small'] f Some prod.case option.case en c1 ..
    note res = room_ok [OF ok0 c1]
    have d1: "core_view c1 a = Some d" using res(3) d by simp
    have f1: "max_memory c1 \<noteq> 0 \<Longrightarrow> ?charge \<le> max_memory c1" using fits res(6) by (simp add: same_setup_def)
    obtain c2 where "store_existing clock c1 a obj (object_item_count obj) ?charge ?e ?now = Some (c2, CACHE_SET_OK)"
      using store_existing_ok [OF res(1) d1 f1, of ?e] res(8) by blast
    with eq st show ?thesis by simp
  qed
qed

end
