(* ===== verification/AofCodec.thy ===== *)
theory AofCodec
  imports Resp
begin

text \<open>
  Records of the append-only file and their replay (\<open>src/src/persistence/aof.c\<close>).
  A record is a RESP array of bulk strings.  The contents of the file are a list of bytes; the answers
  of \<open>realloc\<close>, \<open>mmap\<close> and \<open>ftruncate\<close> are arguments.  Replay is the loop over the mapped file, with the
  callback and its context as arguments, and returns the file it leaves behind.
\<close>

subsection \<open>Sizes and encoding\<close>

datatype aof_error = EINVAL | EOVERFLOW | EFBIG | ENOBUFS | EBUSY | EAGAIN | ENOMEM | EIO | ERRNO nat

definition AOF_MAX_RECORD_SIZE :: nat where "AOF_MAX_RECORD_SIZE = RESP_MAX_FRAME_SIZE + 1024"
definition AOF_CHUNK_CAPACITY :: nat where "AOF_CHUNK_CAPACITY = 262144"

fun decimal_length :: "nat \<Rightarrow> nat" where
  "decimal_length value = (if value \<ge> 10 then 1 + decimal_length (value div 10) else 1)"

declare decimal_length.simps [simp del]

definition checked_add :: "nat \<Rightarrow> nat \<Rightarrow> nat option" where
  "checked_add acc amount = (if amount > SIZE_MAX - acc then None else Some (acc + amount))"

fun size_loop :: "nat \<Rightarrow> bytes list \<Rightarrow> nat option" where
  "size_loop acc [] = Some acc"
| "size_loop acc (a # as) =
     (case checked_add acc (1 + decimal_length (length a) + 2) of
        None \<Rightarrow> None
      | Some acc \<Rightarrow> (case checked_add acc (length a) of
          None \<Rightarrow> None
        | Some acc \<Rightarrow> (case checked_add acc 2 of
            None \<Rightarrow> None
          | Some acc \<Rightarrow> size_loop acc as)))"

definition encoded_size :: "bytes list \<Rightarrow> aof_error + nat" where
  "encoded_size arguments =
     (if length arguments = 0 \<or> length arguments > RESP_MAX_ARGUMENTS then Inl EINVAL
      else case size_loop (1 + decimal_length (length arguments) + 2) arguments of
        None \<Rightarrow> Inl EOVERFLOW
      | Some acc \<Rightarrow> if acc > AOF_MAX_RECORD_SIZE then Inl EFBIG else Inr acc)"

definition encode_unsigned :: "byte \<Rightarrow> nat \<Rightarrow> bytes" where
  "encode_unsigned prefix value = prefix # rev (decimal_reverse value) @ [CR, LF]"

fun encode_arguments :: "bytes list \<Rightarrow> bytes" where
  "encode_arguments [] = []"
| "encode_arguments (a # as) = encode_unsigned 36 (length a) @ a @ [CR, LF] @ encode_arguments as"

text \<open>\<open>capacity\<close> is the room in the buffer; the result is what is written there.\<close>

definition encode_record :: "nat \<Rightarrow> bytes list \<Rightarrow> nat \<Rightarrow> aof_error + bytes" where
  "encode_record capacity arguments expected_length =
     (if capacity < expected_length then Inl ENOBUFS
      else let output_bytes = encode_unsigned 42 (length arguments) @ encode_arguments arguments in
        if length output_bytes \<noteq> expected_length then Inl EINVAL else Inr output_bytes)"

function reserve_loop :: "nat \<Rightarrow> nat \<Rightarrow> nat option" where
  "reserve_loop next_size needed =
     (if 0 < next_size \<and> next_size < needed then
        if next_size > SIZE_MAX div 2 then None else reserve_loop (next_size * 2) needed
      else Some next_size)"
  by pat_completeness auto
termination
  by (relation "measure (\<lambda>(next_size, needed). needed - next_size)") auto

declare reserve_loop.simps [simp del]

definition reserve_bytes :: "bool \<Rightarrow> nat \<Rightarrow> nat \<Rightarrow> aof_error + nat" where
  "reserve_bytes allocated capacity needed =
     (if needed \<le> capacity then Inr capacity
      else case reserve_loop (if capacity = 0 then AOF_CHUNK_CAPACITY else capacity) needed of
        None \<Rightarrow> Inl EOVERFLOW
      | Some next_size \<Rightarrow> if allocated then Inr next_size else Inl ENOMEM)"

subsection \<open>Checkpoint records\<close>

definition hex_digit :: "byte \<Rightarrow> byte" where
  "hex_digit b = ascii ''0123456789abcdef'' ! unat b"

fun checkpoint_token_text :: "bytes \<Rightarrow> bytes" where
  "checkpoint_token_text [] = []"
| "checkpoint_token_text (b # token) =
     hex_digit (drop_bit 4 b) # hex_digit (b AND 15) # checkpoint_token_text token"

definition checkpoint_arguments :: "bytes \<Rightarrow> bytes list" where
  "checkpoint_arguments token = [ascii ''PING'', checkpoint_token_text token]"

definition checkpoint_record :: "bytes \<Rightarrow> nat \<Rightarrow> aof_error + bytes" where
  "checkpoint_record token capacity =
     (case encoded_size (checkpoint_arguments token) of
        Inl e \<Rightarrow> Inl e
      | Inr n \<Rightarrow> if n > capacity then Inl ENOBUFS
                 else encode_record capacity (checkpoint_arguments token) n)"

record rdb_checkpoint =
  checkpoint_valid :: bool
  aof_offset :: nat
  checkpoint_token :: bytes

text \<open>\<open>pread\<close> returns what the file holds; a read error is \<open>read_ok = False\<close>.\<close>

definition aof_validate_checkpoint :: "bool \<Rightarrow> bytes \<Rightarrow> rdb_checkpoint \<Rightarrow> aof_error option" where
  "aof_validate_checkpoint read_ok contents checkpoint =
     (if \<not> checkpoint_valid checkpoint then Some EINVAL
      else case checkpoint_record (checkpoint_token checkpoint) 128 of
        Inl e \<Rightarrow> Some EINVAL
      | Inr expected \<Rightarrow>
          if aof_offset checkpoint < length expected then Some EINVAL
          else if \<not> read_ok then Some EIO
          else let start = aof_offset checkpoint - length expected;
                   actual = take (length expected) (drop start contents) in
            if length actual < length expected then Some EINVAL
            else if actual \<noteq> expected then Some EINVAL else None)"

subsection \<open>Replay\<close>

lemma parse_consumes:
  assumes "resp_parse_request_with_limit data e m = RESP_PARSE_COMPLETE (slices, consumed)"
  shows "0 < consumed" "consumed \<le> length data"
proof -
  have "consumed \<le> length data" "list_all (slice_ok consumed) slices" "slices \<noteq> []"
    using parse_request_bounds [OF assms] by auto
  then show "0 < consumed" "consumed \<le> length data"
    by (auto simp: slice_ok_def neq_Nil_conv)
qed

text \<open>
  The callback answers with its new context and whether it succeeded.  The loop ends with the
  position reached and the number of commands, or with an error.
\<close>

function replay_loop ::
  "(bytes list \<Rightarrow> 'c \<Rightarrow> 'c \<times> bool) \<Rightarrow> bytes \<Rightarrow> nat \<Rightarrow> 'c \<Rightarrow> nat \<Rightarrow> 'c \<times> (aof_error + nat \<times> nat)" where
  "replay_loop callback mapping position context loaded =
     (if position < length mapping then
        case resp_parse_request_with_limit (drop position mapping) False AOF_MAX_RECORD_SIZE of
          RESP_PARSE_INCOMPLETE \<Rightarrow> (context, Inr (position, loaded))
        | RESP_PARSE_ERROR \<Rightarrow> (context, Inl EINVAL)
        | RESP_PARSE_COMPLETE (slices, consumed) \<Rightarrow>
            (case callback (map (slice_bytes (drop position mapping)) slices) context of
               (context, False) \<Rightarrow> (context, Inl EINVAL)
             | (context, True) \<Rightarrow> replay_loop callback mapping (position + consumed) context (loaded + 1))
      else (context, Inr (position, loaded)))"
  by pat_completeness auto
termination
  by (relation "measure (\<lambda>(callback, mapping, position, context, loaded). length mapping - position)")
    (auto dest: parse_consumes)

declare replay_loop.simps [simp del]

record aof_replay_stats =
  commands_loaded :: nat
  truncated_tail_repaired :: bool

text \<open>The flags answer for \<open>mmap\<close> and \<open>ftruncate\<close>; the file left behind is returned.\<close>

definition aof_replay_from ::
  "bool \<Rightarrow> bool \<Rightarrow> bytes \<Rightarrow> nat \<Rightarrow> (bytes list \<Rightarrow> 'c \<Rightarrow> 'c \<times> bool) \<Rightarrow> 'c
     \<Rightarrow> bytes \<times> 'c \<times> (aof_error + aof_replay_stats)" where
  "aof_replay_from mapped truncated contents offset callback context =
     (if offset > length contents then (contents, context, Inl EINVAL)
      else if length contents = 0 \<or> offset = length contents then
        (contents, context, Inr \<lparr>commands_loaded = 0, truncated_tail_repaired = False\<rparr>)
      else if \<not> mapped then (contents, context, Inl ENOMEM)
      else case replay_loop callback contents offset context 0 of
        (context, Inl e) \<Rightarrow> (contents, context, Inl e)
      | (context, Inr (position, loaded)) \<Rightarrow>
          if position \<noteq> length contents then
            if \<not> truncated then (contents, context, Inl EIO)
            else (take position contents, context,
                  Inr \<lparr>commands_loaded = loaded, truncated_tail_repaired = True\<rparr>)
          else (contents, context, Inr \<lparr>commands_loaded = loaded, truncated_tail_repaired = False\<rparr>))"

definition aof_replay ::
  "bool \<Rightarrow> bool \<Rightarrow> bytes \<Rightarrow> (bytes list \<Rightarrow> 'c \<Rightarrow> 'c \<times> bool) \<Rightarrow> 'c
     \<Rightarrow> bytes \<times> 'c \<times> (aof_error + aof_replay_stats)" where
  "aof_replay mapped truncated contents = aof_replay_from mapped truncated contents 0"

subsection \<open>Encoding is the RESP frame\<close>

definition aof_writable :: "bytes list \<Rightarrow> bool" where
  "aof_writable args \<longleftrightarrow> 1 \<le> length args \<and> length args \<le> RESP_MAX_ARGUMENTS
     \<and> length (resp_frame args) \<le> AOF_MAX_RECORD_SIZE"

lemma decimal_length_text: "decimal_length v = length (decimal_text v)"
proof (induction v rule: decimal_length.induct)
  case (1 v)
  then show ?case by (subst decimal_length.simps, subst decimal_text_unfold) auto
qed

lemma encode_unsigned_text: "encode_unsigned prefix v = prefix # decimal_text v @ [CR, LF]"
  by (simp add: encode_unsigned_def decimal_text_def)

lemma encode_arguments_frame: "encode_arguments as = concat (map resp_bulk as)"
  by (induction as) (simp_all add: encode_unsigned_text resp_bulk_def)

lemma encode_frame: "encode_unsigned 42 (length as) @ encode_arguments as = resp_frame as"
  by (simp add: encode_unsigned_text encode_arguments_frame resp_frame_def)

lemma size_loop_frame:
  "acc \<le> SIZE_MAX \<Longrightarrow> size_loop acc as =
     (if acc + length (concat (map resp_bulk as)) \<le> SIZE_MAX then Some (acc + length (concat (map resp_bulk as))) else None)"
proof (induction as arbitrary: acc)
  case (Cons a as)
  have "length (resp_bulk a) = 1 + decimal_length (length a) + 2 + length a + 2"
    by (simp add: resp_bulk_def decimal_length_text)
  then show ?case using Cons by (auto simp: checked_add_def)
qed simp

lemma encoded_size_frame:
  "encoded_size as =
     (if length as = 0 \<or> length as > RESP_MAX_ARGUMENTS then Inl EINVAL
      else if length (resp_frame as) > SIZE_MAX then Inl EOVERFLOW
      else if length (resp_frame as) > AOF_MAX_RECORD_SIZE then Inl EFBIG
      else Inr (length (resp_frame as)))"
proof -
  have "length (resp_frame as) = 1 + decimal_length (length as) + 2 + length (concat (map resp_bulk as))"
    by (simp add: resp_frame_def decimal_length_text)
  moreover have "1 + decimal_length (length as) + 2 \<le> SIZE_MAX" if "length as \<le> RESP_MAX_ARGUMENTS"
    using that length_decimal_text [of "length as" 3]
    by (simp add: decimal_length_text RESP_MAX_ARGUMENTS_def SIZE_MAX_def)
  ultimately show ?thesis by (auto simp: encoded_size_def size_loop_frame)
qed

lemma encoded_size_Inr: "encoded_size as = Inr n \<longleftrightarrow> aof_writable as \<and> n = length (resp_frame as)"
  by (auto simp: encoded_size_frame aof_writable_def Suc_le_eq AOF_MAX_RECORD_SIZE_def RESP_MAX_FRAME_SIZE_def SIZE_MAX_def)

lemma encode_record_frame:
  "encode_record capacity as n =
     (if capacity < n then Inl ENOBUFS else if length (resp_frame as) \<noteq> n then Inl EINVAL else Inr (resp_frame as))"
  by (simp add: encode_record_def encode_frame Let_def)

lemma reserve_loop_ok: "reserve_loop n needed = Some n' \<Longrightarrow> 0 < n \<Longrightarrow> needed \<le> n' \<and> n \<le> n'"
proof (induction n needed rule: reserve_loop.induct)
  case (1 n needed)
  then show ?case
    using reserve_loop.simps [of n needed] by (auto split: if_splits)
qed

lemma reserve_bytes_ok: "reserve_bytes b capacity needed = Inr n \<Longrightarrow> needed \<le> n \<and> capacity \<le> n"
  using reserve_loop_ok
  by (fastforce simp: reserve_bytes_def AOF_CHUNK_CAPACITY_def split: if_splits option.splits)

subsection \<open>What replay reads\<close>

fun replay_all :: "(bytes list \<Rightarrow> 'c \<Rightarrow> 'c \<times> bool) \<Rightarrow> bytes list list \<Rightarrow> 'c \<Rightarrow> 'c \<times> bool" where
  "replay_all callback [] ctx = (ctx, True)"
| "replay_all callback (r # rs) ctx =
     (case callback r ctx of
        (ctx, False) \<Rightarrow> (ctx, False)
      | (ctx, True) \<Rightarrow> replay_all callback rs ctx)"

definition log_of :: "bytes list list \<Rightarrow> bytes" where
  "log_of rs = concat (map resp_frame rs)"

definition torn :: "bytes \<Rightarrow> bool" where
  "torn t \<longleftrightarrow> (\<exists>r rest. aof_writable r \<and> resp_frame r = t @ rest \<and> rest \<noteq> [])"

lemma log_of_simps [simp]:
  "log_of [] = []" "log_of (r # rs) = resp_frame r @ log_of rs" "log_of (rs @ ss) = log_of rs @ log_of ss"
  by (simp_all add: log_of_def)

lemma record_limit: "AOF_MAX_RECORD_SIZE \<le> SIZE_MAX"
  by (simp add: AOF_MAX_RECORD_SIZE_def RESP_MAX_FRAME_SIZE_def SIZE_MAX_def)

lemma parse_record:
  assumes "aof_writable r"
  obtains slices where "resp_parse_request_with_limit (resp_frame r @ rest) False AOF_MAX_RECORD_SIZE =
      RESP_PARSE_COMPLETE (slices, length (resp_frame r))" "map (slice_bytes (resp_frame r @ rest)) slices = r"
  using parse_frame [of r AOF_MAX_RECORD_SIZE rest False] assms record_limit by (auto simp: aof_writable_def)

lemma parse_torn: "torn t \<Longrightarrow> resp_parse_request_with_limit t False AOF_MAX_RECORD_SIZE = RESP_PARSE_INCOMPLETE"
  using parse_frame_prefix record_limit by (auto simp: torn_def aof_writable_def)

lemma replay_loop_log:
  "list_all aof_writable rs \<Longrightarrow> t = [] \<or> torn t \<Longrightarrow>
     replay_loop callback (pre @ log_of rs @ t) (length pre) ctx n =
       (case replay_all callback rs ctx of
          (ctx, False) \<Rightarrow> (ctx, Inl EINVAL)
        | (ctx, True) \<Rightarrow> (ctx, Inr (length pre + length (log_of rs), n + length rs)))"
proof (induction rs arbitrary: pre ctx n)
  case Nil
  then show ?case by (subst replay_loop.simps) (auto simp: parse_torn)
next
  case (Cons r rs)
  obtain slices where p: "resp_parse_request_with_limit (resp_frame r @ log_of rs @ t) False AOF_MAX_RECORD_SIZE =
      RESP_PARSE_COMPLETE (slices, length (resp_frame r))" "map (slice_bytes (resp_frame r @ log_of rs @ t)) slices = r"
    using parse_record [of r "log_of rs @ t"] Cons.prems by auto
  have "resp_frame r \<noteq> []" by (simp add: resp_frame_def)
  moreover obtain ctx' b where cb: "callback r ctx = (ctx', b)" by fastforce
  ultimately show ?case
    using Cons.IH [of "pre @ resp_frame r" ctx' "n + 1"] Cons.prems p
    by (subst replay_loop.simps) (auto simp: add.assoc split: bool.split)
qed

end
