(* ===== verification/Aof.thy ===== *)
theory Aof
  imports AofCodec
begin

text \<open>
  The state of the append-only file and its operations (\<open>src/src/persistence/aof.c\<close>): the command thread
  appends records to a transaction and commits it into chunks; the writer thread takes chunks from the
  queue, writes them and publishes the sequence number it has written.
  \<open>log_file\<close> is what the file holds and \<open>durable\<close> how much of it the last \<open>fdatasync\<close> covered.
  The linked queue is a list, and of the free list only its length matters, since a chunk taken from
  it is overwritten.  \<open>chunk_data\<close> holds the first \<open>length\<close> bytes of the array of a chunk, \<open>pending\<close> and
  \<open>transaction\<close> the used part of their buffers.  Answers of the allocator and of system calls are
  arguments; \<open>alloc k\<close> is the answer of the k-th \<open>malloc\<close> of a call.
  A section between lock and unlock of the mutex is one operation here; an operation that waits on the
  condition variable is split at the wait.
\<close>

subsection \<open>State\<close>

definition AOF_QUEUE_HIGH_WATER :: nat where "AOF_QUEUE_HIGH_WATER = 4194304"
definition AOF_QUEUE_LOW_WATER :: nat where "AOF_QUEUE_LOW_WATER = 2097152"
definition AOF_WRITEV_MAX :: nat where "AOF_WRITEV_MAX = 16"

datatype aof_fsync_policy = AOF_FSYNC_ALWAYS | AOF_FSYNC_EVERYSEC | AOF_FSYNC_NO

record aof_chunk =
  chunk_data :: bytes
  chunk_offset :: nat
  chunk_sequence :: u64
  sequence_end :: bool

record aof =
  log_file :: bytes
  durable :: nat
  fsync_policy :: aof_fsync_policy
  stopping :: bool
  queue :: "aof_chunk list"
  free_chunks :: nat
  producer_chunk :: "aof_chunk option"
  queue_bytes :: nat
  next_sequence :: u64
  written_sequence :: u64
  synced_sequence :: u64
  written_bytes :: u64
  backpressure_events :: u64
  backpressured :: bool
  async_error :: "aof_error option"
  pending :: bytes
  pending_capacity :: nat
  transaction :: bytes
  transaction_capacity :: nat
  transaction_active :: bool
  pause_requested :: bool
  paused :: bool
  fsync_count :: u64
  fsync_total_us :: u64
  fsync_max_us :: u64

text \<open>The flags answer for the allocation, \<open>open\<close> and the creation of the thread and its locks.\<close>

definition aof_open :: "bool \<Rightarrow> bool \<Rightarrow> bool \<Rightarrow> bytes \<Rightarrow> bytes \<Rightarrow> aof_fsync_policy \<Rightarrow> aof_error + aof" where
  "aof_open allocated opened started path contents policy =
     (if path = [] then Inl EINVAL
      else if \<not> allocated then Inl ENOMEM
      else if \<not> opened then Inl EIO
      else if \<not> started then Inl EAGAIN
      else Inr \<lparr>log_file = contents, durable = 0, fsync_policy = policy, stopping = False, queue = [],
        free_chunks = 0, producer_chunk = None, queue_bytes = 0, next_sequence = 0,
        written_sequence = 0, synced_sequence = 0, written_bytes = 0, backpressure_events = 0,
        backpressured = False, async_error = None, pending = [], pending_capacity = 0,
        transaction = [], transaction_capacity = 0, transaction_active = False,
        pause_requested = False, paused = False, fsync_count = 0, fsync_total_us = 0, fsync_max_us = 0\<rparr>)"

subsection \<open>Chunks and the queue\<close>

definition publish_error :: "aof \<Rightarrow> aof_error \<Rightarrow> aof" where
  "publish_error aof error_number =
     (if async_error aof = None then aof\<lparr>async_error := Some error_number\<rparr> else aof)"

definition acquire_chunk :: "bool \<Rightarrow> aof \<Rightarrow> aof \<times> bool" where
  "acquire_chunk allocated aof =
     (if free_chunks aof > 0 then (aof\<lparr>free_chunks := free_chunks aof - 1\<rparr>, True) else (aof, allocated))"

definition queue_chunk_locked :: "aof \<Rightarrow> aof_chunk \<Rightarrow> aof" where
  "queue_chunk_locked aof chunk =
     (let aof = aof\<lparr>queue := queue aof @ [chunk], queue_bytes := queue_bytes aof + length (chunk_data chunk)\<rparr> in
      if queue_bytes aof \<ge> AOF_QUEUE_HIGH_WATER \<and> \<not> backpressured aof
      then aof\<lparr>backpressured := True, backpressure_events := backpressure_events aof + 1\<rparr> else aof)"

definition fresh_chunk :: aof_chunk where
  "fresh_chunk = \<lparr>chunk_data = [], chunk_offset = 0, chunk_sequence = 0, sequence_end = False\<rparr>"

function split_loop ::
  "(nat \<Rightarrow> bool) \<Rightarrow> nat \<Rightarrow> aof \<Rightarrow> bytes \<Rightarrow> nat \<Rightarrow> aof_chunk list \<Rightarrow> aof \<times> aof_chunk list option" where
  "split_loop alloc k aof data position chunks =
     (if position < length data then
        case acquire_chunk (alloc k) aof of
          (aof, False) \<Rightarrow> (aof, None)
        | (aof, True) \<Rightarrow>
            let amount = min (length data - position) AOF_CHUNK_CAPACITY in
            split_loop alloc (k + 1) aof data (position + amount)
              (chunks @ [fresh_chunk\<lparr>chunk_data := take amount (drop position data)\<rparr>])
      else (aof, Some chunks))"
  by pat_completeness auto
termination
  by (relation "measure (\<lambda>(alloc, k, aof, data, position, chunks). length data - position)")
    (auto simp: AOF_CHUNK_CAPACITY_def)

declare split_loop.simps [simp del]

text \<open>\<open>None\<close> is the answer -1; otherwise the sequence number, 0 when there is nothing to write.\<close>

definition enqueue_bytes :: "(nat \<Rightarrow> bool) \<Rightarrow> aof \<Rightarrow> bytes \<Rightarrow> aof \<times> u64 option" where
  "enqueue_bytes alloc aof data =
     (if length data = 0 then (aof, Some 0)
      else case split_loop alloc 0 aof data 0 [] of
        (aof, None) \<Rightarrow> (aof, None)
      | (aof, Some chunks) \<Rightarrow>
          let assigned = next_sequence aof + 1;
              aof = aof\<lparr>next_sequence := assigned\<rparr>;
              marked = butlast chunks @ [(last chunks)\<lparr>chunk_sequence := assigned, sequence_end := True\<rparr>]
          in (foldl queue_chunk_locked aof marked, Some assigned))"

subsection \<open>Records and transactions\<close>

definition aof_last_error :: "aof \<Rightarrow> aof_error option" where
  "aof_last_error aof = async_error aof"

definition aof_can_accept_write :: "aof \<Rightarrow> bool" where
  "aof_can_accept_write aof \<longleftrightarrow> \<not> backpressured aof \<and> async_error aof = None"

text \<open>Appends to one of the two buffers; \<open>ERRNO 0\<close> is a failure that sets no error number.\<close>

definition append_to :: "bool \<Rightarrow> bytes \<Rightarrow> nat \<Rightarrow> bytes list \<Rightarrow> nat \<Rightarrow> bytes \<times> nat \<times> aof_error option" where
  "append_to allocated buffer capacity arguments record_length =
     (if record_length > SIZE_MAX - length buffer then (buffer, capacity, Some (ERRNO 0))
      else case reserve_bytes allocated capacity (length buffer + record_length) of
        Inl e \<Rightarrow> (buffer, capacity, Some e)
      | Inr capacity \<Rightarrow>
          (case encode_record (capacity - length buffer) arguments record_length of
             Inl e \<Rightarrow> (buffer, capacity, Some e)
           | Inr encoded \<Rightarrow> (buffer @ encoded, capacity, None)))"

definition aof_append :: "bool \<Rightarrow> aof \<Rightarrow> bytes list \<Rightarrow> aof \<times> aof_error option" where
  "aof_append allocated aof arguments =
     (case aof_last_error aof of
        Some e \<Rightarrow> (aof, Some e)
      | None \<Rightarrow>
          (case encoded_size arguments of
             Inl e \<Rightarrow> (aof, Some e)
           | Inr record_length \<Rightarrow>
               if transaction_active aof then
                 case append_to allocated (transaction aof) (transaction_capacity aof) arguments record_length of
                   (buffer, capacity, e) \<Rightarrow> (aof\<lparr>transaction := buffer, transaction_capacity := capacity\<rparr>, e)
               else
                 case append_to allocated (pending aof) (pending_capacity aof) arguments record_length of
                   (buffer, capacity, e) \<Rightarrow> (aof\<lparr>pending := buffer, pending_capacity := capacity\<rparr>, e)))"

definition aof_transaction_begin :: "aof \<Rightarrow> aof \<times> aof_error option" where
  "aof_transaction_begin aof =
     (if transaction_active aof \<or> \<not> aof_can_accept_write aof
      then (aof, Some (if transaction_active aof then EBUSY else EAGAIN))
      else (aof\<lparr>transaction := [], transaction_active := True\<rparr>, None))"

text \<open>
  The copy loop of a commit: fills the producer chunk and queues it when it is full.  The result says
  whether every chunk that was needed could be allocated.
\<close>

partial_function (option) commit_loop ::
  "(nat \<Rightarrow> bool) \<Rightarrow> nat \<Rightarrow> aof \<Rightarrow> nat \<Rightarrow> u64 \<Rightarrow> (aof \<times> bool) option" where
  "commit_loop alloc k aof position assigned =
     (if position < length (transaction aof) then
        case (case producer_chunk aof of
                Some c \<Rightarrow> (aof, Some c)
              | None \<Rightarrow> (case acquire_chunk (alloc k) aof of
                           (aof, True) \<Rightarrow> (aof, Some fresh_chunk)
                         | (aof, False) \<Rightarrow> (aof, None))) of
          (aof, None) \<Rightarrow> Some (aof, False)
        | (aof, Some c) \<Rightarrow>
            let available = AOF_CHUNK_CAPACITY - length (chunk_data c);
                amount = min (length (transaction aof) - position) available;
                c = c\<lparr>chunk_data := chunk_data c @ take amount (drop position (transaction aof)),
                      chunk_sequence := assigned,
                      sequence_end := (position + amount = length (transaction aof))\<rparr>;
                aof = (if length (chunk_data c) = AOF_CHUNK_CAPACITY
                       then (queue_chunk_locked aof c)\<lparr>producer_chunk := None\<rparr>
                       else aof\<lparr>producer_chunk := Some c\<rparr>)
            in commit_loop alloc (k + 1) aof (position + amount) assigned
      else Some (aof, True))"

declare commit_loop.simps [code]

text \<open>\<open>Inl\<close> is the answer -1.\<close>

definition aof_transaction_commit :: "(nat \<Rightarrow> bool) \<Rightarrow> aof \<Rightarrow> (aof \<times> (aof_error + u64)) option" where
  "aof_transaction_commit alloc aof =
     (if \<not> transaction_active aof then Some (aof, Inl EINVAL)
      else let assigned = (if length (transaction aof) > 0 then next_sequence aof + 1 else 0);
               aof = (if length (transaction aof) > 0 then aof\<lparr>next_sequence := assigned\<rparr> else aof) in
        case commit_loop alloc 0 aof 0 assigned of
          None \<Rightarrow> None
        | Some (aof, ok) \<Rightarrow>
            Some (aof\<lparr>transaction := [], transaction_active := False\<rparr>,
                  if ok then Inr assigned else Inl ENOMEM))"

definition aof_transaction_rollback :: "aof \<Rightarrow> aof" where
  "aof_transaction_rollback aof = aof\<lparr>transaction := [], transaction_active := False\<rparr>"

definition queue_producer :: "aof \<Rightarrow> aof" where
  "queue_producer aof =
     (case producer_chunk aof of
        None \<Rightarrow> aof
      | Some c \<Rightarrow> (queue_chunk_locked aof c)\<lparr>producer_chunk := None\<rparr>)"

text \<open>\<open>aof_flush\<close> up to its wait: \<open>Inr 0\<close> returns at once, \<open>Inr s\<close> waits for \<open>s\<close>.\<close>

definition aof_flush_begin :: "(nat \<Rightarrow> bool) \<Rightarrow> aof \<Rightarrow> aof \<times> (aof_error + u64)" where
  "aof_flush_begin alloc aof =
     (if transaction_active aof then (aof, Inl EBUSY)
      else let aof = queue_producer aof in
        if length (pending aof) = 0 then (aof, Inr 0)
        else case enqueue_bytes alloc aof (pending aof) of
          (aof, None) \<Rightarrow> (aof, Inl ENOMEM)
        | (aof, Some sequence) \<Rightarrow> (aof\<lparr>pending := []\<rparr>, Inr sequence))"

text \<open>A wait for \<open>sequence\<close> ends in a state with \<open>wait_over\<close>; the answer is the error, if any.\<close>

definition wait_over :: "aof \<Rightarrow> u64 \<Rightarrow> bool" where
  "wait_over aof sequence \<longleftrightarrow> \<not> (written_sequence aof < sequence \<and> async_error aof = None)"

definition aof_flush_end :: "aof \<Rightarrow> aof_error option" where
  "aof_flush_end aof = async_error aof"

definition aof_sequence_ready :: "aof \<Rightarrow> u64 \<Rightarrow> bool" where
  "aof_sequence_ready aof sequence \<longleftrightarrow> sequence = 0 \<or> written_sequence aof \<ge> sequence"

definition aof_maintain :: "aof \<Rightarrow> aof_error option" where
  "aof_maintain aof = aof_last_error aof"

subsection \<open>Synchronising\<close>

text \<open>The two readings of the clock, in seconds and nanoseconds; \<open>None\<close> when the second one fails.\<close>

definition elapsed_us :: "int \<times> int \<Rightarrow> (int \<times> int) option \<Rightarrow> u64" where
  "elapsed_us start stop =
     (case stop of
        None \<Rightarrow> 0
      | Some (s, n) \<Rightarrow>
          let seconds = s - fst start; nanoseconds = n - snd start;
              seconds' = (if nanoseconds < 0 then seconds - 1 else seconds);
              nanoseconds' = (if nanoseconds < 0 then nanoseconds + 1000000000 else nanoseconds) in
          if seconds' \<ge> 0 then of_int seconds' * 1000000 + of_int (nanoseconds' div 1000) else 0)"

definition sync_written ::
  "aof_error option \<Rightarrow> int \<times> int \<Rightarrow> (int \<times> int) option \<Rightarrow> aof \<Rightarrow> u64 \<Rightarrow> aof \<times> aof_error option" where
  "sync_written fdatasync start stop aof target =
     (if target \<le> synced_sequence aof then (aof, None)
      else case fdatasync of
        Some e \<Rightarrow> (aof, Some e)
      | None \<Rightarrow>
          let us = elapsed_us start stop;
              aof = aof\<lparr>durable := length (log_file aof)\<rparr>;
              aof = (if target > synced_sequence aof then aof\<lparr>synced_sequence := target\<rparr> else aof)
          in (aof\<lparr>fsync_count := fsync_count aof + 1, fsync_total_us := fsync_total_us aof + us,
                fsync_max_us := (if us > fsync_max_us aof then us else fsync_max_us aof)\<rparr>, None))"

text \<open>
  \<open>aof_create_checkpoint\<close> up to its wait, with the random token given, and after it.
\<close>

definition checkpoint_begin ::
  "bool \<Rightarrow> (nat \<Rightarrow> bool) \<Rightarrow> aof \<Rightarrow> bytes \<Rightarrow> (aof \<times> (aof_error + u64)) option" where
  "checkpoint_begin allocated alloc aof token =
     (case aof_transaction_begin aof of
        (aof, Some e) \<Rightarrow> Some (aof_transaction_rollback aof, Inl e)
      | (aof, None) \<Rightarrow>
          (case aof_append allocated aof (checkpoint_arguments token) of
             (aof, Some e) \<Rightarrow> Some (aof_transaction_rollback aof, Inl e)
           | (aof, None) \<Rightarrow>
               (case aof_transaction_commit alloc aof of
                  None \<Rightarrow> None
                | Some (aof, Inl e) \<Rightarrow> Some (aof_transaction_rollback aof, Inl e)
                | Some (aof, Inr sequence) \<Rightarrow> Some (queue_producer aof, Inr sequence))))"

definition checkpoint_end ::
  "aof_error option \<Rightarrow> int \<times> int \<Rightarrow> (int \<times> int) option \<Rightarrow> aof \<Rightarrow> u64 \<Rightarrow> bytes
     \<Rightarrow> aof \<times> (aof_error + rdb_checkpoint)" where
  "checkpoint_end fdatasync start stop aof sequence token =
     (case async_error aof of
        Some e \<Rightarrow> (aof, Inl e)
      | None \<Rightarrow>
          (case sync_written fdatasync start stop aof sequence of
             (aof, Some e) \<Rightarrow> (aof, Inl e)
           | (aof, None) \<Rightarrow>
               (aof, Inr \<lparr>checkpoint_valid = True, aof_offset = length (log_file aof), checkpoint_token = token\<rparr>)))"

definition aof_pause_begin :: "aof \<Rightarrow> aof \<times> aof_error option" where
  "aof_pause_begin aof =
     (if pause_requested aof \<or> stopping aof \<or> async_error aof \<noteq> None
      then (aof, Some (case async_error aof of Some e \<Rightarrow> e | None \<Rightarrow> EBUSY))
      else (aof\<lparr>pause_requested := True\<rparr>, None))"

text \<open>Entered when the writer has paused or an error is published.\<close>

definition aof_pause_end :: "aof \<Rightarrow> aof \<times> aof_error option" where
  "aof_pause_end aof =
     (case async_error aof of Some e \<Rightarrow> (aof\<lparr>pause_requested := False\<rparr>, Some e) | None \<Rightarrow> (aof, None))"

definition aof_resume_after_fork :: "aof \<Rightarrow> aof" where
  "aof_resume_after_fork aof = aof\<lparr>pause_requested := False\<rparr>"

text \<open>\<open>aof_close\<close> up to joining the writer: a failed flush does not stop it.\<close>

definition aof_close_begin :: "(nat \<Rightarrow> bool) \<Rightarrow> aof \<Rightarrow> aof \<times> (aof_error + u64)" where
  "aof_close_begin alloc aof =
     (let aof = (if transaction_active aof then aof_transaction_rollback aof else aof) in
      aof_flush_begin alloc aof)"

definition aof_stop :: "aof \<Rightarrow> aof" where
  "aof_stop aof = aof\<lparr>stopping := True\<rparr>"

subsection \<open>The writer thread\<close>

fun consume_loop ::
  "aof_chunk list \<Rightarrow> nat \<Rightarrow> nat \<Rightarrow> nat \<Rightarrow> u64 \<Rightarrow> aof_chunk list \<times> nat \<times> nat \<times> u64" where
  "consume_loop [] amount bytes_left free completed = ([], bytes_left, free, completed)"
| "consume_loop (c # cs) amount bytes_left free completed =
     (if amount > 0 then
        let available = length (chunk_data c) - chunk_offset c;
            consumed = (if amount < available then amount else available);
            c = c\<lparr>chunk_offset := chunk_offset c + consumed\<rparr>;
            bytes_left = bytes_left - consumed in
        if chunk_offset c = length (chunk_data c) then
          consume_loop cs (amount - consumed) bytes_left (free + 1)
            (if sequence_end c then chunk_sequence c else completed)
        else (c # cs, bytes_left, free, completed)
      else (c # cs, bytes_left, free, completed))"

definition consume_written :: "aof \<Rightarrow> nat \<Rightarrow> aof \<times> u64" where
  "consume_written aof amount =
     (case consume_loop (queue aof) amount (queue_bytes aof) (free_chunks aof) 0 of
        (q, bytes_left, free, completed) \<Rightarrow>
          let aof = aof\<lparr>queue := q, queue_bytes := bytes_left, free_chunks := free\<rparr>;
              aof = (if queue_bytes aof \<le> AOF_QUEUE_LOW_WATER then aof\<lparr>backpressured := False\<rparr> else aof)
          in (aof, completed))"

definition publish_written :: "aof \<Rightarrow> u64 \<Rightarrow> aof" where
  "publish_written aof completed =
     (if completed > written_sequence aof then aof\<lparr>written_sequence := completed\<rparr> else aof)"

text \<open>The vectors of one \<open>writev\<close>.\<close>

definition gather :: "aof \<Rightarrow> bytes list" where
  "gather aof = map (\<lambda>c. drop (chunk_offset c) (chunk_data c)) (take AOF_WRITEV_MAX (queue aof))"

definition append_file :: "aof \<Rightarrow> bytes \<Rightarrow> aof" where
  "append_file aof b = aof\<lparr>log_file := log_file aof @ b\<rparr>"

definition writer_account :: "aof \<Rightarrow> nat \<Rightarrow> aof \<times> u64" where
  "writer_account aof result =
     (let aof = aof\<lparr>written_bytes := written_bytes aof + of_nat result\<rparr> in
      case consume_written aof result of
        (aof, completed) \<Rightarrow>
          (if completed \<noteq> 0 \<and> fsync_policy aof \<noteq> AOF_FSYNC_ALWAYS then publish_written aof completed else aof,
           completed))"

record aof_info =
  info_queue_bytes :: nat
  enqueued_sequence :: u64
  info_written_sequence :: u64
  info_synced_sequence :: u64
  info_written_bytes :: u64
  info_backpressure_events :: u64
  info_fsync_count :: u64
  info_fsync_total_us :: u64
  info_fsync_max_us :: u64
  info_backpressured :: bool
  last_error :: "aof_error option"
  failed :: bool

definition aof_get_info :: "aof \<Rightarrow> aof_info" where
  "aof_get_info aof =
     \<lparr>info_queue_bytes = queue_bytes aof +
        (case producer_chunk aof of None \<Rightarrow> 0 | Some c \<Rightarrow> length (chunk_data c)),
      enqueued_sequence = next_sequence aof, info_written_sequence = written_sequence aof,
      info_synced_sequence = synced_sequence aof, info_written_bytes = written_bytes aof,
      info_backpressure_events = backpressure_events aof, info_fsync_count = fsync_count aof,
      info_fsync_total_us = fsync_total_us aof, info_fsync_max_us = fsync_max_us aof,
      info_backpressured = backpressured aof, last_error = async_error aof,
      failed = (async_error aof \<noteq> None)\<rparr>"

end
