(* ===== verification/AofRun.thy ===== *)
theory AofRun
  imports Aof
begin

text \<open>
  The command thread and the writer thread of the append-only file, interleaved at their critical
  sections, and what an acknowledged sequence number promises: the bytes of every transaction up to it
  are in the file, in commit order, and were synchronised before the acknowledgement under the
  \<open>always\<close> policy.  Replaying the file, cut anywhere by a crash, gives the records of a prefix of the
  committed transactions that has every acknowledged one.
\<close>

subsection \<open>The two threads\<close>

text \<open>Where \<open>writer_main\<close> stands, with what its local variables hold there.\<close>

datatype writer_pc =
    W_LOOP
  | W_WRITE "bytes list"
  | W_ACCOUNT nat
  | W_SYNC u64
  | W_PUBLISH u64
  | W_TAIL
  | W_LAST
  | W_RETURNED

inductive writer_step :: "aof \<Rightarrow> writer_pc \<Rightarrow> aof \<Rightarrow> writer_pc \<Rightarrow> bool" where
  pause: "pause_requested a \<Longrightarrow> \<not> stopping a \<Longrightarrow> writer_step a W_LOOP (a\<lparr>paused := True\<rparr>) W_LOOP"
| unpause: "\<not> (pause_requested a \<and> \<not> stopping a) \<Longrightarrow> paused a \<Longrightarrow>
    writer_step a W_LOOP (a\<lparr>paused := False\<rparr>) W_LOOP"
| idle_sync: "\<not> (pause_requested a \<and> \<not> stopping a) \<Longrightarrow> \<not> paused a \<Longrightarrow> queue a = [] \<Longrightarrow> \<not> stopping a \<Longrightarrow>
    fsync_policy a = AOF_FSYNC_EVERYSEC \<Longrightarrow>
    sync_written fdatasync t0 t1 a (written_sequence a) = (a', None) \<Longrightarrow> writer_step a W_LOOP a' W_LOOP"
| idle_sync_failed: "\<not> (pause_requested a \<and> \<not> stopping a) \<Longrightarrow> \<not> paused a \<Longrightarrow> queue a = [] \<Longrightarrow> \<not> stopping a \<Longrightarrow>
    fsync_policy a = AOF_FSYNC_EVERYSEC \<Longrightarrow>
    sync_written fdatasync t0 t1 a (written_sequence a) = (a', Some e) \<Longrightarrow>
    writer_step a W_LOOP (publish_error a' e) W_RETURNED"
| leave: "\<not> paused a \<Longrightarrow> queue a = [] \<Longrightarrow> stopping a \<Longrightarrow> writer_step a W_LOOP a W_LAST"
| gather: "\<not> (pause_requested a \<and> \<not> stopping a) \<Longrightarrow> \<not> paused a \<Longrightarrow> queue a \<noteq> [] \<Longrightarrow>
    writer_step a W_LOOP a (W_WRITE (gather a))"
| writev: "0 < n \<Longrightarrow> n \<le> length (concat vectors) \<Longrightarrow>
    writer_step a (W_WRITE vectors) (append_file a (take n (concat vectors))) (W_ACCOUNT n)"
| writev_failed: "writer_step a (W_WRITE vectors) (publish_error a e) W_LAST"
| account: "writer_account a n = (a', completed) \<Longrightarrow>
    writer_step a (W_ACCOUNT n) a'
      (if completed \<noteq> 0 \<and> fsync_policy a = AOF_FSYNC_ALWAYS then W_SYNC completed else W_TAIL)"
| sync: "sync_written fdatasync t0 t1 a completed = (a', None) \<Longrightarrow>
    writer_step a (W_SYNC completed) a' (W_PUBLISH completed)"
| sync_failed: "sync_written fdatasync t0 t1 a completed = (a', Some e) \<Longrightarrow>
    writer_step a (W_SYNC completed) (publish_error a' e) W_RETURNED"
| publish: "writer_step a (W_PUBLISH completed) (publish_written a completed) W_TAIL"
| continue: "writer_step a W_TAIL a W_LOOP"
| tail_sync: "fsync_policy a = AOF_FSYNC_EVERYSEC \<Longrightarrow>
    sync_written fdatasync t0 t1 a (written_sequence a) = (a', None) \<Longrightarrow> writer_step a W_TAIL a' W_LOOP"
| tail_sync_failed: "fsync_policy a = AOF_FSYNC_EVERYSEC \<Longrightarrow>
    sync_written fdatasync t0 t1 a (written_sequence a) = (a', Some e) \<Longrightarrow>
    writer_step a W_TAIL (publish_error a' e) W_RETURNED"
| return: "fsync_policy a \<noteq> AOF_FSYNC_EVERYSEC \<Longrightarrow> writer_step a W_LAST a W_RETURNED"
| last_sync: "fsync_policy a = AOF_FSYNC_EVERYSEC \<Longrightarrow>
    sync_written fdatasync t0 t1 a (written_sequence a) = (a', r) \<Longrightarrow>
    writer_step a W_LAST (case r of None \<Rightarrow> a' | Some e \<Rightarrow> publish_error a' e) W_RETURNED"

text \<open>
  What the calls of the command thread have put into the log so far, in order: the bytes, and the
  sequence number that was handed out when the call succeeded.
\<close>

type_synonym history = "(u64 option \<times> bytes) list"

definition queued :: "aof_chunk list \<Rightarrow> bytes" where
  "queued cs = concat (map (\<lambda>c. drop (chunk_offset c) (chunk_data c)) cs)"

definition chunks :: "aof \<Rightarrow> aof_chunk list" where
  "chunks a = queue a @ (case producer_chunk a of None \<Rightarrow> [] | Some c \<Rightarrow> [c])"

abbreviation outgoing :: "aof \<Rightarrow> bytes" where
  "outgoing a \<equiv> queued (chunks a)"

definition committed :: "u64 \<Rightarrow> u64 option" where
  "committed s = (if s = 0 then None else Some s)"

inductive aof_run :: "bytes \<Rightarrow> aof_fsync_policy \<Rightarrow> aof \<Rightarrow> writer_pc \<Rightarrow> history \<Rightarrow> bool"
  for contents :: bytes and policy :: aof_fsync_policy where
  start: "aof_open True True True path contents policy = Inr a \<Longrightarrow> aof_run contents policy a W_LOOP []"
| writer: "aof_run contents policy a pc h \<Longrightarrow> writer_step a pc a' pc' \<Longrightarrow> aof_run contents policy a' pc' h"
| append: "aof_run contents policy a pc h \<Longrightarrow> aof_append allocated a args = (a', r) \<Longrightarrow> aof_run contents policy a' pc h"
| transaction_begin: "aof_run contents policy a pc h \<Longrightarrow> aof_transaction_begin a = (a', r) \<Longrightarrow> aof_run contents policy a' pc h"
| rollback: "aof_run contents policy a pc h \<Longrightarrow> aof_run contents policy (aof_transaction_rollback a) pc h"
| commit: "aof_run contents policy a pc h \<Longrightarrow> aof_transaction_commit alloc a = Some (a', Inr s) \<Longrightarrow>
    aof_run contents policy a' pc (h @ [(committed s, transaction a)])"
| commit_inactive: "aof_run contents policy a pc h \<Longrightarrow> \<not> transaction_active a \<Longrightarrow>
    aof_transaction_commit alloc a = Some (a', Inl e) \<Longrightarrow> aof_run contents policy a' pc h"
| commit_failed: "aof_run contents policy a pc h \<Longrightarrow> transaction_active a \<Longrightarrow>
    aof_transaction_commit alloc a = Some (a', Inl e) \<Longrightarrow> outgoing a' = outgoing a @ part \<Longrightarrow>
    aof_run contents policy a' pc (h @ [(None, part)])"
| flush: "aof_run contents policy a pc h \<Longrightarrow> aof_flush_begin alloc a = (a', Inr s) \<Longrightarrow>
    aof_run contents policy a' pc (h @ [(committed s, pending a)])"
| flush_failed: "aof_run contents policy a pc h \<Longrightarrow> aof_flush_begin alloc a = (a', Inl e) \<Longrightarrow>
    aof_run contents policy a' pc h"
| queue_producer: "aof_run contents policy a pc h \<Longrightarrow> aof_run contents policy (queue_producer a) pc h"
| checkpoint: "aof_run contents policy a pc h \<Longrightarrow> wait_over a s \<Longrightarrow>
    checkpoint_end fdatasync t0 t1 a s token = (a', r) \<Longrightarrow> aof_run contents policy a' pc h"
| pause: "aof_run contents policy a pc h \<Longrightarrow> aof_pause_begin a = (a', r) \<Longrightarrow> aof_run contents policy a' pc h"
| paused: "aof_run contents policy a pc h \<Longrightarrow> aof_pause_end a = (a', r) \<Longrightarrow> aof_run contents policy a' pc h"
| resume: "aof_run contents policy a pc h \<Longrightarrow> aof_run contents policy (aof_resume_after_fork a) pc h"
| stop: "aof_run contents policy a pc h \<Longrightarrow> aof_run contents policy (aof_stop a) pc h"

subsection \<open>Lemmas on queues\<close>

lemma queued_simps [simp]:
  "queued [] = []" "queued (c # cs) = drop (chunk_offset c) (chunk_data c) @ queued cs"
  "queued (cs @ ds) = queued cs @ queued ds"
  by (simp_all add: queued_def)

text \<open>The sequence numbers handed out, with the position of the end of what they cover.\<close>

fun marks :: "nat \<Rightarrow> history \<Rightarrow> (u64 \<times> nat) list" where
  "marks base [] = []"
| "marks base ((s, b) # h) =
     (case s of None \<Rightarrow> [] | Some s \<Rightarrow> [(s, base + length b)]) @ marks (base + length b) h"

definition covered :: "(u64 \<times> nat) set \<Rightarrow> u64 \<Rightarrow> nat \<Rightarrow> bool" where
  "covered M s p \<longleftrightarrow> (\<forall>(s', e) \<in> M. s' \<le> s \<longrightarrow> e \<le> p)"

fun ends_ok :: "(u64 \<times> nat) set \<Rightarrow> u64 \<Rightarrow> nat \<Rightarrow> aof_chunk list \<Rightarrow> bool" where
  "ends_ok M limit base [] \<longleftrightarrow> True"
| "ends_ok M limit base (c # cs) \<longleftrightarrow>
     (let p = base + (length (chunk_data c) - chunk_offset c) in
      chunk_offset c < length (chunk_data c) \<and> chunk_sequence c \<le> limit
      \<and> (sequence_end c \<longrightarrow> covered M (chunk_sequence c) p) \<and> ends_ok M limit p cs)"

lemma ends_ok_append:
  "ends_ok M l base (cs @ ds) \<longleftrightarrow> ends_ok M l base cs \<and> ends_ok M l (base + length (queued cs)) ds"
  by (induction cs arbitrary: base) (auto simp: Let_def add.assoc)

lemma marks_append: "marks base (h @ g) = marks base h @ marks (base + length (concat (map snd h))) g"
  by (induction h arbitrary: base) (auto simp: add.assoc split: prod.split)

lemma marks_end: "(s, e) \<in> set (marks base h) \<Longrightarrow> e \<le> base + length (concat (map snd h))"
  by (induction base h rule: marks.induct) (auto split: option.splits)

lemma covered_insert: "covered M s p \<Longrightarrow> s < s' \<or> e \<le> p \<Longrightarrow> covered (insert (s', e) M) s p"
  by (auto simp: covered_def)

lemma covered_mono: "covered M s p \<Longrightarrow> s' \<le> s \<Longrightarrow> p \<le> p' \<Longrightarrow> covered M s' p'"
  unfolding covered_def by (auto intro: order_trans dest!: bspec)

lemma ends_ok_insert: "ends_ok M l base cs \<Longrightarrow> l < s \<Longrightarrow> ends_ok (insert (s, e) M) l base cs"
  by (induction cs arbitrary: base) (auto simp: Let_def intro: covered_insert order_le_less_trans)

lemma ends_ok_limit: "ends_ok M l base cs \<Longrightarrow> l \<le> l' \<Longrightarrow> ends_ok M l' base cs"
  by (induction cs arbitrary: base) (auto simp: Let_def)

text \<open>Appending to the last chunk, or to a new one.\<close>

lemma fill_ok:
  assumes e: "ends_ok M l base (qs @ opt)" and c: "opt = [] \<and> c = fresh_chunk \<or> opt = [c]" "chunk_offset c = 0"
    and x: "x \<noteq> []" and l: "l \<le> assigned"
    and cov: "flag \<longrightarrow> covered M assigned (base + length (queued (qs @ opt)) + length x)"
    and c': "c' = c\<lparr>chunk_data := chunk_data c @ x, chunk_sequence := assigned, sequence_end := flag\<rparr>"
  shows "ends_ok M assigned base (qs @ [c'])" "queued (qs @ [c']) = queued (qs @ opt) @ x"
proof -
  have d: "queued opt = chunk_data c" using c by (auto simp: fresh_chunk_def)
  have "ends_ok M assigned base qs" using ends_ok_limit [OF _ l] e by (auto simp: ends_ok_append)
  then show "ends_ok M assigned base (qs @ [c'])"
    using c x cov d by (auto simp: ends_ok_append c' Let_def add.assoc)
  show "queued (qs @ [c']) = queued (qs @ opt) @ x" using c d by (simp add: c')
qed

definition producer_ok :: "aof \<Rightarrow> bool" where
  "producer_ok a \<longleftrightarrow> (\<forall>c. producer_chunk a = Some c \<longrightarrow> chunk_offset c = 0 \<and> length (chunk_data c) < AOF_CHUNK_CAPACITY)"

definition pressure_ok :: "aof \<Rightarrow> bool" where
  "pressure_ok a \<longleftrightarrow> queue_bytes a = length (queued (queue a)) \<and> (AOF_QUEUE_HIGH_WATER \<le> queue_bytes a \<longrightarrow> backpressured a)"

text \<open>States that differ in the chunks at the end of the queue only.\<close>

definition grown :: "aof \<Rightarrow> aof \<Rightarrow> bool" where
  "grown a a' \<longleftrightarrow> (\<exists>new. queue a' = queue a @ new) \<and> log_file a' = log_file a \<and> durable a' = durable a
     \<and> fsync_policy a' = fsync_policy a \<and> next_sequence a' = next_sequence a \<and> written_sequence a' = written_sequence a
     \<and> synced_sequence a' = synced_sequence a \<and> pending a' = pending a \<and> transaction a' = transaction a
     \<and> transaction_active a' = transaction_active a \<and> async_error a' = async_error a"

lemma grown_refl: "grown a a"
  by (simp add: grown_def)

lemma grown_trans: "grown a b \<Longrightarrow> grown b c \<Longrightarrow> grown a c"
  by (auto simp: grown_def)

lemma queue_chunk_grown: "grown a (queue_chunk_locked a c)" "queue (queue_chunk_locked a c) = queue a @ [c]"
  "producer_chunk (queue_chunk_locked a c) = producer_chunk a"
  by (auto simp: grown_def queue_chunk_locked_def Let_def)

lemma queue_chunk_pressure:
  "pressure_ok a \<Longrightarrow> chunk_offset c = 0 \<Longrightarrow> pressure_ok (queue_chunk_locked a c)"
  by (auto simp: pressure_ok_def queue_chunk_locked_def Let_def)

lemma acquire_chunk_fields:
  assumes "acquire_chunk b a = (a', r)"
  shows "grown a a'" "queue a' = queue a" "producer_chunk a' = producer_chunk a" "queue_bytes a' = queue_bytes a"
    "backpressured a' = backpressured a"
  using assms by (auto simp: acquire_chunk_def grown_def split: if_splits)

definition placed :: "aof \<Rightarrow> aof_chunk \<Rightarrow> aof" where
  "placed a c = (if length (chunk_data c) = AOF_CHUNK_CAPACITY
     then (queue_chunk_locked a c)\<lparr>producer_chunk := None\<rparr> else a\<lparr>producer_chunk := Some c\<rparr>)"

lemma placed_ok:
  assumes "pressure_ok a" "chunk_offset c = 0" "length (chunk_data c) \<le> AOF_CHUNK_CAPACITY"
  shows "chunks (placed a c) = queue a @ [c]" "grown a (placed a c)" "pressure_ok (placed a c)" "producer_ok (placed a c)"
  using assms queue_chunk_pressure [of a c] queue_chunk_grown [of a c]
  by (auto simp: placed_def chunks_def producer_ok_def grown_def pressure_ok_def)

text \<open>One round of the loop: a failed allocation ends it, otherwise some bytes move.\<close>

lemma commit_round:
  assumes pr: "producer_ok a" and pos: "position < length (transaction a)"
  shows "(\<exists>b. commit_loop alloc k a position assigned = Some (b, False) \<and> grown a b \<and> queue b = queue a
      \<and> producer_chunk b = producer_chunk a \<and> queue_bytes b = queue_bytes a \<and> backpressured b = backpressured a)
    \<or> (\<exists>b c x. commit_loop alloc k a position assigned = commit_loop alloc (k + 1)
          (placed b (c\<lparr>chunk_data := chunk_data c @ x, chunk_sequence := assigned,
             sequence_end := (position + length x = length (transaction a))\<rparr>)) (position + length x) assigned
        \<and> grown a b \<and> queue b = queue a \<and> producer_chunk b = producer_chunk a \<and> queue_bytes b = queue_bytes a
        \<and> backpressured b = backpressured a \<and> (producer_chunk a = None \<and> c = fresh_chunk \<or> producer_chunk a = Some c)
        \<and> chunk_offset c = 0 \<and> length (chunk_data c @ x) \<le> AOF_CHUNK_CAPACITY \<and> x \<noteq> []
        \<and> drop position (transaction a) = x @ drop (position + length x) (transaction a) \<and> position + length x \<le> length (transaction a))"
proof -
  let ?f = "case producer_chunk a of Some c \<Rightarrow> (a, Some c)
      | None \<Rightarrow> (case acquire_chunk (alloc k) a of (a, True) \<Rightarrow> (a, Some fresh_chunk) | (a, False) \<Rightarrow> (a, None))"
  obtain b r where f: "?f = (b, r)" by fastforce
  have b: "grown a b" "queue b = queue a" "producer_chunk b = producer_chunk a" "queue_bytes b = queue_bytes a"
    "backpressured b = backpressured a"
    using f acquire_chunk_fields grown_refl by (auto split: option.splits prod.splits bool.splits)
  show ?thesis
  proof (cases r)
    case None
    then have "commit_loop alloc k a position assigned = Some (b, False)"
      using pos f by (subst commit_loop.simps) simp
    with b show ?thesis by blast
  next
    case (Some c)
    have c: "producer_chunk a = None \<and> c = fresh_chunk \<or> producer_chunk a = Some c"
      using f Some by (auto split: option.splits prod.splits bool.splits)
    have c0: "chunk_offset c = 0" "length (chunk_data c) < AOF_CHUNK_CAPACITY"
      using c pr by (auto simp: producer_ok_def fresh_chunk_def AOF_CHUNK_CAPACITY_def)
    have tr: "transaction b = transaction a" using b(1) by (simp add: grown_def)
    define amount where "amount = min (length (transaction a) - position) (AOF_CHUNK_CAPACITY - length (chunk_data c))"
    define x where "x = take amount (drop position (transaction a))"
    have am: "0 < amount" "position + amount \<le> length (transaction a)" "amount \<le> AOF_CHUNK_CAPACITY - length (chunk_data c)"
      using pos c0 by (auto simp: amount_def)
    then have lx: "length x = amount" "x \<noteq> []" by (auto simp: x_def)
    have "commit_loop alloc k a position assigned = commit_loop alloc (k + 1)
        (placed b (c\<lparr>chunk_data := chunk_data c @ x, chunk_sequence := assigned,
           sequence_end := (position + length x = length (transaction a))\<rparr>)) (position + length x) assigned"
      using pos f Some unfolding lx(1) by (subst commit_loop.simps) (simp add: Let_def placed_def x_def amount_def tr)
    moreover have "drop position (transaction a) = x @ drop (position + length x) (transaction a)"
      using append_take_drop_id [of amount "drop position (transaction a)"] unfolding lx(1) by (simp add: x_def add.commute)
    ultimately show ?thesis using b c c0 lx am by (intro disjI2 exI [of _ b] exI [of _ c] exI [of _ x]) auto
  qed
qed

lemma commit_loop_ok:
  assumes "producer_ok a" "pressure_ok a" "ends_ok M l base (chunks a)" "l \<le> assigned" "position \<le> length (transaction a)"
    and "covered M assigned (base + length (outgoing a) + (length (transaction a) - position))"
  shows "\<exists>a' ok part rest. commit_loop alloc k a position assigned = Some (a', ok) \<and> grown a a' \<and> producer_ok a' \<and> pressure_ok a'
    \<and> ends_ok M assigned base (chunks a') \<and> outgoing a' = outgoing a @ part
    \<and> drop position (transaction a) = part @ rest \<and> (ok \<longrightarrow> rest = [])"
  using assms
proof (induction "length (transaction a) - position" arbitrary: a l k position rule: less_induct)
  case less
  note en = ends_ok_limit [OF less.prems(3,4)]
  consider "\<not> position < length (transaction a)"
    | b where "commit_loop alloc k a position assigned = Some (b, False)" "grown a b" "queue b = queue a"
      "producer_chunk b = producer_chunk a" "queue_bytes b = queue_bytes a" "backpressured b = backpressured a"
    | b c x where "commit_loop alloc k a position assigned = commit_loop alloc (k + 1)
          (placed b (c\<lparr>chunk_data := chunk_data c @ x, chunk_sequence := assigned,
             sequence_end := (position + length x = length (transaction a))\<rparr>)) (position + length x) assigned"
      "grown a b" "queue b = queue a" "producer_chunk b = producer_chunk a" "queue_bytes b = queue_bytes a" "backpressured b = backpressured a"
      "producer_chunk a = None \<and> c = fresh_chunk \<or> producer_chunk a = Some c" "chunk_offset c = 0"
      "length (chunk_data c @ x) \<le> AOF_CHUNK_CAPACITY" "x \<noteq> []"
      "drop position (transaction a) = x @ drop (position + length x) (transaction a)" "position + length x \<le> length (transaction a)"
    using commit_round [OF less.prems(1), of position alloc k assigned] by blast
  then show ?case
  proof cases
    case 1
    then have "commit_loop alloc k a position assigned = Some (a, True)" by (simp add: commit_loop.simps)
    then show ?thesis using 1 less.prems en grown_refl by (intro exI [of _ a] exI [of _ True] exI [of _ "[]"]) auto
  next
    case 2
    then show ?thesis using less.prems(1,2) en
      by (intro exI [of _ b] exI [of _ False] exI [of _ "[]"] exI [of _ "drop position (transaction a)"])
        (auto simp: chunks_def producer_ok_def pressure_ok_def)
  next
    case 3
    let ?c = "c\<lparr>chunk_data := chunk_data c @ x, chunk_sequence := assigned,
        sequence_end := (position + length x = length (transaction a))\<rparr>" and ?opt = "case producer_chunk a of None \<Rightarrow> [] | Some c \<Rightarrow> [c]"
    let ?b = "placed b ?c"
    have ch: "chunks a = queue a @ ?opt" by (simp add: chunks_def)
    have opt: "?opt = [] \<and> c = fresh_chunk \<or> ?opt = [c]" using 3(7) by auto
    have "position + length x = length (transaction a) \<longrightarrow> covered M assigned (base + length (queued (queue a @ ?opt)) + length x)"
      using less.prems(6) unfolding ch by (metis add_diff_cancel_left')
    note fl = fill_ok [OF less.prems(3) [unfolded ch] opt 3(8,10) less.prems(4) this refl]
    have "pressure_ok b" using less.prems(2) 3 by (simp add: pressure_ok_def)
    note pl = placed_ok [of b ?c, OF this, unfolded 3(3)]
    have p: "chunks ?b = queue a @ [?c]" "grown b ?b" "pressure_ok ?b" "producer_ok ?b" using pl 3(8,9) by simp_all
    have g: "grown a ?b" using grown_trans [OF 3(2) p(2)] .
    then have tr: "transaction ?b = transaction a" by (simp add: grown_def)
    have out: "outgoing ?b = outgoing a @ x" unfolding p(1) ch using fl(2) .
    have lt: "length (transaction ?b) - (position + length x) < length (transaction a) - position" using tr 3(10,12) by (cases x) auto
    have cov: "covered M assigned (base + length (outgoing ?b) + (length (transaction ?b) - (position + length x)))"
      using less.prems(6) 3(12) unfolding out tr by (simp add: algebra_simps)
    obtain a' ok part rest where IH: "commit_loop alloc (k + 1) ?b (position + length x) assigned = Some (a', ok)"
      "grown ?b a'" "producer_ok a'" "pressure_ok a'" "ends_ok M assigned base (chunks a')"
      "outgoing a' = outgoing ?b @ part" "drop (position + length x) (transaction a) = part @ rest" "ok \<longrightarrow> rest = []"
      using less.hyps [OF lt p(4,3) fl(1) [folded p(1)] order_refl _ cov, of "k + 1"] tr 3(12) by auto
    have "drop position (transaction a) = (x @ part) @ rest" using IH(7) 3(11) by simp
    then show ?thesis using IH 3(1) out grown_trans [OF g IH(2)]
      by (intro exI [of _ a'] exI [of _ ok] exI [of _ "x @ part"] exI [of _ rest]) simp
  qed
qed

definition piece :: "aof_chunk \<Rightarrow> bool" where
  "piece c \<longleftrightarrow> chunk_offset c = 0 \<and> chunk_data c \<noteq> [] \<and> \<not> sequence_end c \<and> chunk_sequence c = 0"

lemma split_loop_ok:
  "split_loop alloc k a data position cs0 = (a', r) \<Longrightarrow> position \<le> length data \<Longrightarrow> list_all piece cs0 \<Longrightarrow>
     grown a a' \<and> queue a' = queue a \<and> producer_chunk a' = producer_chunk a \<and> queue_bytes a' = queue_bytes a
     \<and> backpressured a' = backpressured a
     \<and> (\<forall>cs. r = Some cs \<longrightarrow> list_all piece cs \<and> queued cs = queued cs0 @ drop position data)"
proof (induction alloc k a data position cs0 rule: split_loop.induct)
  case (1 alloc k a data position cs0)
  show ?case
  proof (cases "position < length data")
    case False
    then show ?thesis using "1.prems" grown_refl by (auto simp: split_loop.simps [of alloc k a])
  next
    case True
    obtain b ok where acq: "acquire_chunk (alloc k) a = (b, ok)" by fastforce
    note f = acquire_chunk_fields [OF acq]
    show ?thesis
    proof (cases ok)
      case False
      then show ?thesis using "1.prems" True acq f by (auto simp: split_loop.simps [of alloc k a])
    next
      case ok: True
      let ?n = "min (length data - position) AOF_CHUNK_CAPACITY"
      let ?c = "fresh_chunk\<lparr>chunk_data := take ?n (drop position data)\<rparr>"
      have n: "0 < ?n" "position + ?n \<le> length data" using True by (auto simp: AOF_CHUNK_CAPACITY_def)
      have s: "split_loop alloc (k + 1) b data (position + ?n) (cs0 @ [?c]) = (a', r)"
        using "1.prems"(1) True acq ok by (simp add: split_loop.simps [of alloc k a] Let_def)
      have "piece ?c" using True n by (auto simp: piece_def fresh_chunk_def)
      with "1.prems"(3) have p: "list_all piece (cs0 @ [?c])" by simp
      have q: "queued (cs0 @ [?c]) @ drop (position + ?n) data = queued cs0 @ drop position data"
        using append_take_drop_id [of ?n "drop position data"] by (simp add: fresh_chunk_def add.commute)
      show ?thesis
        using "1.IH" [OF True _ _ refl s n(2) p] acq ok f q grown_trans [OF f(1)] by auto
    qed
  qed
qed

lemma ends_ok_pieces: "list_all piece cs \<Longrightarrow> ends_ok M l base cs"
  by (induction cs arbitrary: base) (auto simp: piece_def Let_def)

lemma queue_all:
  "\<forall>c \<in> set cs. chunk_offset c = 0 \<Longrightarrow> pressure_ok a \<Longrightarrow>
     grown a (foldl queue_chunk_locked a cs) \<and> queue (foldl queue_chunk_locked a cs) = queue a @ cs
     \<and> producer_chunk (foldl queue_chunk_locked a cs) = producer_chunk a \<and> pressure_ok (foldl queue_chunk_locked a cs)"
proof (induction cs arbitrary: a)
  case (Cons c cs)
  have "pressure_ok (queue_chunk_locked a c)" using Cons.prems queue_chunk_pressure by simp
  with Cons.IH [of "queue_chunk_locked a c"] Cons.prems queue_chunk_grown [of a c] grown_trans show ?case by fastforce
qed (simp add: grown_refl)

lemma marked_ok:
  assumes "list_all piece cs" "cs \<noteq> []" "covered M assigned (base + length (queued cs))"
    and m: "marked = butlast cs @ [(last cs)\<lparr>chunk_sequence := assigned, sequence_end := True\<rparr>]"
  shows "ends_ok M assigned base marked" "queued marked = queued cs" "\<forall>c \<in> set marked. chunk_offset c = 0"
proof -
  obtain ds d where cs: "cs = ds @ [d]" using assms(2) by (metis append_butlast_last_id)
  have d: "piece d" "list_all piece ds" using assms(1) cs by auto
  then show "queued marked = queued cs" "\<forall>c \<in> set marked. chunk_offset c = 0"
    by (auto simp: m cs piece_def list_all_iff)
  show "ends_ok M assigned base marked"
    using d ends_ok_pieces [OF d(2), of M assigned base] assms(3)
    by (auto simp: m cs ends_ok_append piece_def Let_def add.assoc)
qed

lemma consume_loop_ok:
  "consume_loop cs n left free seq = (cs', left', free', seq') \<Longrightarrow> ends_ok M l base cs \<Longrightarrow> n \<le> length (queued cs) \<Longrightarrow>
     queued cs' = drop n (queued cs) \<and> ends_ok M l (base + n) cs' \<and> left' = left - n
     \<and> (seq' = seq \<or> seq' \<le> l \<and> covered M seq' (base + n))"
proof (induction cs arbitrary: n left free seq base)
  case Nil
  then show ?case by simp
next
  case (Cons c cs)
  let ?v = "length (chunk_data c) - chunk_offset c"
  have o: "chunk_offset c < length (chunk_data c)" "chunk_sequence c \<le> l" "ends_ok M l (base + ?v) cs"
    "sequence_end c \<Longrightarrow> covered M (chunk_sequence c) (base + ?v)" using Cons.prems(2) by (auto simp: Let_def)
  show ?case
  proof (cases "n < ?v")
    case True
    with Cons.prems o show ?thesis by (auto simp: Let_def add.commute split: if_splits)
  next
    case False
    have pos: "0 < n" "chunk_offset c + ?v = length (chunk_data c)" using False o(1) by linarith+
    from False have r: "consume_loop cs (n - ?v) (left - ?v) (free + 1) (if sequence_end c then chunk_sequence c else seq)
        = (cs', left', free', seq')" using Cons.prems(1) pos by (simp add: Let_def cong: if_cong)
    have n: "n - ?v \<le> length (queued cs)" "base + ?v + (n - ?v) = base + n" using Cons.prems(3) False by auto
    from Cons.IH [OF r o(3) n(1)] n(2) False
    have "queued cs' = drop n (queued (c # cs))" "ends_ok M l (base + n) cs'" "left' = left - n"
      "seq' = (if sequence_end c then chunk_sequence c else seq) \<or> seq' \<le> l \<and> covered M seq' (base + n)" by auto
    moreover have "covered M (chunk_sequence c) (base + n)" if "sequence_end c"
      using covered_mono [OF o(4) [OF that] order_refl, of "base + n"] False by simp
    ultimately show ?thesis using o(2) by (auto split: if_splits)
  qed
qed

end
