(* ===== verification/AofSpec.thy ===== *)
theory AofSpec
  imports AofRun "HOL-Library.Sublist"
begin

text \<open>
  The invariant of the two threads of the append-only file, its preservation by every step, and the
  properties that follow.  The history of the calls determines the log: the file together with what is
  still queued is the initial file followed by everything that was put into the log.
\<close>

subsection \<open>The invariant\<close>

text \<open>What the writer has written but not yet taken from the queue.\<close>

definition debt :: "writer_pc \<Rightarrow> nat" where
  "debt pc = (case pc of W_ACCOUNT n \<Rightarrow> n | _ \<Rightarrow> 0)"

definition marks_of :: "bytes \<Rightarrow> history \<Rightarrow> (u64 \<times> nat) set" where
  "marks_of contents h = set (marks (length contents) h)"

definition stream_ok :: "bytes \<Rightarrow> aof \<Rightarrow> writer_pc \<Rightarrow> history \<Rightarrow> bool" where
  "stream_ok contents a pc h \<longleftrightarrow> debt pc \<le> length (queued (queue a)) \<and> length contents + debt pc \<le> length (log_file a)
     \<and> log_file a @ drop (debt pc) (outgoing a) = contents @ concat (map snd h) \<and> producer_ok a \<and> pressure_ok a"

definition numbers_ok :: "(u64 \<times> nat) set \<Rightarrow> aof \<Rightarrow> writer_pc \<Rightarrow> bool" where
  "numbers_ok M a pc \<longleftrightarrow> ends_ok M (next_sequence a) (length (log_file a) - debt pc) (chunks a)
     \<and> (\<forall>(s, e) \<in> M. s \<le> next_sequence a) \<and> written_sequence a \<le> next_sequence a \<and> synced_sequence a \<le> next_sequence a
     \<and> durable a \<le> length (log_file a) \<and> covered M (written_sequence a) (length (log_file a))
     \<and> covered M (synced_sequence a) (durable a)
     \<and> (fsync_policy a = AOF_FSYNC_ALWAYS \<longrightarrow> covered M (written_sequence a) (durable a))"

definition pc_ok :: "(u64 \<times> nat) set \<Rightarrow> aof \<Rightarrow> writer_pc \<Rightarrow> bool" where
  "pc_ok M a pc \<longleftrightarrow> (case pc of
     W_WRITE vectors \<Rightarrow> \<exists>rest. queued (queue a) = concat vectors @ rest
   | W_SYNC s \<Rightarrow> s \<le> next_sequence a \<and> covered M s (length (log_file a))
   | W_PUBLISH s \<Rightarrow> s \<le> next_sequence a \<and> covered M s (durable a)
   | _ \<Rightarrow> True)"

definition aof_inv :: "bytes \<Rightarrow> aof_fsync_policy \<Rightarrow> aof \<Rightarrow> writer_pc \<Rightarrow> history \<Rightarrow> bool" where
  "aof_inv contents policy a pc h \<longleftrightarrow> fsync_policy a = policy \<and> stream_ok contents a pc h
     \<and> numbers_ok (marks_of contents h) a pc \<and> pc_ok (marks_of contents h) a pc \<and> unat (next_sequence a) \<le> length h"

lemmas aof_inv_defs = aof_inv_def stream_ok_def numbers_ok_def pc_ok_def

text \<open>Everything else may change freely.\<close>

lemma aof_inv_cong:
  assumes "aof_inv contents policy a pc h"
    and "log_file a' = log_file a" "durable a' = durable a" "fsync_policy a' = fsync_policy a" "queue a' = queue a"
      "producer_chunk a' = producer_chunk a" "queue_bytes a' = queue_bytes a" "backpressured a' = backpressured a"
      "next_sequence a' = next_sequence a" "written_sequence a' = written_sequence a" "synced_sequence a' = synced_sequence a"
  shows "aof_inv contents policy a' pc h"
proof -
  have c: "chunks a' = chunks a" using assms by (simp add: chunks_def)
  show ?thesis using assms(1) unfolding aof_inv_defs producer_ok_def pressure_ok_def c assms(2-) .
qed

lemma marks_of_put:
  "marks_of contents (h @ [(so, b)]) = (case so of None \<Rightarrow> {} | Some s \<Rightarrow> {(s, length contents + length (concat (map snd h)) + length b)}) \<union> marks_of contents h"
  by (auto simp: marks_of_def marks_append split: option.splits)

lemma covered_new: "covered M s p \<Longrightarrow> s < s' \<Longrightarrow> covered ((case so of None \<Rightarrow> {} | Some s \<Rightarrow> {(s', e)}) \<union> M) s p"
  by (auto simp: covered_def split: option.splits)

lemma stream_length:
  assumes "stream_ok contents a pc h"
  shows "length (log_file a) - debt pc + length (outgoing a) = length contents + length (concat (map snd h))"
proof -
  have "length (log_file a @ drop (debt pc) (outgoing a)) = length (contents @ concat (map snd h))"
    using assms by (simp add: stream_ok_def)
  then show ?thesis using assms by (auto simp: stream_ok_def chunks_def)
qed

lemma marks_covered:
  assumes "stream_ok contents a pc h"
  shows "covered (marks_of contents h) s (length (log_file a) - debt pc + length (outgoing a) + n)"
  unfolding covered_def marks_of_def stream_length [OF assms] using marks_end trans_le_add1 by blast

lemma no_wrap: "unat (w :: u64) \<le> n \<Longrightarrow> Suc n < 2 ^ 64 \<Longrightarrow> w < w + 1 \<and> unat (w + 1) \<le> Suc n \<and> w + 1 \<noteq> 0"
proof -
  assume a: "unat w \<le> n" "Suc n < 2 ^ 64"
  then have "unat (w + 1) = unat w + 1" by (simp add: unat_word_ariths)
  then show ?thesis using a by (metis Suc_eq_plus1 Suc_le_mono lessI unat_0 word_less_nat_alt add_eq_0_iff_both_eq_0 zero_neq_one)
qed

text \<open>The command thread puts bytes at the end.\<close>

lemma aof_inv_put:
  assumes inv: "aof_inv contents policy a pc h" and len: "Suc (length h) < 2 ^ 64"
    and g: "grown (a\<lparr>next_sequence := next_sequence a + 1\<rparr>) a'" and p: "producer_ok a'" "pressure_ok a'"
    and so: "so = None \<or> so = Some (next_sequence a + 1)"
    and e: "ends_ok (marks_of contents (h @ [(so, part)])) (next_sequence a + 1) (length (log_file a) - debt pc) (chunks a')"
    and out: "outgoing a' = outgoing a @ part"
  shows "aof_inv contents policy a' pc (h @ [(so, part)])"
proof -
  let ?n = "next_sequence a + 1"
  have i: "stream_ok contents a pc h" "numbers_ok (marks_of contents h) a pc" "pc_ok (marks_of contents h) a pc"
    "unat (next_sequence a) \<le> length h" "fsync_policy a = policy" using inv by (auto simp: aof_inv_def)
  note w = no_wrap [OF i(4) len]
  obtain new where f: "queue a' = queue a @ new" "log_file a' = log_file a" "durable a' = durable a" "fsync_policy a' = fsync_policy a"
    "next_sequence a' = ?n" "written_sequence a' = written_sequence a" "synced_sequence a' = synced_sequence a"
    using g by (auto simp: grown_def)
  have d: "debt pc \<le> length (outgoing a)" using i(1) by (auto simp: stream_ok_def chunks_def)
  have cov: "covered (marks_of contents (h @ [(so, part)])) s q" if "covered (marks_of contents h) s q" "s \<le> next_sequence a" for s q
    using covered_new [OF that(1), where s' = ?n and so = so and e = "length contents + length (concat (map snd h)) + length part"] so that(2) w
    by (auto simp: marks_of_put split: option.splits)
  have "stream_ok contents a' pc (h @ [(so, part)])"
    using i(1) f p out d by (auto simp: stream_ok_def)
  moreover have "numbers_ok (marks_of contents (h @ [(so, part)])) a' pc"
  proof -
    have "\<forall>(s, e) \<in> marks_of contents (h @ [(so, part)]). s \<le> ?n"
      using i(2) so w by (auto simp: numbers_ok_def marks_of_put split: option.splits intro: order_trans less_imp_le)
    moreover have "written_sequence a \<le> ?n" "synced_sequence a \<le> ?n" using i(2) w by (auto simp: numbers_ok_def intro: order_trans less_imp_le)
    ultimately show ?thesis using i(2) e f cov by (auto simp: numbers_ok_def)
  qed
  moreover have "pc_ok (marks_of contents (h @ [(so, part)])) a' pc"
    using i(3) f cov w by (cases pc) (auto simp: pc_ok_def intro: order_trans less_imp_le)
  ultimately show ?thesis using f i(5) w by (simp add: aof_inv_def)
qed

lemma aof_inv_nothing: "aof_inv contents policy a pc h \<Longrightarrow> aof_inv contents policy a pc (h @ [(None, [])])"
  by (simp add: aof_inv_def stream_ok_def marks_of_put)

lemma aof_inv_buffers:
  "aof_inv contents policy a pc h \<Longrightarrow> aof_inv contents policy (a\<lparr>transaction := t, transaction_active := b\<rparr>) pc h"
  "aof_inv contents policy a pc h \<Longrightarrow> aof_inv contents policy (a\<lparr>pending := t\<rparr>) pc h"
  by (erule aof_inv_cong; simp)+

subsection \<open>Steps of the command thread\<close>

lemma commit_parts:
  assumes inv: "aof_inv contents policy a pc h" and len: "Suc (length h) < 2 ^ 64"
    and act: "transaction_active a" "transaction a \<noteq> []"
  shows "\<exists>b ok part rest. aof_transaction_commit alloc a =
        Some (b\<lparr>transaction := [], transaction_active := False\<rparr>, if ok then Inr (next_sequence a + 1) else Inl ENOMEM)
    \<and> outgoing b = outgoing a @ part \<and> transaction a = part @ rest \<and> (ok \<longrightarrow> rest = []) \<and> pending b = pending a
    \<and> aof_inv contents policy b pc (h @ [(if ok then Some (next_sequence a + 1) else None, part)])"
proof -
  let ?n = "next_sequence a + 1"
  let ?a = "a\<lparr>next_sequence := ?n\<rparr>" and ?base = "length (log_file a) - debt pc"
  have i: "stream_ok contents a pc h" "numbers_ok (marks_of contents h) a pc" "unat (next_sequence a) \<le> length h"
    using inv by (auto simp: aof_inv_def)
  note w = no_wrap [OF i(3) len]
  have ch: "chunks ?a = chunks a" by (simp add: chunks_def)
  have pr: "producer_ok ?a" "pressure_ok ?a" using i(1) by (auto simp: stream_ok_def producer_ok_def pressure_ok_def)
  have le: "next_sequence a \<le> ?n" using w less_imp_le by blast
  have run: "\<exists>b ok part rest. commit_loop alloc 0 ?a 0 ?n = Some (b, ok) \<and> grown ?a b \<and> producer_ok b \<and> pressure_ok b
      \<and> ends_ok M ?n ?base (chunks b) \<and> outgoing b = outgoing a @ part \<and> transaction a = part @ rest \<and> (ok \<longrightarrow> rest = [])"
    if "ends_ok M (next_sequence a) ?base (chunks a)" "covered M ?n (?base + length (outgoing a) + length (transaction a))" for M
    using commit_loop_ok [OF pr, of M "next_sequence a" ?base ?n 0 alloc 0] that le unfolding ch by simp
  have cov: "covered (marks_of contents h) ?n (?base + length (outgoing a) + length (transaction a))"
    by (rule marks_covered [OF i(1)])
  have e: "ends_ok (marks_of contents h) (next_sequence a) ?base (chunks a)" using i(2) by (simp add: numbers_ok_def)
  let ?M = "marks_of contents (h @ [(Some ?n, transaction a)])"
  have M: "?M = insert (?n, ?base + length (outgoing a) + length (transaction a)) (marks_of contents h)"
    by (simp add: marks_of_put stream_length [OF i(1)])
  obtain b ok part rest where r: "commit_loop alloc 0 ?a 0 ?n = Some (b, ok)" "grown ?a b" "producer_ok b" "pressure_ok b"
    "ends_ok (marks_of contents h) ?n ?base (chunks b)" "outgoing b = outgoing a @ part" "transaction a = part @ rest" "ok \<longrightarrow> rest = []"
    using run [OF e cov] by blast
  have "ends_ok ?M ?n ?base (chunks b)"
    using run [of ?M] ends_ok_insert [OF e, of ?n] covered_insert [OF cov] w r(1) unfolding M by auto
  then have "aof_inv contents policy b pc (h @ [(if ok then Some ?n else None, part)])"
    using aof_inv_put [OF inv len r(2-4), of "if ok then Some ?n else None" part] r by (auto simp: marks_of_put)
  moreover have "aof_transaction_commit alloc a =
      Some (b\<lparr>transaction := [], transaction_active := False\<rparr>, if ok then Inr ?n else Inl ENOMEM)"
    using act r(1) by (simp add: aof_transaction_commit_def Let_def)
  moreover have "pending b = pending a" using r(2) by (simp add: grown_def)
  ultimately show ?thesis using r(6-8) by blast
qed

lemma commit_empty:
  assumes "transaction_active a" "transaction a = []"
  shows "aof_transaction_commit alloc a = Some (a\<lparr>transaction := [], transaction_active := False\<rparr>, Inr 0)"
  using assms by (simp add: aof_transaction_commit_def commit_loop.simps)

lemma commit_inv:
  assumes inv: "aof_inv contents policy a pc h" and len: "Suc (length h) < 2 ^ 64"
    and c: "aof_transaction_commit alloc a = Some (a', Inr s)"
  shows "aof_inv contents policy a' pc (h @ [(committed s, transaction a)])"
proof -
  have act: "transaction_active a" using c by (auto simp: aof_transaction_commit_def split: if_splits)
  show ?thesis
  proof (cases "transaction a = []")
    case True
    then show ?thesis
      using commit_empty [OF act True, of alloc] c aof_inv_buffers(1) [OF aof_inv_nothing [OF inv]] by (simp add: committed_def)
  next
    case False
    have n: "next_sequence a + 1 \<noteq> 0" using no_wrap inv len by (auto simp: aof_inv_def)
    from commit_parts [OF inv len act False, of alloc] c n aof_inv_buffers(1) show ?thesis
      by (auto simp: committed_def split: if_splits)
  qed
qed

lemma commit_failed_inv:
  assumes inv: "aof_inv contents policy a pc h" and len: "Suc (length h) < 2 ^ 64" and act: "transaction_active a"
    and c: "aof_transaction_commit alloc a = Some (a', Inl e)" and out: "outgoing a' = outgoing a @ part"
  shows "aof_inv contents policy a' pc (h @ [(None, part)])"
proof -
  have "transaction a \<noteq> []" using c commit_empty [OF act, of alloc] by auto
  from commit_parts [OF inv len act this, of alloc] c obtain b p where
    "a' = b\<lparr>transaction := [], transaction_active := False\<rparr>" "outgoing b = outgoing a @ p"
    "aof_inv contents policy b pc (h @ [(None, p)])" by (auto split: if_splits)
  moreover from this have "part = p" using out by (simp add: chunks_def)
  ultimately show ?thesis using aof_inv_buffers(1) by blast
qed

lemma queue_producer_ok:
  assumes "producer_ok a" "pressure_ok a"
  shows "chunks (queue_producer a) = chunks a" "grown a (queue_producer a)" "producer_chunk (queue_producer a) = None"
    "pressure_ok (queue_producer a)" "queue (queue_producer a) = chunks a"
  using assms queue_chunk_grown [of a] queue_chunk_pressure [of a] grown_refl [of a]
  by (auto simp: queue_producer_def chunks_def grown_def producer_ok_def pressure_ok_def split: option.splits)

lemma queue_producer_inv:
  assumes "aof_inv contents policy a pc h"
  shows "aof_inv contents policy (queue_producer a) pc h"
proof -
  have "producer_ok a" "pressure_ok a" using assms by (auto simp: aof_inv_defs)
  note q = queue_producer_ok [OF this]
  obtain new where "queue (queue_producer a) = queue a @ new" using q(2) by (auto simp: grown_def)
  then show ?thesis using assms q by (cases pc) (auto simp: aof_inv_defs grown_def producer_ok_def debt_def)
qed

lemma enqueue_ok:
  assumes inv: "aof_inv contents policy a pc h" and len: "Suc (length h) < 2 ^ 64" and n: "producer_chunk a = None"
    and e: "enqueue_bytes alloc a data = (a', Some s)" and d: "data \<noteq> []"
  shows "s = next_sequence a + 1" "aof_inv contents policy a' pc (h @ [(Some s, data)])"
proof -
  let ?n = "next_sequence a + 1" and ?base = "length (log_file a) - debt pc"
  let ?M = "marks_of contents (h @ [(Some ?n, data)])"
  have i: "stream_ok contents a pc h" "numbers_ok (marks_of contents h) a pc" "unat (next_sequence a) \<le> length h" "pressure_ok a"
    using inv by (auto simp: aof_inv_def stream_ok_def)
  note w = no_wrap [OF i(3) len]
  obtain b cs where sp: "split_loop alloc 0 a data 0 [] = (b, Some cs)"
    using e d by (auto simp: enqueue_bytes_def split: prod.splits option.splits if_splits)
  then have b: "grown a b" "queue b = queue a" "producer_chunk b = None" "queue_bytes b = queue_bytes a" "backpressured b = backpressured a"
    and cs: "list_all piece cs" "queued cs = data" using split_loop_ok [OF sp] n by auto
  then have nb: "next_sequence b = next_sequence a" by (simp add: grown_def)
  let ?b = "b\<lparr>next_sequence := ?n\<rparr>"
  let ?m = "butlast cs @ [(last cs)\<lparr>chunk_sequence := ?n, sequence_end := True\<rparr>]"
  have ne: "cs \<noteq> []" using cs(2) d by auto
  have ch: "chunks a = queue a" using n by (simp add: chunks_def)
  have M: "?M = insert (?n, ?base + length (outgoing a) + length data) (marks_of contents h)"
    by (simp add: marks_of_put stream_length [OF i(1)])
  have "covered ?M ?n (?base + length (outgoing a) + length (queued cs))"
    unfolding M cs(2) by (intro covered_insert marks_covered i(1)) simp
  note mk = marked_ok [OF cs(1) ne this refl]
  have "pressure_ok ?b" using i(4) b by (simp add: pressure_ok_def)
  note q = queue_all [OF mk(3) this]
  show s: "s = ?n" using e d sp nb by (simp add: enqueue_bytes_def Let_def)
  have a': "a' = foldl queue_chunk_locked ?b ?m" using e d sp nb by (auto simp: enqueue_bytes_def Let_def)
  have ch': "chunks a' = queue a @ ?m" using q b by (simp add: a' chunks_def)
  have "ends_ok (marks_of contents h) (next_sequence a) ?base (queue a)" using i(2) by (simp add: numbers_ok_def ch)
  then have e0: "ends_ok ?M ?n ?base (queue a)"
    unfolding M using w by (intro ends_ok_limit [OF ends_ok_insert]) (auto intro: less_imp_le)
  have g: "grown (a\<lparr>next_sequence := ?n\<rparr>) a'" using q b(1) unfolding a' by (auto simp: grown_def)
  have ends: "ends_ok ?M ?n ?base (chunks a')" using e0 mk(1) [unfolded ch] unfolding ch' ends_ok_append [of _ _ _ "queue a"] by blast
  have out: "outgoing a' = outgoing a @ data" using mk(2) by (simp add: ch' ch cs(2))
  have "producer_ok a'" using q b by (simp add: a' producer_ok_def)
  then show "aof_inv contents policy a' pc (h @ [(Some s, data)])"
    using aof_inv_put [OF inv len g _ _ _ ends out] q s by (simp add: a')
qed

lemma flush_inv:
  assumes inv: "aof_inv contents policy a pc h" and len: "Suc (length h) < 2 ^ 64"
    and f: "aof_flush_begin alloc a = (a', Inr s)"
  shows "aof_inv contents policy a' pc (h @ [(committed s, pending a)])"
proof -
  let ?b = "queue_producer a"
  have pr: "producer_ok a" "pressure_ok a" using inv by (auto simp: aof_inv_defs)
  note q = queue_producer_ok [OF pr]
  have invb: "aof_inv contents policy ?b pc h" by (rule queue_producer_inv [OF inv])
  have pb: "pending ?b = pending a" using q(2) by (simp add: grown_def)
  have act: "\<not> transaction_active a" using f by (auto simp: aof_flush_begin_def split: if_splits)
  show ?thesis
  proof (cases "pending a = []")
    case True
    then show ?thesis using f act pb aof_inv_nothing [OF invb] by (simp add: aof_flush_begin_def committed_def Let_def)
  next
    case False
    then obtain b where b: "enqueue_bytes alloc ?b (pending a) = (b, Some s)" "a' = b\<lparr>pending := []\<rparr>"
      using f act pb by (auto simp: aof_flush_begin_def Let_def split: prod.splits option.splits)
    note e = enqueue_ok [OF invb len q(3) b(1) False]
    have "s \<noteq> 0" using e(1) no_wrap invb len by (auto simp: aof_inv_def)
    with e(2) b(2) aof_inv_buffers(2) show ?thesis by (simp add: committed_def)
  qed
qed

lemma flush_failed_inv:
  assumes inv: "aof_inv contents policy a pc h" and f: "aof_flush_begin alloc a = (a', Inl e)"
  shows "aof_inv contents policy a' pc h"
proof (cases "transaction_active a")
  case True
  with f inv show ?thesis by (simp add: aof_flush_begin_def)
next
  case False
  let ?b = "queue_producer a"
  have "split_loop alloc 0 ?b (pending ?b) 0 [] = (a', None)"
    using f False by (auto simp: aof_flush_begin_def enqueue_bytes_def Let_def split: if_splits prod.splits option.splits)
  from split_loop_ok [OF this] have "grown ?b a'" "queue a' = queue ?b" "producer_chunk a' = producer_chunk ?b"
    "queue_bytes a' = queue_bytes ?b" "backpressured a' = backpressured ?b" by auto
  then show ?thesis by (intro aof_inv_cong [OF queue_producer_inv [OF inv]]) (auto simp: grown_def)
qed

lemma append_inv:
  "aof_inv contents policy a pc h \<Longrightarrow> aof_append b a args = (a', r) \<Longrightarrow> aof_inv contents policy a' pc h"
  by (erule aof_inv_cong) (auto simp: aof_append_def split: option.splits sum.splits prod.splits if_splits)

lemma begin_inv:
  "aof_inv contents policy a pc h \<Longrightarrow> aof_transaction_begin a = (a', r) \<Longrightarrow> aof_inv contents policy a' pc h"
  by (erule aof_inv_cong) (auto simp: aof_transaction_begin_def split: if_splits)

lemma pause_inv:
  "aof_inv contents policy a pc h \<Longrightarrow> aof_pause_begin a = (a', r) \<Longrightarrow> aof_inv contents policy a' pc h"
  "aof_inv contents policy a pc h \<Longrightarrow> aof_pause_end a = (a', r) \<Longrightarrow> aof_inv contents policy a' pc h"
  "aof_inv contents policy a pc h \<Longrightarrow> aof_inv contents policy (aof_resume_after_fork a) pc h"
  "aof_inv contents policy a pc h \<Longrightarrow> aof_inv contents policy (aof_stop a) pc h"
  "aof_inv contents policy a pc h \<Longrightarrow> aof_inv contents policy (aof_transaction_rollback a) pc h"
  by (erule aof_inv_cong; auto simp: aof_pause_begin_def aof_pause_end_def aof_resume_after_fork_def aof_stop_def
      aof_transaction_rollback_def split: if_splits option.splits)+

lemma error_inv: "aof_inv contents policy a pc h \<Longrightarrow> aof_inv contents policy (publish_error a e) pc h"
  by (erule aof_inv_cong) (auto simp: publish_error_def)

lemma sync_inv:
  assumes inv: "aof_inv contents policy a pc h" and s: "sync_written f t0 t1 a target = (a', r)"
    and t: "target \<le> next_sequence a" "covered (marks_of contents h) target (length (log_file a))"
  shows "aof_inv contents policy a' pc h" "log_file a' = log_file a" "next_sequence a' = next_sequence a"
    "r = None \<Longrightarrow> covered (marks_of contents h) target (durable a')" "fsync_policy a' = fsync_policy a"
proof -
  let ?M = "marks_of contents h"
  have n: "numbers_ok ?M a pc" using inv by (simp add: aof_inv_def)
  then have d: "durable a \<le> length (log_file a)" by (simp add: numbers_ok_def)
  have up: "covered ?M s (durable a) \<Longrightarrow> covered ?M s (length (log_file a))" for s using covered_mono d by blast
  show l: "log_file a' = log_file a" and nx: "next_sequence a' = next_sequence a" and "fsync_policy a' = fsync_policy a"
    using s by (auto simp: sync_written_def Let_def split: if_splits option.splits)
  show "r = None \<Longrightarrow> covered ?M target (durable a')"
    using s t n covered_mono [of ?M "synced_sequence a" "durable a" target "durable a"]
    by (auto simp: sync_written_def Let_def numbers_ok_def split: if_splits option.splits)
  show "aof_inv contents policy a' pc h"
  proof (cases "a' = a")
    case False
    have f: "durable a' = length (log_file a)" "synced_sequence a' = target" "written_sequence a' = written_sequence a"
      "chunks a' = chunks a" "queue a' = queue a" "fsync_policy a' = fsync_policy a" "producer_ok a' = producer_ok a" "pressure_ok a' = pressure_ok a"
      using False s by (auto simp: sync_written_def Let_def chunks_def producer_ok_def pressure_ok_def split: if_splits option.splits)
    have "numbers_ok ?M a' pc" using n t up l nx f by (auto simp: numbers_ok_def)
    moreover have "pc_ok ?M a' pc" using inv up l nx f by (cases pc) (auto simp: aof_inv_def pc_ok_def)
    ultimately show ?thesis using inv l nx f by (simp add: aof_inv_def stream_ok_def)
  qed (use inv in simp)
qed

lemma written_target:
  assumes "aof_inv contents policy a pc h"
  shows "written_sequence a \<le> next_sequence a" "covered (marks_of contents h) (written_sequence a) (length (log_file a))"
  using assms by (auto simp: aof_inv_def numbers_ok_def)

lemma sync_written_inv:
  "aof_inv contents policy a pc h \<Longrightarrow> sync_written f t0 t1 a (written_sequence a) = (a', r) \<Longrightarrow> aof_inv contents policy a' pc h"
  using sync_inv(1) written_target by metis

subsection \<open>Steps of the writer\<close>

lemma aof_inv_pc: "aof_inv contents policy a pc h \<Longrightarrow> debt pc = 0 \<Longrightarrow> debt pc' = 0 \<Longrightarrow> pc_ok (marks_of contents h) a pc' \<Longrightarrow>
    aof_inv contents policy a pc' h"
  by (simp add: aof_inv_def stream_ok_def numbers_ok_def)

lemma gather_ok: "pc_ok M a (W_WRITE (gather a))"
proof -
  have "queued (queue a) = concat (gather a) @ queued (drop AOF_WRITEV_MAX (queue a))"
    using queued_simps(3) [of "take AOF_WRITEV_MAX (queue a)" "drop AOF_WRITEV_MAX (queue a)"]
    by (simp add: gather_def queued_def del: queued_simps)
  then show ?thesis by (simp add: pc_ok_def)
qed

lemma writev_inv:
  assumes inv: "aof_inv contents policy a (W_WRITE vs) h" and n: "n \<le> length (concat vs)"
  shows "aof_inv contents policy (append_file a (take n (concat vs))) (W_ACCOUNT n) h"
proof -
  let ?a = "append_file a (take n (concat vs))" and ?M = "marks_of contents h"
  obtain rest where r: "queued (queue a) = concat vs @ rest" using inv by (auto simp: aof_inv_def pc_ok_def)
  have f: "log_file ?a = log_file a @ take n (concat vs)" "chunks ?a = chunks a" "queue ?a = queue a" "durable ?a = durable a"
    "written_sequence ?a = written_sequence a" "synced_sequence ?a = synced_sequence a" "next_sequence ?a = next_sequence a"
    "fsync_policy ?a = fsync_policy a" "producer_ok ?a = producer_ok a" "pressure_ok ?a = pressure_ok a"
    by (simp_all add: append_file_def chunks_def producer_ok_def pressure_ok_def)
  have "outgoing a = concat vs @ rest @ queued (case producer_chunk a of None \<Rightarrow> [] | Some c \<Rightarrow> [c])"
    using r by (simp add: chunks_def)
  then have "log_file ?a @ drop n (outgoing ?a) = log_file a @ outgoing a" using n f by simp
  then have "stream_ok contents ?a (W_ACCOUNT n) h"
    using inv r n f by (auto simp: aof_inv_def stream_ok_def debt_def)
  moreover have up: "covered ?M s (length (log_file a)) \<Longrightarrow> covered ?M s (length (log_file ?a))" for s
    using covered_mono f(1) by fastforce
  have "numbers_ok ?M ?a (W_ACCOUNT n)"
    using inv up n f by (auto simp: aof_inv_def numbers_ok_def debt_def)
  ultimately show ?thesis using inv f by (simp add: aof_inv_def pc_ok_def)
qed

lemma account_inv:
  assumes inv: "aof_inv contents policy a (W_ACCOUNT n) h" and w: "writer_account a n = (a', s)"
  shows "aof_inv contents policy a' (if s \<noteq> 0 \<and> fsync_policy a = AOF_FSYNC_ALWAYS then W_SYNC s else W_TAIL) h"
proof -
  let ?M = "marks_of contents h" and ?pc = "if s \<noteq> 0 \<and> fsync_policy a = AOF_FSYNC_ALWAYS then W_SYNC s else W_TAIL"
  let ?base = "length (log_file a) - n" and ?opt = "case producer_chunk a of None \<Rightarrow> [] | Some c \<Rightarrow> [c]"
  have i: "stream_ok contents a (W_ACCOUNT n) h" "numbers_ok ?M a (W_ACCOUNT n)" using inv by (auto simp: aof_inv_def)
  have n: "n \<le> length (queued (queue a))" "n \<le> length (log_file a)" "pressure_ok a" "producer_ok a"
    "length contents + n \<le> length (log_file a)"
    "log_file a @ drop n (outgoing a) = contents @ concat (map snd h)" using i(1) by (auto simp: stream_ok_def debt_def)
  have ch: "chunks a = queue a @ ?opt" by (simp add: chunks_def)
  have e: "ends_ok ?M (next_sequence a) ?base (queue a)" "ends_ok ?M (next_sequence a) (?base + length (queued (queue a))) ?opt"
    using i(2) by (simp_all add: numbers_ok_def debt_def ch ends_ok_append)
  obtain q left free where c: "consume_loop (queue a) n (queue_bytes a) (free_chunks a) 0 = (q, left, free, s)"
    and f: "queue a' = q" "queue_bytes a' = left" "producer_chunk a' = producer_chunk a" "log_file a' = log_file a" "durable a' = durable a"
      "fsync_policy a' = fsync_policy a" "next_sequence a' = next_sequence a" "synced_sequence a' = synced_sequence a"
      "backpressured a' \<longleftrightarrow> backpressured a \<and> left > AOF_QUEUE_LOW_WATER"
      "written_sequence a' = (if s \<noteq> 0 \<and> fsync_policy a \<noteq> AOF_FSYNC_ALWAYS \<and> s > written_sequence a then s else written_sequence a)"
    using w by (auto simp: writer_account_def consume_written_def publish_written_def Let_def not_le split: prod.splits if_splits)
  note k = consume_loop_ok [OF c e(1) n(1)]
  have sok: "s \<noteq> 0 \<Longrightarrow> s \<le> next_sequence a \<and> covered ?M s (length (log_file a))" using k n(2) by simp
  have ch': "chunks a' = q @ ?opt" by (simp add: chunks_def f)
  have "ends_ok ?M (next_sequence a') (length (log_file a')) (chunks a')"
    using k e(2) n(1,2) unfolding ch' f ends_ok_append by simp
  moreover have "log_file a' @ outgoing a' = contents @ concat (map snd h)"
    using n(1,6) k by (simp add: ch' ch f)
  moreover have "pressure_ok a'" using n(1,3) k f by (auto simp: pressure_ok_def AOF_QUEUE_HIGH_WATER_def AOF_QUEUE_LOW_WATER_def)
  moreover have "producer_ok a'" using n(4) f by (simp add: producer_ok_def)
  ultimately show ?thesis
    using i(2) f inv sok n(5) by (auto simp: aof_inv_def stream_ok_def numbers_ok_def debt_def pc_ok_def)
qed

lemma publish_inv:
  assumes inv: "aof_inv contents policy a (W_PUBLISH s) h"
  shows "aof_inv contents policy (publish_written a s) W_TAIL h"
proof -
  have "s \<le> next_sequence a" "covered (marks_of contents h) s (durable a)" "durable a \<le> length (log_file a)"
    using inv by (auto simp: aof_inv_def pc_ok_def numbers_ok_def)
  moreover from this have "covered (marks_of contents h) s (length (log_file a))" using covered_mono by blast
  ultimately show ?thesis
    using inv by (auto simp: aof_inv_defs publish_written_def debt_def chunks_def producer_ok_def pressure_ok_def)
qed

lemma writer_step_inv:
  assumes "writer_step a pc a' pc'" "aof_inv contents policy a pc h"
  shows "aof_inv contents policy a' pc' h"
  using assms
proof (induction rule: writer_step.induct)
  case (pause a)
  then show ?case by (elim aof_inv_cong) simp_all
next
  case (unpause a)
  then show ?case by (elim aof_inv_cong) simp_all
next
  case (idle_sync a f t0 t1 a')
  then show ?case using sync_written_inv by blast
next
  case (idle_sync_failed a f t0 t1 a' e)
  then have "aof_inv contents policy a' W_LOOP h" using sync_written_inv by blast
  from error_inv [OF aof_inv_pc [OF this]] show ?case by (simp add: debt_def pc_ok_def)
next
  case (leave a)
  then show ?case by (elim aof_inv_pc) (simp_all add: debt_def pc_ok_def)
next
  case (gather a)
  then show ?case using gather_ok by (elim aof_inv_pc) (simp_all add: debt_def)
next
  case (writev n vectors a)
  then show ?case by (intro writev_inv)
next
  case (writev_failed a vectors e)
  then have "aof_inv contents policy a W_LAST h" by (elim aof_inv_pc) (simp_all add: debt_def pc_ok_def)
  then show ?case by (rule error_inv)
next
  case (account a n a' completed)
  then show ?case by (intro account_inv)
next
  case (sync f t0 t1 a completed a')
  then have c: "completed \<le> next_sequence a" "covered (marks_of contents h) completed (length (log_file a))"
    by (auto simp: aof_inv_def pc_ok_def)
  note y = sync_inv [OF sync(2,1) c]
  show ?case by (rule aof_inv_pc [OF y(1)]) (use y(3,4) c(1) in \<open>simp_all add: debt_def pc_ok_def\<close>)
next
  case (sync_failed f t0 t1 a completed a' e)
  then have c: "completed \<le> next_sequence a" "covered (marks_of contents h) completed (length (log_file a))"
    by (auto simp: aof_inv_def pc_ok_def)
  from error_inv [OF aof_inv_pc [OF sync_inv(1) [OF sync_failed(2,1) c]]] show ?case by (simp add: debt_def pc_ok_def)
next
  case (publish a completed)
  then show ?case by (rule publish_inv)
next
  case (continue a)
  then show ?case by (elim aof_inv_pc) (simp_all add: debt_def pc_ok_def)
next
  case (tail_sync a f t0 t1 a')
  from aof_inv_pc [OF sync_written_inv [OF tail_sync(3,2)]] show ?case by (simp add: debt_def pc_ok_def)
next
  case (tail_sync_failed a f t0 t1 a' e)
  from error_inv [OF aof_inv_pc [OF sync_written_inv [OF tail_sync_failed(3,2)]]]
  show ?case by (simp add: debt_def pc_ok_def)
next
  case (return a)
  then show ?case by (elim aof_inv_pc) (simp_all add: debt_def pc_ok_def)
next
  case (last_sync a f t0 t1 a' r)
  have "aof_inv contents policy a' W_RETURNED h"
    using aof_inv_pc [OF sync_written_inv [OF last_sync(3,2)]] by (simp add: debt_def pc_ok_def)
  then show ?case using error_inv by (auto split: option.splits)
qed

lemma checkpoint_inv:
  assumes inv: "aof_inv contents policy a pc h" and w: "wait_over a s" and c: "checkpoint_end f t0 t1 a s token = (a', r)"
  shows "aof_inv contents policy a' pc h" "\<And>cp. r = Inr cp \<Longrightarrow> log_file a' = log_file a"
proof -
  show "aof_inv contents policy a' pc h"
  proof (cases "async_error a")
    case None
    then have le: "s \<le> written_sequence a" using w by (simp add: wait_over_def not_less)
    have n: "written_sequence a \<le> next_sequence a" "covered (marks_of contents h) (written_sequence a) (length (log_file a))"
      using written_target [OF inv] by auto
    have "s \<le> next_sequence a" "covered (marks_of contents h) s (length (log_file a))"
      using le n(1) covered_mono [OF n(2) le] by auto
    with None c sync_inv(1) [OF inv] show ?thesis by (auto simp: checkpoint_end_def split: prod.splits option.splits)
  next
    case (Some e)
    with c inv show ?thesis by (simp add: checkpoint_end_def)
  qed
  show "\<And>cp. r = Inr cp \<Longrightarrow> log_file a' = log_file a"
    using c by (auto simp: checkpoint_end_def sync_written_def Let_def split: option.splits prod.splits if_splits)
qed

lemma start_inv: "aof_open b1 b2 b3 path contents policy = Inr a \<Longrightarrow> aof_inv contents policy a W_LOOP []"
  by (auto simp: aof_open_def aof_inv_defs marks_of_def covered_def debt_def chunks_def producer_ok_def pressure_ok_def
      AOF_QUEUE_HIGH_WATER_def split: if_splits)

lemma aof_run_inv:
  "aof_run contents policy a pc h \<Longrightarrow> length h < 2 ^ 64 \<Longrightarrow> aof_inv contents policy a pc h"
proof (induction rule: aof_run.induct)
  case (start path a)
  then show ?case using start_inv by blast
next
  case (writer a pc h a' pc')
  then show ?case using writer_step_inv by blast
next
  case (checkpoint a pc h s f t0 t1 token a' r)
  then show ?case using checkpoint_inv(1) by blast
qed (auto intro: append_inv begin_inv pause_inv commit_inv commit_failed_inv flush_inv flush_failed_inv queue_producer_inv
    simp: aof_transaction_commit_def)

end
