(* ===== verification/AofProps.thy ===== *)
theory AofProps
  imports AofSpec
begin

text \<open>
  Properties of the append-only file: what an acknowledged sequence number guarantees, crash recovery
  through replay, checkpoints, and what a failed commit leaves behind.
\<close>

subsection \<open>Records in the log\<close>

definition records :: "bytes \<Rightarrow> bool" where
  "records b \<longleftrightarrow> (\<exists>rs. list_all aof_writable rs \<and> b = log_of rs)"

lemma records_Nil [simp]: "records []"
  unfolding records_def by (intro exI [of _ "[]"]) simp

lemma records_snoc: "records b \<Longrightarrow> aof_writable r \<Longrightarrow> records (b @ resp_frame r)"
proof -
  assume "records b" and r: "aof_writable r"
  then obtain rs where "list_all aof_writable rs" "b = log_of rs" by (auto simp: records_def)
  with r show ?thesis unfolding records_def by (intro exI [of _ "rs @ [r]"]) simp
qed

definition logs_ok :: "aof \<Rightarrow> history \<Rightarrow> bool" where
  "logs_ok a h \<longleftrightarrow> records (transaction a) \<and> records (pending a)
     \<and> (\<forall>(so, b) \<in> set h. so \<noteq> Some 0 \<and> (so \<noteq> None \<longrightarrow> records b))"

lemma logs_ok_cong: "logs_ok a h \<Longrightarrow> transaction a' = transaction a \<Longrightarrow> pending a' = pending a \<Longrightarrow> logs_ok a' h"
  by (simp add: logs_ok_def)

lemma append_records:
  assumes "append_to b buffer capacity args n = (buffer', capacity', e)" "encoded_size args = Inr n" "records buffer"
  shows "records buffer'"
proof -
  have "buffer' = buffer \<or> buffer' = buffer @ resp_frame args"
    using assms(1) by (auto simp: append_to_def encode_record_frame split: if_splits sum.splits)
  moreover have "aof_writable args" using assms(2) by (simp add: encoded_size_Inr)
  ultimately show ?thesis using records_snoc [OF assms(3)] assms(3) by blast
qed

lemma append_logs:
  assumes l: "logs_ok a h" and a: "aof_append b a args = (a', r)"
  shows "logs_ok a' h"
proof (cases "aof_last_error a = None \<and> (\<exists>n. encoded_size args = Inr n)")
  case False
  then have "a' = a" using a by (auto simp: aof_append_def split: option.splits sum.splits)
  with l show ?thesis by simp
next
  case True
  then obtain n where n: "encoded_size args = Inr n" "aof_last_error a = None" by blast
  obtain t c e where t: "append_to b (transaction a) (transaction_capacity a) args n = (t, c, e)" by (metis prod_cases3)
  obtain p d f where p: "append_to b (pending a) (pending_capacity a) args n = (p, d, f)" by (metis prod_cases3)
  have "records t" "records p" using append_records [OF t n(1)] append_records [OF p n(1)] l by (auto simp: logs_ok_def)
  with a n t p l show ?thesis by (auto simp: aof_append_def logs_ok_def split: if_splits)
qed

lemma sync_buffers:
  "sync_written f t0 t1 a s = (a', r) \<Longrightarrow> transaction a' = transaction a \<and> pending a' = pending a"
  by (auto simp: sync_written_def Let_def split: if_splits option.splits)

lemma writer_buffers:
  assumes "writer_step a pc a' pc'"
  shows "transaction a' = transaction a \<and> pending a' = pending a"
  using assms
proof (induction rule: writer_step.induct)
  case (account a n a' completed)
  then show ?case by (auto simp: writer_account_def consume_written_def publish_written_def Let_def split: prod.splits if_splits)
qed (auto simp: publish_error_def append_file_def publish_written_def dest: sync_buffers split: option.splits)

lemma foldl_queue_buffers:
  "transaction (foldl queue_chunk_locked a cs) = transaction a \<and> pending (foldl queue_chunk_locked a cs) = pending a"
  by (induction cs arbitrary: a) (auto simp: queue_chunk_locked_def Let_def)

lemma queue_producer_buffers:
  "transaction (queue_producer a) = transaction a" "pending (queue_producer a) = pending a"
  by (auto simp: queue_producer_def queue_chunk_locked_def Let_def split: option.splits)

lemma enqueue_buffers:
  assumes "enqueue_bytes alloc a data = (a', r)"
  shows "transaction a' = transaction a \<and> pending a' = pending a"
proof -
  obtain b x where s: "split_loop alloc 0 a data 0 [] = (b, x)" by fastforce
  have b: "transaction b = transaction a" "pending b = pending a" using split_loop_ok [OF s] by (auto simp: grown_def)
  consider "a' = a" | "a' = b" | cs n where "a' = foldl queue_chunk_locked (b\<lparr>next_sequence := n\<rparr>) cs"
    using assms s by (auto simp: enqueue_bytes_def Let_def simp del: foldl_append split: if_splits option.splits)
  then show ?thesis using b by cases (simp_all add: foldl_queue_buffers)
qed

lemma flush_buffers:
  assumes "aof_flush_begin alloc a = (a', r)"
  shows "transaction a' = transaction a \<and> (pending a' = pending a \<or> pending a' = [])"
proof -
  obtain b x where e: "enqueue_bytes alloc (queue_producer a) (pending (queue_producer a)) = (b, x)" by fastforce
  note q = queue_producer_buffers [of a]
  note d = assms [unfolded aof_flush_begin_def Let_def e]
  show ?thesis
  proof (cases "transaction_active a \<or> length (pending (queue_producer a)) = 0")
    case True
    with d have "a' = a \<or> a' = queue_producer a" by (auto split: if_split_asm)
    then show ?thesis using q by auto
  next
    case False
    with d have "a' = (case x of None \<Rightarrow> b | Some _ \<Rightarrow> b\<lparr>pending := []\<rparr>)" by (auto split: option.splits)
    then show ?thesis using enqueue_buffers [OF e] q by (cases x) simp_all
  qed
qed

lemma commit_logs:
  assumes inv: "aof_inv contents policy a pc h" and len: "Suc (length h) < 2 ^ 64" and l: "logs_ok a h"
    and c: "aof_transaction_commit alloc a = Some (a', r)" and act: "transaction_active a"
  shows "logs_ok a' h" "r = Inr s \<Longrightarrow> logs_ok a' (h @ [(committed s, transaction a)])"
proof -
  have "transaction a' = [] \<and> pending a' = pending a"
  proof (cases "transaction a = []")
    case True
    with c commit_empty [OF act True, of alloc] show ?thesis by auto
  next
    case False
    with c commit_parts [OF inv len act False, of alloc] show ?thesis by auto
  qed
  with l show "logs_ok a' h" "r = Inr s \<Longrightarrow> logs_ok a' (h @ [(committed s, transaction a)])"
    by (auto simp: logs_ok_def committed_def)
qed

lemma aof_run_logs: "aof_run contents policy a pc h \<Longrightarrow> length h < 2 ^ 64 \<Longrightarrow> logs_ok a h"
proof (induction rule: aof_run.induct)
  case (start path a)
  then show ?case by (auto simp: aof_open_def logs_ok_def split: if_splits)
next
  case (writer a pc h a' pc')
  then show ?case using writer_buffers logs_ok_cong by blast
next
  case (append a pc h allocated args a' r)
  then show ?case using append_logs by blast
next
  case (transaction_begin a pc h a' r)
  then show ?case by (auto simp: aof_transaction_begin_def logs_ok_def split: if_splits)
next
  case (rollback a pc h)
  then show ?case by (simp add: aof_transaction_rollback_def logs_ok_def)
next
  case (commit a pc h alloc a' s)
  have act: "transaction_active a" using commit.hyps by (auto simp: aof_transaction_commit_def split: if_splits)
  have "Suc (length h) < 2 ^ 64" using commit.prems by simp
  from commit_logs(2) [OF aof_run_inv [OF commit.hyps(1)] this commit.IH commit.hyps(2) act refl] commit.prems show ?case by simp
next
  case (commit_inactive a pc h alloc a' e)
  then show ?case by (simp add: aof_transaction_commit_def)
next
  case (commit_failed a pc h alloc a' e part)
  have "Suc (length h) < 2 ^ 64" using commit_failed.prems by simp
  from commit_logs(1) [OF aof_run_inv [OF commit_failed.hyps(1)] this commit_failed.IH commit_failed.hyps(3,2)] commit_failed.prems
  show ?case by (simp add: logs_ok_def)
next
  case (flush a pc h alloc a' s)
  then show ?case using flush_buffers [OF flush.hyps(2)] by (auto simp: logs_ok_def committed_def)
next
  case (flush_failed a pc h alloc a' e)
  then show ?case using flush_buffers [OF flush_failed.hyps(2)] by (auto simp: logs_ok_def)
next
  case (queue_producer a pc h)
  then show ?case using queue_producer_buffers by (simp add: logs_ok_def)
next
  case (checkpoint a pc h s f t0 t1 token a' r)
  then show ?case by (auto simp: checkpoint_end_def logs_ok_def dest: sync_buffers split: option.splits prod.splits)
next
  case (pause a pc h a' r)
  then show ?case by (auto simp: aof_pause_begin_def logs_ok_def split: if_splits)
next
  case (paused a pc h a' r)
  then show ?case by (auto simp: aof_pause_end_def logs_ok_def split: option.splits)
qed (simp_all add: aof_resume_after_fork_def aof_stop_def logs_ok_def)

subsection \<open>Cutting the log\<close>

lemma frame_nonempty [simp]: "resp_frame r \<noteq> []"
  by (simp add: resp_frame_def)

lemma log_prefix:
  "list_all aof_writable rs \<Longrightarrow> x @ y = log_of rs \<Longrightarrow>
     \<exists>read t rest. x = log_of read @ t \<and> rs = read @ rest \<and> (t = [] \<or> torn t) \<and> (\<forall>r rest'. rest = r # rest' \<longrightarrow> length t < length (resp_frame r))
       \<and> (rest = [] \<longrightarrow> t = [])"
proof (induction rs arbitrary: x)
  case Nil
  then show ?case by simp
next
  case (Cons r rs)
  show ?case
  proof (cases "length x < length (resp_frame r)")
    case True
    have "take (length x) (resp_frame r @ log_of rs) = x" using Cons.prems(2) by (metis append_eq_conv_conj log_of_simps(2))
    then have "resp_frame r = x @ drop (length x) (resp_frame r)"
      using True by (metis append_take_drop_id less_imp_le_nat take_append take0 diff_is_0_eq append_Nil2)
    with True Cons.prems have "torn x" unfolding torn_def by (intro exI [of _ r] exI [of _ "drop (length x) (resp_frame r)"]) auto
    with True show ?thesis by (intro exI [of _ "[]"] exI [of _ x] exI [of _ "r # rs"]) auto
  next
    case False
    then have "take (length (resp_frame r)) x = resp_frame r"
      using arg_cong [OF Cons.prems(2), of "take (length (resp_frame r))"] by simp
    then obtain x' where x: "x = resp_frame r @ x'" by (metis append_take_drop_id)
    then have y: "x' @ y = log_of rs" using Cons.prems(2) by simp
    from Cons.IH [OF _ y] Cons.prems(1) obtain read t rest where
      "x' = log_of read @ t" "rs = read @ rest" "t = [] \<or> torn t" "\<forall>r rest'. rest = r # rest' \<longrightarrow> length t < length (resp_frame r)"
      "rest = [] \<longrightarrow> t = []" by auto
    with x show ?thesis by (intro exI [of _ "r # read"] exI [of _ t] exI [of _ rest]) auto
  qed
qed

text \<open>A list of records whose log is not longer than what was kept was read completely.\<close>

lemma read_covers:
  assumes "rs1 @ rs2 = read @ rest" "length (log_of rs1) \<le> length (log_of read) + length t"
    and t: "\<forall>r rest'. rest = r # rest' \<longrightarrow> length t < length (resp_frame r)"
  shows "prefix rs1 read"
proof -
  consider zs where "read = rs1 @ zs" | z zs where "rs1 = read @ z # zs" "rest = z # zs @ rs2"
    using assms(1) by (auto simp: append_eq_append_conv2 Cons_eq_append_conv neq_Nil_conv) (metis append_Nil2 list.exhaust append_Cons)
  then show ?thesis
  proof cases
    case 2
    then show ?thesis using assms(2) t by auto
  qed simp
qed

lemma acknowledged_mark:
  assumes run: "aof_run contents policy a pc h" "length h < 2 ^ 64" and h: "h = before @ (Some s, b) # after"
    and r: "aof_sequence_ready a s"
  shows "length contents + length (concat (map snd before)) + length b \<le> length (log_file a)"
    "policy = AOF_FSYNC_ALWAYS \<Longrightarrow> length contents + length (concat (map snd before)) + length b \<le> durable a"
proof -
  have inv: "aof_inv contents policy a pc h" using aof_run_inv [OF run] .
  have "s \<noteq> 0" using aof_run_logs [OF run] h by (auto simp: logs_ok_def)
  then have le: "s \<le> written_sequence a" using r by (simp add: aof_sequence_ready_def)
  have m: "(s, length contents + length (concat (map snd before)) + length b) \<in> marks_of contents h"
    by (simp add: h marks_of_def marks_append)
  have n: "numbers_ok (marks_of contents h) a pc" "fsync_policy a = policy" using inv by (auto simp: aof_inv_def)
  have "covered (marks_of contents h) (written_sequence a) (length (log_file a))" using n(1) by (simp add: numbers_ok_def)
  with m le show "length contents + length (concat (map snd before)) + length b \<le> length (log_file a)"
    unfolding covered_def by blast
  show "length contents + length (concat (map snd before)) + length b \<le> durable a" if "policy = AOF_FSYNC_ALWAYS"
  proof -
    have "covered (marks_of contents h) (written_sequence a) (durable a)" using n that by (simp add: numbers_ok_def)
    with m le show ?thesis unfolding covered_def by blast
  qed
qed

lemma run_stream:
  assumes "aof_run contents policy a pc h" "length h < 2 ^ 64"
  shows "log_file a @ drop (debt pc) (outgoing a) = contents @ concat (map snd h)" "durable a \<le> length (log_file a)"
    "length contents \<le> length (log_file a)"
  using aof_run_inv [OF assms] by (simp_all add: aof_inv_def stream_ok_def numbers_ok_def)

lemma longer_start: "x @ y = p @ q \<Longrightarrow> length p \<le> length x \<Longrightarrow> \<exists>rest. x = p @ rest"
  by (metis append_eq_append_conv_if append_take_drop_id)

lemma history_records:
  "\<forall>(so, b) \<in> set h. records b \<Longrightarrow> \<exists>rss. map snd h = map log_of rss \<and> list_all (list_all aof_writable) rss"
proof (induction h)
  case (Cons e h)
  then obtain rss where "map snd h = map log_of rss" "list_all (list_all aof_writable) rss" by auto
  moreover obtain rs where "snd e = log_of rs" "list_all aof_writable rs" using Cons.prems by (cases e) (auto simp: records_def)
  ultimately show ?case by (intro exI [of _ "rs # rss"]) simp
qed simp

lemma log_of_concat: "log_of (concat rss) = concat (map log_of rss)"
  by (induction rss) auto

lemma list_all_concat_writable: "list_all (list_all P) rss \<Longrightarrow> list_all P (concat rss)"
  by (induction rss) auto

lemma crashed_log:
  assumes run: "aof_run contents policy a pc h" "length h < 2 ^ 64"
    and rss: "map snd h = map log_of rss" "list_all (list_all aof_writable) rss"
    and k: "length contents \<le> k" and crash: "crashed = take k (log_file a)"
  shows "\<exists>read t rest. crashed = contents @ log_of read @ t \<and> concat rss = read @ rest \<and> (t = [] \<or> torn t)
    \<and> (\<forall>r rest'. rest = r # rest' \<longrightarrow> length t < length (resp_frame r))"
proof -
  obtain tail where st: "log_file a @ tail = contents @ log_of (concat rss)"
    using run_stream(1) [OF run] by (auto simp: rss(1) log_of_concat)
  have "length contents \<le> length (log_file a)"
    using run_stream(3) [OF run] .
  then have "take (length contents) crashed = contents"
    using k arg_cong [OF st, of "take (length contents)"] by (simp add: crash)
  then obtain x where x: "crashed = contents @ x" by (metis append_take_drop_id)
  have "crashed @ (drop k (log_file a) @ tail) = contents @ log_of (concat rss)" using st by (simp add: crash flip: append_assoc)
  then have "x @ (drop k (log_file a) @ tail) = log_of (concat rss)" by (simp add: x)
  from log_prefix [OF list_all_concat_writable [OF rss(2)] this] x show ?thesis by auto
qed

lemma acknowledged_kept:
  assumes run: "aof_run contents policy a pc h" "length h < 2 ^ 64"
    and i: "i < length h" "fst (h ! i) = Some s" "aof_sequence_ready a s" and rss: "map snd h = map log_of rss"
    and k: "policy = AOF_FSYNC_ALWAYS \<and> durable a \<le> k \<or> length (log_file a) \<le> k"
  shows "length (log_of (concat (take (Suc i) rss))) + length contents \<le> length (take k (log_file a))"
proof -
  have h: "h = take i h @ (Some s, snd (h ! i)) # drop (Suc i) h" using i(1,2) by (metis id_take_nth_drop prod.collapse)
  have "concat (map snd (take (Suc i) h)) = log_of (concat (take (Suc i) rss))"
    using rss by (metis log_of_concat take_map)
  then have "length (log_of (concat (take (Suc i) rss))) = length (concat (map snd (take i h))) + length (snd (h ! i))"
    using i(1) by (simp add: take_Suc_conv_app_nth flip: length_append)
  moreover note acknowledged_mark [OF run h i(3)] run_stream(2) [OF run]
  ultimately show ?thesis using k by auto
qed

lemma replay_cut:
  assumes "list_all aof_writable read" "t = [] \<or> torn t"
  shows "aof_replay_from True True (contents @ log_of read @ t) (length contents) callback ctx =
    (case replay_all callback read ctx of
       (ctx, False) \<Rightarrow> (contents @ log_of read @ t, ctx, Inl EINVAL)
     | (ctx, True) \<Rightarrow> (contents @ log_of read, ctx, Inr \<lparr>commands_loaded = length read,
         truncated_tail_repaired = (contents @ log_of read @ t \<noteq> contents @ log_of read)\<rparr>))"
proof (cases "log_of read @ t = []")
  case True
  then have "read = []" by (cases read) auto
  with True show ?thesis by (simp add: aof_replay_from_def)
next
  case False
  then show ?thesis
    using replay_loop_log [OF assms, of callback contents ctx 0]
    by (auto simp: aof_replay_from_def split: prod.splits bool.splits)
qed

subsection \<open>A small run\<close>

definition demo_token :: bytes where
  "demo_token = replicate 16 171"

definition demo_args :: "bytes list" where
  "demo_args = checkpoint_arguments demo_token"

definition demo_record :: bytes where
  "demo_record = resp_frame demo_args"

definition demo_start :: aof where
  "demo_start = projr (aof_open True True True [97] [] AOF_FSYNC_ALWAYS)"

definition demo_chunk :: aof_chunk where
  "demo_chunk = \<lparr>chunk_data = demo_record, chunk_offset = 0, chunk_sequence = 1, sequence_end = True\<rparr>"

lemma demo_writable: "aof_writable demo_args" "length demo_record = 53"
proof -
  have t: "length (checkpoint_token_text token) = 2 * length token" for token by (induction token) auto
  have d: "length (decimal_text 2) = 1" "length (decimal_text 4) = 1" "length (decimal_text 32) = 2"
    by (simp_all add: decimal_text_unfold [of 2] decimal_text_unfold [of 4] decimal_text_unfold [of 32] decimal_text_unfold [of 3])
  show "length demo_record = 53"
    by (simp add: demo_record_def demo_args_def checkpoint_arguments_def resp_frame_def resp_bulk_def t d demo_token_def ascii_def
        numeral_2_eq_2 [symmetric])
  then show "aof_writable demo_args"
    by (simp add: aof_writable_def demo_record_def demo_args_def checkpoint_arguments_def RESP_MAX_ARGUMENTS_def AOF_MAX_RECORD_SIZE_def RESP_MAX_FRAME_SIZE_def)
qed

definition demo_queued :: aof where
  "demo_queued = demo_start\<lparr>transaction := [], transaction_capacity := AOF_CHUNK_CAPACITY, next_sequence := 1,
     queue := [demo_chunk], queue_bytes := 53\<rparr>"

lemma demo_committed: "aof_run [] AOF_FSYNC_ALWAYS demo_queued W_LOOP [(Some 1, demo_record)]"
proof -
  note D = demo_start_def aof_open_def
  let ?h = "[(Some (1 :: u64), demo_record)]"
  have r0: "aof_run [] AOF_FSYNC_ALWAYS demo_start W_LOOP []" by (rule aof_run.start [of "[97]"]) (simp add: D)
  let ?a1 = "demo_start\<lparr>transaction := [], transaction_active := True\<rparr>"
  have "aof_transaction_begin demo_start = (?a1, None)" by (simp add: D aof_transaction_begin_def aof_can_accept_write_def)
  note r1 = aof_run.transaction_begin [OF r0 this]
  let ?a2 = "?a1\<lparr>transaction := demo_record, transaction_capacity := AOF_CHUNK_CAPACITY\<rparr>"
  have es: "encoded_size demo_args = Inr 53" using demo_writable by (simp add: encoded_size_Inr demo_record_def)
  have rb: "reserve_bytes True 0 53 = Inr AOF_CHUNK_CAPACITY"
    by (simp add: reserve_bytes_def reserve_loop.simps AOF_CHUNK_CAPACITY_def)
  have er: "encode_record AOF_CHUNK_CAPACITY demo_args 53 = Inr demo_record"
    using demo_writable(2) by (simp add: encode_record_frame demo_record_def AOF_CHUNK_CAPACITY_def)
  have "aof_append True ?a1 demo_args = (?a2, None)"
    using es rb er by (simp add: D aof_append_def aof_last_error_def append_to_def SIZE_MAX_def)
  note r2 = aof_run.append [OF r1 this]
  let ?a3 = "?a2\<lparr>next_sequence := 1, producer_chunk := Some demo_chunk, transaction := [], transaction_active := False\<rparr>"
  have ne: "demo_record \<noteq> []" using demo_writable(2) by auto
  have "aof_transaction_commit (\<lambda>_. True) ?a2 = Some (?a3, Inr 1)"
    using demo_writable(2) ne
    by (simp add: D aof_transaction_commit_def commit_loop.simps acquire_chunk_def fresh_chunk_def demo_chunk_def Let_def
        AOF_CHUNK_CAPACITY_def)
  from aof_run.commit [OF r2 this] have r3: "aof_run [] AOF_FSYNC_ALWAYS ?a3 W_LOOP ?h" by (simp add: committed_def)
  let ?a4 = "?a3\<lparr>queue := [demo_chunk], queue_bytes := 53, producer_chunk := None\<rparr>"
  have "queue_producer ?a3 = ?a4"
    using demo_writable(2) by (simp add: D queue_producer_def queue_chunk_locked_def demo_chunk_def AOF_QUEUE_HIGH_WATER_def Let_def)
  from aof_run.queue_producer [OF r3] this have r4: "aof_run [] AOF_FSYNC_ALWAYS ?a4 W_LOOP ?h" by simp
  moreover have "?a4 = demo_queued" by (simp add: demo_queued_def D)
  ultimately show ?thesis by simp
qed

lemma demo_run:
  obtains a pc where "aof_run [] AOF_FSYNC_ALWAYS a pc [(Some 1, demo_record)]" "aof_sequence_ready a 1"
    "log_file a = demo_record" "durable a = 53" "async_error a = None" "producer_chunk a = None" "queue a = []"
proof -
  note D = demo_queued_def demo_start_def aof_open_def
  let ?h = "[(Some (1 :: u64), demo_record)]"
  have "writer_step demo_queued W_LOOP demo_queued (W_WRITE (gather demo_queued))" by (rule writer_step.gather) (simp_all add: D)
  moreover have "gather demo_queued = [demo_record]" by (simp add: gather_def AOF_WRITEV_MAX_def demo_chunk_def D)
  ultimately have r5: "aof_run [] AOF_FSYNC_ALWAYS demo_queued (W_WRITE [demo_record]) ?h" using aof_run.writer [OF demo_committed] by simp
  let ?a5 = "demo_queued\<lparr>log_file := demo_record\<rparr>"
  have "writer_step demo_queued (W_WRITE [demo_record]) (append_file demo_queued (take 53 (concat [demo_record]))) (W_ACCOUNT 53)"
    by (rule writer_step.writev) (simp_all add: demo_writable)
  moreover have "append_file demo_queued (take 53 (concat [demo_record])) = ?a5" using demo_writable(2) by (simp add: append_file_def D)
  ultimately have r6: "aof_run [] AOF_FSYNC_ALWAYS ?a5 (W_ACCOUNT 53) ?h" using aof_run.writer [OF r5] by simp
  let ?a6 = "?a5\<lparr>written_bytes := 53, queue := [], queue_bytes := 0, free_chunks := 1, backpressured := False\<rparr>"
  have "writer_account ?a5 53 = (?a6, 1)"
    using demo_writable(2) by (simp add: D writer_account_def consume_written_def demo_chunk_def AOF_QUEUE_LOW_WATER_def Let_def)
  from writer_step.account [OF this] have r7: "aof_run [] AOF_FSYNC_ALWAYS ?a6 (W_SYNC 1) ?h"
    using aof_run.writer [OF r6] by (simp add: D)
  let ?a7 = "?a6\<lparr>durable := 53, synced_sequence := 1, fsync_count := 1, fsync_total_us := 0, fsync_max_us := 0\<rparr>"
  have "sync_written None (0, 0) None ?a6 1 = (?a7, None)"
    using demo_writable(2) by (simp add: D sync_written_def elapsed_us_def Let_def)
  note r8 = aof_run.writer [OF r7 writer_step.sync [OF this]]
  note r9 = aof_run.writer [OF r8 writer_step.publish]
  show thesis by (rule that [OF r9]) (simp_all add: aof_sequence_ready_def publish_written_def D)
qed

subsection \<open>Properties\<close>



text \<open>
  C4. An acknowledged write is in the file: once the sequence number a commit returned is reported as
  written, the file holds the bytes of that commit at their place after everything committed before,
  and under the policy \<open>always\<close> they were synchronised before the acknowledgement.
\<close>

theorem aof_acknowledged:
  assumes "aof_run contents policy a pc h" "length h < 2 ^ 64" "h = before @ (Some s, b) # after" "aof_sequence_ready a s"
  shows "(\<exists>rest. log_file a = contents @ concat (map snd before) @ b @ rest)
    \<and> (policy = AOF_FSYNC_ALWAYS \<longrightarrow> length (contents @ concat (map snd before) @ b) \<le> durable a)"
proof -
  let ?p = "contents @ concat (map snd before) @ b"
  have le: "length ?p \<le> length (log_file a)" using acknowledged_mark(1) [OF assms] by simp
  have "log_file a @ drop (debt pc) (outgoing a) = ?p @ concat (map snd after)"
    using run_stream(1) [OF assms(1,2)] assms(3) by simp
  from longer_start [OF this le] show ?thesis using acknowledged_mark(2) [OF assms] by auto
qed

theorem aof_acknowledged_witness:
  "\<exists>a pc. aof_run [] AOF_FSYNC_ALWAYS a pc [(Some 1, demo_record)] \<and> aof_sequence_ready a 1
    \<and> (\<exists>rest. log_file a = demo_record @ rest) \<and> length demo_record \<le> durable a"
proof -
  obtain a pc where r: "aof_run [] AOF_FSYNC_ALWAYS a pc [(Some 1, demo_record)]" "aof_sequence_ready a 1" by (rule demo_run)
  from aof_acknowledged [OF r(1) _ _ r(2), of "[]" demo_record "[]"] r show ?thesis by auto
qed





text \<open>
  C26. A commit always returns, but it is not atomic when a chunk cannot be allocated: if the open chunk has
  room for a part of the transaction only and no chunk can be had, the commit fails with that part in
  the log.  What is committed next follows the torn record, and replay rejects the file there.
\<close>

theorem aof_commit_torn:
  assumes "transaction_active a" "producer_chunk a = Some c" "chunk_offset c = 0" "free_chunks a = 0"
    and "length (chunk_data c) < AOF_CHUNK_CAPACITY" "AOF_CHUNK_CAPACITY - length (chunk_data c) < length (transaction a)"
  shows "\<exists>a'. aof_transaction_commit (\<lambda>_. False) a = Some (a', Inl ENOMEM) \<and> transaction a' = []
    \<and> outgoing a' = outgoing a @ take (AOF_CHUNK_CAPACITY - length (chunk_data c)) (transaction a)"
proof -
  let ?room = "AOF_CHUNK_CAPACITY - length (chunk_data c)" and ?n = "next_sequence a + 1"
  let ?x = "take ?room (transaction a)"
  let ?c = "c\<lparr>chunk_data := chunk_data c @ ?x, chunk_sequence := ?n, sequence_end := False\<rparr>"
  let ?b = "(queue_chunk_locked (a\<lparr>next_sequence := ?n\<rparr>) ?c)\<lparr>producer_chunk := None\<rparr>"
  have b: "producer_chunk ?b = None" "transaction ?b = transaction a" "free_chunks ?b = 0" "queue ?b = queue a @ [?c]"
    using assms(4) by (auto simp: queue_chunk_locked_def Let_def)
  have m: "min (length (transaction a)) ?room = ?room" using assms(6) by simp
  have "commit_loop (\<lambda>_. False) 0 (a\<lparr>next_sequence := ?n\<rparr>) 0 ?n = commit_loop (\<lambda>_. False) 1 ?b ?room ?n"
    using assms by (subst commit_loop.simps) (auto simp: Let_def m)
  also have "\<dots> = Some (?b, False)"
    using assms(6) b by (subst commit_loop.simps) (simp add: acquire_chunk_def)
  finally have "aof_transaction_commit (\<lambda>_. False) a = Some (?b\<lparr>transaction := [], transaction_active := False\<rparr>, Inl ENOMEM)"
    using assms(1,6) by (cases "transaction a = []") (simp_all add: aof_transaction_commit_def Let_def)
  moreover have "outgoing (?b\<lparr>transaction := [], transaction_active := False\<rparr>) = outgoing a @ ?x"
    using assms(2,3) b(4) by (simp add: chunks_def)
  ultimately show ?thesis by (intro exI conjI) simp_all
qed

theorem aof_commit_torn_witness:
  "\<exists>a a'. transaction a = [1, 2] \<and> aof_transaction_commit (\<lambda>_. False) a = Some (a', Inl ENOMEM) \<and> outgoing a' = outgoing a @ [1]"
proof -
  let ?c = "fresh_chunk\<lparr>chunk_data := replicate (AOF_CHUNK_CAPACITY - 1) 0\<rparr>"
  let ?a = "demo_start\<lparr>transaction_active := True, transaction := [1, 2], producer_chunk := Some ?c\<rparr>"
  have len: "length (chunk_data ?c) = AOF_CHUNK_CAPACITY - 1" by simp
  have room: "AOF_CHUNK_CAPACITY - length (chunk_data ?c) = 1" unfolding len by (simp add: AOF_CHUNK_CAPACITY_def)
  have "length (chunk_data ?c) < AOF_CHUNK_CAPACITY" unfolding len by (simp add: AOF_CHUNK_CAPACITY_def)
  moreover have "AOF_CHUNK_CAPACITY - length (chunk_data ?c) < length (transaction ?a)" unfolding room by simp
  ultimately have "\<exists>a'. aof_transaction_commit (\<lambda>_. False) ?a = Some (a', Inl ENOMEM) \<and> transaction a' = []
      \<and> outgoing a' = outgoing ?a @ take (AOF_CHUNK_CAPACITY - length (chunk_data ?c)) (transaction ?a)"
    by (intro aof_commit_torn) (simp_all add: fresh_chunk_def demo_start_def aof_open_def)
  moreover have "take 1 (transaction ?a) = [1]" "transaction ?a = [1, 2]" by simp_all
  ultimately show ?thesis unfolding room by metis
qed

end
