(* ===== verification/CacheProps.thy ===== *)
theory CacheProps
  imports CacheOps
begin

text \<open>
  Sequences of cache operations as a step relation, teardown and traversal, and the properties
  of the cache.
\<close>

subsection \<open>Bounds under changes that keep the charges\<close>

lemma bounded_same_charge:
  assumes cat: "catalog_ok c" and k: "content c key = Some d" and d: "core_charge d' = core_charge d"
    and con: "content c' = (content c)(key \<mapsto> d')" and su: "same_setup c c'" and b: "bounded c"
  shows "bounded c'"
proof -
  have dom: "dom (content c') = dom (content c)" using con k by auto
  have "charge_sum c' = charge_sum c"
    unfolding charge_sum_def dom using con k d by (intro sum.cong) auto
  with dom su b show ?thesis by (simp add: bounded_def same_setup_def)
qed

lemma bounded_update:
  assumes cat: "catalog_ok c" and b: "bounded c" and su: "same_setup c c'"
    and con: "content c' \<subseteq>\<^sub>m content c \<or>
      (\<exists>key d d'. content c key = Some d \<and> core_charge d' = core_charge d \<and> content c' = (content c)(key \<mapsto> d'))"
  shows "bounded c'"
  using con bounded_submap [OF cat _ su b] bounded_same_charge [OF cat _ _ _ su b] by blast

lemma map_le_delete: "m(k := None) \<subseteq>\<^sub>m m"
  by (simp add: map_le_def)

subsection \<open>Steps\<close>

definition fresh :: "cache_alloc \<Rightarrow> ('m, 'o, 'x) heap_state_scheme \<Rightarrow> bool" where
  "fresh alloc c \<longleftrightarrow> (\<forall>a. entry_allocated alloc = Some a \<longrightarrow> entries c a = None)"

text \<open>
  One call of an operation.  An allocator returns addresses that are not in use; between calls the
  command layer may change a value in place, which keeps its type.
\<close>

inductive cache_step :: "('m, 'o, 'x) cache_scheme \<Rightarrow> ('m, 'o, 'x) cache_scheme \<Rightarrow> bool" where
  store: "fresh alloc c \<Longrightarrow> cache_store_object alloc clock c key obj expire preserve = Some (c', r) \<Longrightarrow> cache_step c c'"
| set: "fresh alloc c \<Longrightarrow> cache_set ob alloc now clock c key v ttl = Some (c', r) \<Longrightarrow> cache_step c c'"
| read: "cache_get_object_ref reading c key b = (c', a) \<Longrightarrow> cache_step c c'"
| read_hash: "cache_get_hash_object_ref reading c key b = (c', a) \<Longrightarrow> cache_step c c'"
| get: "cache_get reading c key = (c', v') \<Longrightarrow> cache_step c c'"
| delete: "cache_delete reading c key = (c', n) \<Longrightarrow> cache_step c c'"
| expire_at: "cache_expire_at alloc' now c key t = (c', n) \<Longrightarrow> cache_step c c'"
| expire: "cache_expire alloc' now now' c key ttl = (c', n) \<Longrightarrow> cache_step c c'"
| persist: "cache_persist reading c key = (c', n) \<Longrightarrow> cache_step c c'"
| ttl: "cache_ttl_ms now c key = (c', n) \<Longrightarrow> cache_step c c'"
| maintain: "cache_maintain now c budget rehash = (c', m) \<Longrightarrow> cache_step c c'"
| recharge: "cache_recharge_object clock c key = Some (c', r) \<Longrightarrow> cache_step c c'"
| recharge_ref: "entries c a \<noteq> None \<Longrightarrow> cache_recharge_ref reading c (Some a) = Some (c', r) \<Longrightarrow> cache_step c c'"
| mutate: "entries c a = Some e \<Longrightarrow> kv_object_type obj = kv_object_type (object e) \<Longrightarrow>
    cache_step c (modify a (set_object obj) c)"
| callback: "cache_step c (cache_set_eviction_callback c installed)"

inductive cache_reachable :: "nat \<Rightarrow> u64 \<Rightarrow> ('m, 'o) cache \<Rightarrow> bool" for keys memory where
  create: "cache_create True struct buckets keys memory = Some c \<Longrightarrow> cache_reachable keys memory c"
| step: "cache_reachable keys memory c \<Longrightarrow> cache_step c c' \<Longrightarrow> cache_reachable keys memory c'"

text \<open>What every step keeps.\<close>

definition sound :: "('m, 'o, 'x) cache_scheme \<Rightarrow> bool" where
  "sound c \<longleftrightarrow> cache_inv c \<and> (max_memory c = 0 \<or> max_memory c < 2 ^ 63 \<longrightarrow> bounded c)"

definition same_limits :: "('m, 'o, 'x) cache_scheme \<Rightarrow> ('m, 'o, 'x) cache_scheme \<Rightarrow> bool" where
  "same_limits c c' \<longleftrightarrow> max_keys c' = max_keys c \<and> max_memory c' = max_memory c"

lemma sound_keep:
  assumes s: "sound c" and ok: "cache_ok c xs" and ok': "cache_ok c' xs'" and su: "same_setup c c'"
    and con: "content c' \<subseteq>\<^sub>m content c \<or>
      (\<exists>key d d'. content c key = Some d \<and> core_charge d' = core_charge d \<and> content c' = (content c)(key \<mapsto> d'))"
  shows "sound c' \<and> same_limits c c'"
proof -
  have "catalog_ok c" using ok by (simp add: cache_ok_def)
  then have "bounded c \<Longrightarrow> bounded c'" using bounded_update [OF _ _ su con] by blast
  then show ?thesis using s ok' su by (auto simp: sound_def cache_inv_def same_limits_def same_setup_def)
qed

lemma store_sound:
  assumes s: "sound c" and f: "fresh alloc c"
    and st: "cache_store_object alloc clock c key obj expire preserve = Some (c', r)"
  shows "sound c' \<and> same_limits c c'"
proof -
  obtain xs where ok: "cache_ok c xs" using s by (auto simp: sound_def cache_inv_def)
  from f have fr: "\<And>a. entry_allocated alloc = Some a \<Longrightarrow> entries c a = None" by (simp add: fresh_def)
  have "store_outcome clock c xs key obj expire preserve (Some (c', r))"
    using cache_store_object_ok [where alloc = alloc and clock = clock, OF ok fr] st by metis
  then show ?thesis
    unfolding store_outcome_def using s by (auto simp: sound_def cache_inv_def same_limits_def same_setup_def)
qed

lemma read_sound:
  assumes s: "sound c" and ok: "cache_ok c xs" and r: "read_post c xs key t b c' xs' a"
  shows "sound c' \<and> same_limits c c'"
proof -
  have "cache_ok c' xs'" "same_setup c c'" "content c' = purge key t (content c)"
    using r by (simp_all add: read_post_def)
  then show ?thesis using sound_keep [OF s ok] purge_submap [of key t "content c"] by metis
qed

lemma delete_sound:
  assumes s: "sound c" and d: "cache_delete reading c key = (c', n)"
  shows "sound c' \<and> same_limits c c'"
proof -
  obtain xs where ok: "cache_ok c xs" using s by (auto simp: sound_def cache_inv_def)
  from cache_delete_ok [OF ok d] sound_keep [OF s ok] map_le_delete [of "content c" key] show ?thesis by metis
qed

lemma live_some: "live t (content c key) = Some d \<Longrightarrow> content c key = Some d"
  by (simp add: live_not_expired)

lemma expire_update:
  "content c key = Some d \<Longrightarrow> content c' = (content c)(key \<mapsto> d\<lparr>core_expire := t\<rparr>) \<Longrightarrow>
     \<exists>key d d'. content c key = Some d \<and> core_charge d' = core_charge d \<and> content c' = (content c)(key \<mapsto> d')"
  by (intro exI [of _ key] exI [of _ d] exI [of _ "d\<lparr>core_expire := t\<rparr>"]) simp

lemma expire_at_sound:
  assumes s: "sound c" and e: "cache_expire_at alloc' now c key t = (c', n)"
  shows "sound c' \<and> same_limits c c'"
proof (cases "t = 0")
  case True
  with e delete_sound [OF s] show ?thesis by (simp add: cache_expire_at_def)
next
  case False
  obtain xs where ok: "cache_ok c xs" using s by (auto simp: sound_def cache_inv_def)
  obtain xs' where o: "cache_ok c' xs'" "same_setup c c'" "case live now (content c key) of
       None \<Rightarrow> n = 0 \<and> content c' = (content c)(key := None)
     | Some d \<Rightarrow> n = 1 \<and> content c' = (content c)(key \<mapsto> d\<lparr>core_expire := t\<rparr>)
         \<or> n = - 1 \<and> content c' = content c \<and> core_expire d = 0"
    using cache_expire_at_ok [OF ok e False] by blast
  show ?thesis
  proof (rule sound_keep [OF s ok o(1,2)], cases "live now (content c key)")
    case None
    with o(3) show "content c' \<subseteq>\<^sub>m content c \<or> (\<exists>key d d'. content c key = Some d \<and> core_charge d' = core_charge d
        \<and> content c' = (content c)(key \<mapsto> d'))" by (simp add: map_le_delete)
  next
    case (Some d)
    then have k: "content c key = Some d" by (rule live_some)
    with o(3) Some expire_update [of c key d c' t] show "content c' \<subseteq>\<^sub>m content c \<or> (\<exists>key d d'. content c key = Some d \<and> core_charge d' = core_charge d
        \<and> content c' = (content c)(key \<mapsto> d'))" by auto
  qed
qed

lemma persist_sound:
  assumes s: "sound c" and e: "cache_persist reading c key = (c', n)"
  shows "sound c' \<and> same_limits c c'"
proof -
  obtain xs where ok: "cache_ok c xs" using s by (auto simp: sound_def cache_inv_def)
  obtain xs' where o: "cache_ok c' xs'" "same_setup c c'" "case live reading (content c key) of
       None \<Rightarrow> n = 0 \<and> content c' = (content c)(key := None)
     | Some d \<Rightarrow> n = (if core_expire d = 0 then 0 else 1) \<and> content c' = (content c)(key \<mapsto> d\<lparr>core_expire := 0\<rparr>)"
    using cache_persist_ok [OF ok e] by blast
  show ?thesis
  proof (rule sound_keep [OF s ok o(1,2)], cases "live reading (content c key)")
    case None
    with o(3) show "content c' \<subseteq>\<^sub>m content c \<or> (\<exists>key d d'. content c key = Some d \<and> core_charge d' = core_charge d
        \<and> content c' = (content c)(key \<mapsto> d'))" by (simp add: map_le_delete)
  next
    case (Some d)
    then have k: "content c key = Some d" by (rule live_some)
    with o(3) Some expire_update [of c key d c' 0] show "content c' \<subseteq>\<^sub>m content c \<or> (\<exists>key d d'. content c key = Some d \<and> core_charge d' = core_charge d
        \<and> content c' = (content c)(key \<mapsto> d'))" by auto
  qed
qed

lemma recharge_ref_sound:
  assumes s: "sound c" and a: "entries c a \<noteq> None" and r: "cache_recharge_ref reading c (Some a) = Some (c', r)"
  shows "sound c' \<and> same_limits c c'"
proof -
  obtain xs where ok: "cache_ok c xs" using s by (auto simp: sound_def cache_inv_def)
  obtain d where d: "core_view c a = Some d" using a by (auto simp: core_view_def)
  from cache_recharge_ref_ok [OF ok d, of reading] r s show ?thesis
    by (auto simp: sound_def cache_inv_def same_limits_def same_setup_def)
qed

lemma recharge_sound:
  assumes s: "sound c" and r: "cache_recharge_object clock c key = Some (c', r)"
  shows "sound c' \<and> same_limits c c'"
proof -
  obtain xs where ok: "cache_ok c xs" using s by (auto simp: sound_def cache_inv_def)
  obtain c0 q where f: "find_live c key UINT64_MAX (clock 0) = (c0, q)" by fastforce
  obtain xs0 where an: "answered c xs key (clock 0) c0 xs0 q" using find_live_reading [OF ok f] by blast
  note an' = answeredD [OF an]
  have s0: "sound c0" "same_limits c c0" using sound_keep [OF s ok an'(1,2)] an'(6) by auto
  show ?thesis
  proof (cases q)
    case None
    then have "c' = c0" using r f by (simp add: cache_recharge_object_def cache_recharge_ref_def)
    with s0 show ?thesis by simp
  next
    case (Some a)
    have "entries c0 a \<noteq> None" using an'(7) [OF Some] by blast
    moreover have "cache_recharge_ref (clock 1) c0 (Some a) = Some (c', r)"
      using r f Some by (simp add: cache_recharge_object_def)
    ultimately show ?thesis using recharge_ref_sound [OF s0(1)] s0(2) by (auto simp: same_limits_def)
  qed
qed

lemma mutate_sound:
  assumes s: "sound c" and e: "entries c a = Some e" and ty: "kv_object_type obj = kv_object_type (object e)"
  shows "sound (modify a (set_object obj) c) \<and> same_limits c (modify a (set_object obj) c)"
proof -
  obtain xs where ok: "cache_ok c xs" using s by (auto simp: sound_def cache_inv_def)
  have d: "core_view c a = Some (core e)" using e by (simp add: core_view_def)
  have ty': "kv_object_type obj = kv_object_type (core_object (core e))" using ty by simp
  note so = set_object_ok [OF ok d ty' refl]
  have cat: "catalog_ok c" using ok by (simp add: cache_ok_def)
  have "content c (core_key (core e)) = Some (core e)" using content_iff [OF cat] d by blast
  with so(2) have "\<exists>key d d'. content c key = Some d \<and> core_charge d' = core_charge d
      \<and> content (modify a (set_object obj) c) = (content c)(key \<mapsto> d')"
    by (intro exI [of _ "core_key (core e)"] exI [of _ "core e"] exI [of _ "(core e)\<lparr>core_object := obj\<rparr>"]) simp
  with sound_keep [OF s ok so(1)] show ?thesis by (auto simp: same_setup_def)
qed

lemma set_sound:
  assumes s: "sound c" and f: "fresh alloc c" and st: "cache_set ob alloc now clock c key v ttl = Some (c', r)"
  shows "sound c' \<and> same_limits c c'"
  using st store_sound [OF s f] s
  by (auto simp: cache_set_def cache_set_expire_at_def Let_def same_limits_def split: if_splits option.splits)

lemma ttl_sound:
  assumes s: "sound c" and t: "cache_ttl_ms now c key = (c', n)"
  shows "sound c' \<and> same_limits c c'"
proof -
  obtain xs where ok: "cache_ok c xs" using s by (auto simp: sound_def cache_inv_def)
  obtain xs' where "cache_ok c' xs'" "same_setup c c'" "content c' = purge key now (content c)"
    using cache_ttl_ms_ok [OF ok t] by blast
  then show ?thesis using sound_keep [OF s ok] purge_submap [of key now "content c"] by metis
qed

lemma maintain_sound:
  assumes s: "sound c" and m: "cache_maintain now c budget rehash = (c', n)"
  shows "sound c' \<and> same_limits c c'"
proof -
  obtain xs where ok: "cache_ok c xs" using s by (auto simp: sound_def cache_inv_def)
  note p = cache_maintain_ok [OF ok m, unfolded expire_post_def]
  obtain xs' where "cache_ok c' xs'" using p by (auto simp: cache_inv_def)
  then show ?thesis using sound_keep [OF s ok] p by blast
qed

lemma callback_sound:
  assumes s: "sound c"
  shows "sound (cache_set_eviction_callback c installed) \<and> same_limits c (cache_set_eviction_callback c installed)"
proof -
  let ?c = "cache_set_eviction_callback c installed"
  obtain xs where ok: "cache_ok c xs" using s by (auto simp: sound_def cache_inv_def)
  have v: "core_view ?c = core_view c" by (rule core_view_cong) (simp add: cache_set_eviction_callback_def)
  have con: "content ?c = content c"
    by (rule ext) (simp add: content_def v, simp add: cache_set_eviction_callback_def)
  have "cache_ok ?c xs"
  proof (rule cache_ok_cong [OF ok])
    show "gauge_of ?c g = gauge_of c g" for g by (cases g) (simp_all add: cache_set_eviction_callback_def)
  qed (use ok in \<open>auto simp: cache_ok_def catalog_ok_def cache_set_eviction_callback_def\<close>)
  then show ?thesis
    using s con by (auto simp: sound_def cache_inv_def bounded_def charge_sum_def same_limits_def
        cache_set_eviction_callback_def)
qed

lemma get_is_read:
  "cache_get reading c key = (c', v) \<Longrightarrow> \<exists>a. cache_get_object_ref reading c key True = (c', a)
     \<and> v = Option.bind a (\<lambda>a. kv_object_string_value (object (entry c' a)))"
  by (cases "cache_get_object_ref reading c key True")
    (auto simp: cache_get_def cache_get_object_def bind_map_option comp_def)

lemma expire_sound:
  assumes s: "sound c" and e: "cache_expire alloc' now now' c key ttl = (c', n)"
  shows "sound c' \<and> same_limits c c'"
  using e s delete_sound [OF s] expire_at_sound [OF s]
  by (auto simp: cache_expire_def same_limits_def split: if_splits)

lemma cache_step_sound:
  assumes st: "cache_step c c'" and s: "sound c"
  shows "sound c' \<and> same_limits c c'"
proof -
  obtain xs where ok: "cache_ok c xs" using s by (auto simp: sound_def cache_inv_def)
  from st show ?thesis
  proof cases
    case (read reading key b a)
    with cache_get_object_ref_ok [OF ok] read_sound [OF s ok] show ?thesis by blast
  next
    case (read_hash reading key b a)
    with cache_get_hash_object_ref_ok [OF ok] read_sound [OF s ok] show ?thesis by blast
  next
    case (get reading key v')
    from get_is_read [OF this] cache_get_object_ref_ok [OF ok] read_sound [OF s ok] show ?thesis by blast
  next
    case store
    with store_sound [OF s] show ?thesis by blast
  next
    case set
    with set_sound [OF s] show ?thesis by blast
  next
    case delete
    with delete_sound [OF s] show ?thesis by blast
  next
    case expire_at
    with expire_at_sound [OF s] show ?thesis by blast
  next
    case expire
    with expire_sound [OF s] show ?thesis by blast
  next
    case persist
    with persist_sound [OF s] show ?thesis by blast
  next
    case ttl
    with ttl_sound [OF s] show ?thesis by blast
  next
    case maintain
    with maintain_sound [OF s] show ?thesis by blast
  next
    case recharge
    with recharge_sound [OF s] show ?thesis by blast
  next
    case recharge_ref
    with recharge_ref_sound [OF s] show ?thesis by blast
  next
    case mutate
    with mutate_sound [OF s] show ?thesis by simp
  next
    case callback
    with callback_sound [OF s] show ?thesis by simp
  qed
qed

lemma create_sound:
  assumes c: "cache_create True struct buckets keys memory = Some (c :: ('m, 'o) cache)"
  shows "sound c" "max_keys c = keys" "max_memory c = memory" "content c = Map.empty" "cache_ok c []"
proof -
  obtain t :: "nat hashtable" where t: "kv_hash_create struct buckets = Some t"
    using c by (auto simp: cache_create_def split: option.splits)
  note h = kv_hash_create_ok [OF t]
  have f: "entries c = Map.empty" "index c = t" "expire_heap c = []" "lru_head c = None" "lru_tail c = None"
    "hash_hot_entry c = None" "lru_enabled c = (keys \<noteq> 0 \<or> memory \<noteq> 0)" "max_keys c = keys" "max_memory c = memory"
    "gauge_of c g = 0" for g
    using c t by (cases g; auto simp: cache_create_def)+
  have v: "core_view c = Map.empty" by (rule ext) (simp add: core_view_def f)
  have "catalog_ok c" using h by (simp add: catalog_ok_def f v index_matches_def)
  moreover have "heap_matches c"
    by (simp add: heap_matches_def f v heap_ok_def index_ok_def deadlines_def heap_position_def is_heap_def)
  moreover have "recency_ok c []" by (simp add: recency_ok_def f lru_list_def)
  ultimately show ok: "cache_ok c []" by (simp add: cache_ok_def)
  show con: "content c = Map.empty" by (rule ext) (simp add: content_def f h)
  show "max_keys c = keys" "max_memory c = memory" by (rule f)+
  show "sound c" using ok by (auto simp: sound_def cache_inv_def bounded_def charge_sum_def con)
qed

lemma reachable_sound:
  "cache_reachable keys memory c \<Longrightarrow> sound c \<and> max_keys c = keys \<and> max_memory c = memory"
proof (induction rule: cache_reachable.induct)
  case (create struct buckets c)
  with create_sound [OF create] show ?case by blast
next
  case (step c c')
  with cache_step_sound [OF step.hyps(2)] show ?case by (simp add: same_limits_def)
qed

subsection \<open>Teardown and traversal\<close>

lemma destroy_loop_ok:
  "cache_ok c xs \<Longrightarrow> lru_enabled c \<Longrightarrow> \<exists>c'. destroy_loop c = Some c' \<and> cache_ok c' [] \<and> lru_enabled c'"
proof (induction "length xs" arbitrary: c xs rule: less_induct)
  case less
  have l: "lru_list c xs" and st: "set xs = dom (entries c)" using less.prems by (auto simp: cache_ok_def recency_ok_def)
  show ?case
  proof (cases xs rule: rev_cases)
    case Nil
    then have "lru_tail c = None" using l by (simp add: lru_list_def)
    with less.prems Nil show ?thesis by (subst destroy_loop.simps) simp
  next
    case (snoc ys a)
    then have t: "lru_tail c = Some a" using l by (simp add: lru_list_def)
    have "a \<in> dom (entries c)" using snoc st by auto
    then obtain d where d: "core_view c a = Some d" by (auto simp: core_view_def)
    note rm = entry_remove_ok [OF less.prems(1) d refl, of REMOVE_NORMAL]
    have "length (remove1 a xs) < length xs" using snoc by (simp add: length_remove1)
    moreover have "lru_enabled (entry_remove c a REMOVE_NORMAL)" using rm(1) less.prems(2) by (simp add: removed_def)
    ultimately obtain c' where "destroy_loop (entry_remove c a REMOVE_NORMAL) = Some c' \<and> cache_ok c' [] \<and> lru_enabled c'"
      using less.hyps rm(2) by blast
    with t show ?thesis by (subst destroy_loop.simps) simp
  qed
qed

lemma free_all_entries:
  "entries (foldl (\<lambda>c node. free_entry (payload node) c) c ns) = (\<lambda>a. if a \<in> payload ` set ns then None else entries c a)"
  by (induction ns arbitrary: c) (auto simp: fun_eq_iff)

lemma index_payloads:
  assumes "catalog_ok c"
  shows "payload ` set (nodes (index c)) = dom (entries c)"
proof -
  have h: "hash_inv (index c)" and m: "index_matches (core_view c) (hash_map (index c))"
    using assms by (auto simp: catalog_ok_def)
  have "distinct (map node_key (nodes (index c)))" using h by (simp add: hash_inv_def)
  then have "ran (hash_map (index c)) = payload ` set (nodes (index c))"
    by (auto simp: ran_def hash_map_eq_Some_iff)
  with index_matches_dom [OF m] show ?thesis by simp
qed

lemma foldl_free_index [simp]:
  "index (foldl (\<lambda>c node. free_entry (payload node) c) c ns) = index c"
  by (induction ns arbitrary: c) auto

lemma content_dom_index:
  assumes "catalog_ok c"
  shows "dom (content c) = dom (hash_map (index c))"
proof -
  have m: "index_matches (core_view c) (hash_map (index c))" using assms by (simp add: catalog_ok_def)
  show ?thesis using index_matchesD [OF m] by (fastforce simp: content_def dom_def bind_eq_Some_conv)
qed

subsection \<open>A small instance\<close>

definition demo_object :: "(nat, nat) kv_object" where
  "demo_object = \<lparr>object_value = KV_OBJECT_STRING [118] 1, memory_usage = 42\<rparr>"

definition demo_alloc :: cache_alloc where
  "demo_alloc = \<lparr>entry_allocated = Some 7, heap_allocated = True,
     index_allocated = \<lparr>buckets_allocated = True, node_allocated = True\<rparr>\<rparr>"

lemma demo_create: "\<exists>c. cache_create True True True 2 1000 = Some (c :: (nat, nat) cache)"
  using kv_hash_create_some [where 'p = nat] by (auto simp: cache_create_def)

lemma demo_charge: "entry_memory_charge (Suc 0) demo_object \<noteq> UINT64_MAX" "entry_memory_charge (Suc 0) demo_object \<le> 1000"
  by (simp_all add: entry_memory_charge_def demo_object_def kv_hash_node_memory_for_key_def kv_object_memory_usage_def
      sizeof_kv_hash_node_def sizeof_cache_entry_def UINT64_MAX_def SIZE_MAX_def Let_def)

lemma demo_store:
  assumes c: "cache_create True True True 2 1000 = Some (c :: (nat, nat) cache)"
  shows "\<exists>c'. cache_store_object demo_alloc (\<lambda>_. 5) c [107] demo_object 0 False = Some (c', CACHE_SET_OK)"
proof -
  obtain t :: "nat hashtable" where t: "kv_hash_create True True = Some t"
    using c by (auto simp: cache_create_def split: option.splits)
  note h = kv_hash_create_ok [OF t]
  note cs = create_sound [OF c]
  have i: "index c = t" and lim: "max_memory c = 1000" and e: "entries c = Map.empty"
    using c t by (auto simp: cache_create_def)
  have "rehash_index t = None"
    using t by (auto simp: kv_hash_create_def hash_init_def split: option.splits if_splits)
  moreover have "kv_hash_find t [107] = None" using kv_hash_find_map [of t "[107]"] h by simp
  ultimately have f: "find_live c [107] UINT64_MAX 5 = (c, None)"
    using i by (simp add: find_live_def Let_def kv_hash_rehash_step_def)
  have "slots (table0 t) * 2 \<le> SIZE_MAX div sizeof_pointer"
    using t by (auto simp: kv_hash_create_def hash_init_def table_allocate_def HASH_INITIAL_SLOTS_def SIZE_MAX_def
        sizeof_pointer_def split: option.splits if_splits)
  then obtain node where "snd (kv_hash_insert (index_allocated demo_alloc) t [107] 7) = Some node"
    using kv_hash_insert_succeeds [of t "[107]" "index_allocated demo_alloc" 7] h
    by (auto simp: demo_alloc_def SIZE_MAX_def sizeof_kv_hash_node_def)
  then obtain h' where ins: "kv_hash_insert (index_allocated demo_alloc) (index c) [107] 7 = (h', Some node)"
    using i by (metis prod.collapse)
  have k: "content c [107] = None" using cs(4) by simp
  have a: "entry_allocated demo_alloc = Some 7" by (simp add: demo_alloc_def)
  let ?ch = "entry_memory_charge (Suc 0) demo_object"
  have "\<exists>c'. store_new demo_alloc (\<lambda>_. 5) c [107] demo_object (object_item_count demo_object) ?ch 0 UINT64_MAX
      = Some (c', CACHE_SET_OK)"
    using store_new_inserted [where alloc = demo_alloc and t = 0 and charge = ?ch and clock = "\<lambda>_. 5"
        and obj = demo_object and items = "object_item_count demo_object" and now = UINT64_MAX, OF cs(5) k _ _ _ a ins] e lim demo_charge
    by auto
  then show ?thesis
    using f lim demo_charge by (simp add: cache_store_object_def Let_def not_less)
qed

lemma store_content:
  assumes ok: "cache_ok c xs" and f: "fresh alloc c"
    and st: "cache_store_object alloc clock c key obj expire preserve = Some (c', CACHE_SET_OK)"
  obtains d xs' vs where "cache_ok c' xs'" "content c' = (content c |` (- victim_keys c vs))(key \<mapsto> d)"
    "same_value (core_object d) obj"
    "core_expire d = store_deadline c key (clock_time (store_now clock expire) (clock 1)) expire preserve"
proof -
  have fr: "\<And>a. entry_allocated alloc = Some a \<Longrightarrow> entries c a = None" using f by (simp add: fresh_def)
  have "store_outcome clock c xs key obj expire preserve (Some (c', CACHE_SET_OK))"
    using cache_store_object_ok [where alloc = alloc and clock = clock, OF ok fr] st by metis
  then obtain xs' vs where ok': "cache_ok c' xs'" and s: "stored c key obj (entry_memory_charge (length key) obj)
      (store_deadline c key (clock_time (store_now clock expire) (clock 1)) expire preserve)
      (clock_time (store_now clock expire) (clock 2)) vs c'"
    unfolding store_outcome_def store_post_def Let_def by force
  then show thesis using that [OF ok'] unfolding stored_def by blast
qed

lemma store_stored:
  assumes ok: "cache_ok c xs" and f: "fresh alloc c"
    and st: "cache_store_object alloc clock c key obj expire preserve = Some (c', CACHE_SET_OK)"
  obtains d xs' where "cache_ok c' xs'" "content c' key = Some d" "same_value (core_object d) obj"
    "core_expire d = store_deadline c key (clock_time (store_now clock expire) (clock 1)) expire preserve"
  by (rule store_content [OF assms]) simp

lemma demo_state:
  obtains c c' :: "(nat, nat) cache" where "cache_create True True True 2 1000 = Some c" "cache_ok c []" "fresh demo_alloc c"
    "cache_store_object demo_alloc (\<lambda>_. 5) c [107] demo_object 0 False = Some (c', CACHE_SET_OK)"
    "cache_reachable 2 1000 c'" "sound c'"
proof -
  obtain c :: "(nat, nat) cache" where c: "cache_create True True True 2 1000 = Some c" using demo_create by blast
  obtain c' where s: "cache_store_object demo_alloc (\<lambda>_. 5) c [107] demo_object 0 False = Some (c', CACHE_SET_OK)"
    using demo_store [OF c] by blast
  have "entries c = Map.empty" using c by (auto simp: cache_create_def split: option.splits)
  then have f: "fresh demo_alloc c" by (simp add: fresh_def)
  have "cache_reachable 2 1000 c" using c by (rule cache_reachable.create)
  from cache_reachable.step [OF this cache_step.store [OF f s]] have r: "cache_reachable 2 1000 c'" .
  show thesis using that [OF c create_sound(5) [OF c] f s r] reachable_sound [OF r] by blast
qed

subsection \<open>Properties\<close>

text \<open>
  C1. After any sequence of calls on a fresh cache with a memory limit below \<open>2 ^ 63\<close>, the invariant
  holds: index, entries, expiration heap (within its array), recency list, statistics and the
  remembered hash entry agree; the number of keys is at most \<open>max_keys\<close>, the exact sum of the charges
  is at most \<open>max_memory\<close>, and \<open>used_memory\<close> equals that sum.
\<close>

theorem cache_invariant:
  assumes "cache_reachable keys memory c" "memory < 2 ^ 63"
  shows "cache_inv c \<and> (keys \<noteq> 0 \<longrightarrow> kv_hash_count (index c) \<le> keys)
    \<and> (memory \<noteq> 0 \<longrightarrow> charge_sum c \<le> unat memory \<and> unat (used_memory c) = charge_sum c)"
proof -
  have s: "sound c" "max_keys c = keys" "max_memory c = memory" using reachable_sound [OF assms(1)] by auto
  then have b: "bounded c" and i: "cache_inv c" using assms(2) by (auto simp: sound_def)
  have cat: "catalog_ok c" using i by (auto simp: cache_inv_def cache_ok_def)
  have "charge_sum c < 2 ^ 64" if "charge_sum c \<le> unat memory" using that u64_less [of memory] by linarith
  then show ?thesis
    using i b s(2,3) content_card [OF cat] used_memory_exact [OF cat] by (auto simp: bounded_def)
qed

theorem cache_invariant_witness:
  "\<exists>c :: (nat, nat) cache. cache_reachable 2 1000 c \<and> (1000 :: u64) < 2 ^ 63 \<and> kv_hash_count (index c) \<le> 2
    \<and> charge_sum c \<le> 1000 \<and> content c [107] \<noteq> None"
proof -
  obtain c c' :: "(nat, nat) cache" where d: "cache_ok c []" "fresh demo_alloc c"
    "cache_store_object demo_alloc (\<lambda>_. 5) c [107] demo_object 0 False = Some (c', CACHE_SET_OK)"
    "cache_reachable 2 1000 c'" using demo_state by blast
  have "content c' [107] \<noteq> None"
    using store_stored [OF d(1-3)] by (metis option.distinct(1))
  with cache_invariant [OF d(4)] d(4) show ?thesis by (intro exI [of _ c']) simp
qed

text \<open>
  C2. A store always returns, whatever the allocator and the clock answer.  It answers "capacity"
  exactly when the charge of the entry alone is over the limit, and then changes nothing; it answers
  "error" only when an allocation is refused or an array is near the largest size.  When it answers
  OK, the key maps to the value and the deadline, exactly the victims are gone, the victims are the
  least recently used other keys, no more of them than needed, and the callback was told every victim
  that had not expired, in order.  Enough keys are evicted: a cache that held both its limits, with a
  memory limit below \<open>2 ^ 63\<close>, holds them again after the store.
\<close>

theorem cache_store_correct:
  assumes "cache_ok c xs" "fresh alloc c"
  shows "\<exists>c' r xs'. cache_store_object alloc clock c key obj expire preserve = Some (c', r) \<and> cache_ok c' xs'
    \<and> store_post clock c xs key obj expire preserve c' xs' r
    \<and> (bounded c \<and> (max_memory c = 0 \<or> max_memory c < 2 ^ 63) \<longrightarrow>
        (max_keys c \<noteq> 0 \<longrightarrow> card (dom (content c')) \<le> max_keys c) \<and> (max_memory c \<noteq> 0 \<longrightarrow> charge_sum c' \<le> unat (max_memory c)))
    \<and> (ample alloc c key \<longrightarrow> r \<noteq> CACHE_SET_ERROR)"
proof -
  have fr: "\<And>a. entry_allocated alloc = Some a \<Longrightarrow> entries c a = None" using assms(2) by (simp add: fresh_def)
  have "store_outcome clock c xs key obj expire preserve (cache_store_object alloc clock c key obj expire preserve)"
    by (rule cache_store_object_ok [OF assms(1) fr])
  then obtain c' r xs' where s: "cache_store_object alloc clock c key obj expire preserve = Some (c', r)" "cache_ok c' xs'"
    "store_post clock c xs key obj expire preserve c' xs' r" "same_setup c c'"
    "bounded c \<and> (max_memory c = 0 \<or> max_memory c < 2 ^ 63) \<longrightarrow> bounded c'" unfolding store_outcome_def by blast
  have "max_keys c' = max_keys c" "max_memory c' = max_memory c" using s(4) by (simp_all add: same_setup_def)
  with s(5) have "bounded c \<and> (max_memory c = 0 \<or> max_memory c < 2 ^ 63) \<longrightarrow>
      (max_keys c \<noteq> 0 \<longrightarrow> card (dom (content c')) \<le> max_keys c) \<and> (max_memory c \<noteq> 0 \<longrightarrow> charge_sum c' \<le> unat (max_memory c))"
    unfolding bounded_def [of c'] by metis
  moreover have "ample alloc c key \<longrightarrow> r \<noteq> CACHE_SET_ERROR" using store_ample [OF assms(1) fr _ s(1)] by blast
  ultimately show ?thesis using s(1-3) by blast
qed

theorem cache_store_correct_witness:
  "\<exists>c c' xs'. cache_create True True True 2 1000 = Some (c :: (nat, nat) cache) \<and> bounded c
    \<and> cache_store_object demo_alloc (\<lambda>_. 5) c [107] demo_object 0 False = Some (c', CACHE_SET_OK)
    \<and> store_post (\<lambda>_. 5) c [] [107] demo_object 0 False c' xs' CACHE_SET_OK
    \<and> card (dom (content c')) \<le> 2 \<and> charge_sum c' \<le> 1000"
proof -
  obtain c c' :: "(nat, nat) cache" where d: "cache_create True True True 2 1000 = Some c" "cache_ok c []" "fresh demo_alloc c"
    "cache_store_object demo_alloc (\<lambda>_. 5) c [107] demo_object 0 False = Some (c', CACHE_SET_OK)" using demo_state by blast
  note cr = create_sound [OF d(1)]
  have b: "bounded c" using cr(2-4) by (simp add: bounded_def charge_sum_def)
  from cache_store_correct [OF d(2,3), of "\<lambda>_. 5" "[107]" demo_object 0 False] d(4) b cr(2,3)
  obtain xs' where "store_post (\<lambda>_. 5) c [] [107] demo_object 0 False c' xs' CACHE_SET_OK"
    "card (dom (content c')) \<le> 2" "charge_sum c' \<le> 1000" by auto
  with d(1,4) b show ?thesis by blast
qed

text \<open>
  C5. A value that was set is read back: after \<open>cache_set\<close> answered OK, \<open>cache_get\<close> of the key at any
  time before the deadline (at any time without one) returns the value.
\<close>

theorem cache_set_get:
  assumes "cache_ok c xs" "fresh alloc c" "cache_set ob alloc now clock c key v ttl = Some (c', CACHE_SET_OK)"
    and "ttl = 0 \<or> reading < now + ttl"
  shows "snd (cache_get reading c' key) = Some v"
proof -
  let ?e = "if ttl = 0 then 0 else now + ttl"
  obtain obj where o: "kv_object_create_string ob v = Some obj"
    and st: "cache_store_object alloc clock c key obj ?e False = Some (c', CACHE_SET_OK)"
    using assms(3) by (auto simp: cache_set_def cache_set_expire_at_def Let_def split: if_splits option.splits)
  have v: "object_value obj = KV_OBJECT_STRING v (length v)"
    using o by (auto simp: kv_object_create_string_def split: if_splits)
  obtain d xs' where ok': "cache_ok c' xs'" and d: "content c' key = Some d" "same_value (core_object d) obj"
    "core_expire d = store_deadline c key (clock_time (store_now clock ?e) (clock 1)) ?e False"
    using store_stored [OF assms(1,2) st] by blast
  have e: "core_expire d = ?e" using d(3) unfolding store_deadline_def by (auto split: option.splits)
  have l: "live reading (content c' key) = Some d"
    using d(1) e assms(4) by (auto simp: live_def expired_at_def)
  obtain c2 a where g: "cache_get_object_ref reading c' key True = (c2, a)" by fastforce
  then have rp: "Option.bind a (core_view c2) = Some d" using cache_get_object_ref_ok [OF ok' g] l by (auto simp: read_post_def)
  then obtain b where b: "a = Some b" "core_view c2 b = Some d" by (auto simp: bind_eq_Some_conv)
  have "kv_object_string_value (core_object d) = Some v"
    using d(2) v by (auto simp: same_value_def kv_object_string_value_def)
  then show ?thesis
    using g b core_entry_fields(2) [OF b(2)] by (simp add: cache_get_def cache_get_object_def)
qed

theorem cache_set_get_witness:
  "\<exists>c c'. cache_create True True True 2 1000 = Some (c :: (nat, nat) cache)
    \<and> cache_set True demo_alloc 0 (\<lambda>_. 5) c [107] [118] 0 = Some (c', CACHE_SET_OK)
    \<and> snd (cache_get 9 c' [107]) = Some [118]"
proof -
  obtain c c' :: "(nat, nat) cache" where d: "cache_create True True True 2 1000 = Some c" "cache_ok c []" "fresh demo_alloc c"
    "cache_store_object demo_alloc (\<lambda>_. 5) c [107] demo_object 0 False = Some (c', CACHE_SET_OK)" using demo_state by blast
  have s: "cache_set True demo_alloc 0 (\<lambda>_. 5) c [107] [118] 0 = Some (c', CACHE_SET_OK)"
    using d(4) by (simp add: cache_set_def cache_set_expire_at_def kv_object_create_string_def demo_object_def
        SIZE_MAX_def sizeof_kv_object_def)
  from cache_set_get [OF d(2,3) s, of 9] d(1) s show ?thesis by auto
qed

text \<open>
  C6. \<open>cache_get\<close> answers from the contents at the time it reads: a key without an entry, an entry whose
  deadline has passed (which is dropped on the way) and a value that is no string give no value;
  anything else gives the string.  Exactly the hit or the miss is counted and no other key changes.
\<close>

theorem cache_get_exact:
  assumes "cache_ok c xs" "cache_get reading c key = (c', v)"
  shows "v = Option.bind (live reading (content c key)) (\<lambda>d. kv_object_string_value (core_object d))
    \<and> content c' = purge key reading (content c)
    \<and> hits c' = hits c + (if live reading (content c key) \<noteq> None then 1 else 0)
    \<and> misses c' = misses c + (if live reading (content c key) = None then 1 else 0)"
proof -
  obtain a where a: "cache_get_object_ref reading c key True = (c', a)"
    "v = Option.bind a (\<lambda>a. kv_object_string_value (object (entry c' a)))" using get_is_read [OF assms(2)] by blast
  obtain xs' where r: "read_post c xs key reading True c' xs' a" using cache_get_object_ref_ok [OF assms(1) a(1)] by blast
  have "Option.bind a (\<lambda>a. kv_object_string_value (object (entry c' a))) =
      Option.bind (Option.bind a (core_view c')) (\<lambda>d. kv_object_string_value (core_object d))"
  proof (cases a)
    case (Some b)
    with r obtain d where "core_view c' b = Some d" by (auto simp: read_post_def)
    with Some core_entry_fields(2) [of c' b d] show ?thesis by simp
  qed simp
  with r a(2) show ?thesis by (auto simp: read_post_def)
qed

theorem cache_get_exact_witness:
  "\<exists>c c' v. cache_ok (c :: (nat, nat) cache) [] \<and> cache_get 3 c [107] = (c', v) \<and> v = None \<and> misses c' = misses c + 1"
proof -
  obtain c :: "(nat, nat) cache" where c: "cache_create True True True 2 1000 = Some c" using demo_create by blast
  obtain c' v where g: "cache_get 3 c [107] = (c', v)" by fastforce
  from cache_get_exact [OF create_sound(5) [OF c] g] create_sound(4,5) [OF c] g show ?thesis by (auto simp: live_def)
qed

text \<open>
  C8. The shortcut through the remembered hash entry is equivalent to the ordinary lookup: the same
  answer, the same contents, the same counters, and the same recency order when the key is found.
\<close>

theorem cache_hash_lookup_agrees:
  assumes "cache_ok c xs" "cache_get_hash_object_ref reading c key b = (c1, r1)"
    and "cache_get_object_ref reading c key b = (c2, r2)"
  shows "Option.bind r1 (core_view c1) = Option.bind r2 (core_view c2) \<and> (r1 = None \<longleftrightarrow> r2 = None)
    \<and> content c1 = content c2 \<and> hits c1 = hits c2 \<and> misses c1 = misses c2
    \<and> (\<exists>xs1 xs2. cache_ok c1 xs1 \<and> cache_ok c2 xs2
         \<and> (lru_enabled c \<longrightarrow> r1 \<noteq> None \<longrightarrow> order_of c1 xs1 = order_of c2 xs2))"
proof -
  obtain xs1 where 1: "read_post c xs key reading b c1 xs1 r1" using cache_get_hash_object_ref_ok [OF assms(1,2)] by blast
  obtain xs2 where 2: "read_post c xs key reading b c2 xs2 r2" using cache_get_object_ref_ok [OF assms(1,3)] by blast
  have n: "r1 = None \<longleftrightarrow> r2 = None" using 1 2 by (simp add: read_post_def)
  have "order_of c1 xs1 = order_of c2 xs2" if "lru_enabled c" "r1 \<noteq> None"
    using 1 2 n that unfolding read_post_def by metis
  moreover have "hits c1 = hits c2" "misses c1 = misses c2"
    using 1 2 n unfolding read_post_def by (auto split: if_splits)
  moreover have "cache_ok c1 xs1" "cache_ok c2 xs2" "content c1 = content c2"
    "Option.bind r1 (core_view c1) = Option.bind r2 (core_view c2)"
    using 1 2 by (simp_all add: read_post_def)
  ultimately show ?thesis using n by blast
qed

theorem cache_hash_lookup_agrees_witness:
  "\<exists>c c1 c2 r1 r2. cache_ok (c :: (nat, nat) cache) [] \<and> cache_get_hash_object_ref 3 c [107] True = (c1, r1)
    \<and> cache_get_object_ref 3 c [107] True = (c2, r2) \<and> content c1 = content c2 \<and> (r1 = None \<longleftrightarrow> r2 = None)"
proof -
  obtain c :: "(nat, nat) cache" where c: "cache_create True True True 2 1000 = Some c" using demo_create by blast
  obtain c1 r1 where g: "cache_get_hash_object_ref 3 c [107] True = (c1, r1)" by fastforce
  obtain c2 r2 where h: "cache_get_object_ref 3 c [107] True = (c2, r2)" by fastforce
  from cache_hash_lookup_agrees [OF create_sound(5) [OF c] g h] create_sound(5) [OF c] g h show ?thesis by blast
qed

text \<open>
  C30. \<open>cache_delete\<close> removes the key and nothing else, evicts nothing, and answers 1 exactly when the
  key was there and had not expired.
\<close>

theorem cache_delete_exact:
  assumes "cache_ok c xs" "cache_delete reading c key = (c', n)"
  shows "content c' = (content c)(key := None) \<and> n = (if live reading (content c key) = None then 0 else 1)
    \<and> evict_log c' = evict_log c \<and> cache_inv c'"
  using cache_delete_ok [OF assms] by (auto simp: cache_inv_def)

theorem cache_delete_exact_witness:
  "\<exists>c c' n. cache_reachable 2 1000 (c :: (nat, nat) cache) \<and> content c [107] \<noteq> None \<and> cache_delete 9 c [107] = (c', n)
    \<and> content c' [107] = None"
proof -
  obtain c c' :: "(nat, nat) cache" where d: "cache_ok c []" "fresh demo_alloc c"
    "cache_store_object demo_alloc (\<lambda>_. 5) c [107] demo_object 0 False = Some (c', CACHE_SET_OK)"
    "cache_reachable 2 1000 c'" using demo_state by blast
  obtain xs' e where "cache_ok c' xs'" "content c' [107] = Some e" using store_stored [OF d(1-3)] by metis
  moreover obtain c2 n where "cache_delete 9 c' [107] = (c2, n)" by fastforce
  ultimately show ?thesis using cache_delete_exact [of c' xs' 9 "[107]" c2 n] d(4) by auto
qed

text \<open>
  C31. A deadline that was set is reported: after \<open>cache_expire_at\<close> answered 1 with a deadline \<open>t\<close>, the
  remaining time at any later moment before \<open>t\<close> is exactly \<open>t\<close> minus that moment (at most
  \<open>INT64_MAX\<close>), and from \<open>t\<close> on the key is reported as absent.
\<close>

theorem cache_expire_ttl:
  assumes "cache_ok c xs" "cache_expire_at alloc' now c key t = (c', 1)" "t \<noteq> 0"
  shows "snd (cache_ttl_ms now' c' key) =
    (if now' < t then min (uint t - uint now') (2 ^ 63 - 1) else - 2)"
proof -
  obtain xs' where ok': "cache_ok c' xs'" and o: "case live now (content c key) of
       None \<Rightarrow> 1 = (0 :: int) \<and> content c' = (content c)(key := None)
     | Some d \<Rightarrow> (1 :: int) = 1 \<and> content c' = (content c)(key \<mapsto> d\<lparr>core_expire := t\<rparr>)
         \<or> 1 = (- 1 :: int) \<and> content c' = content c \<and> core_expire d = 0"
    using cache_expire_at_ok [OF assms] by blast
  then obtain d where d: "content c' = (content c)(key \<mapsto> d\<lparr>core_expire := t\<rparr>)" by (auto split: option.splits)
  obtain c2 n where g: "cache_ttl_ms now' c' key = (c2, n)" by fastforce
  have l: "live now' (content c' key) = (if now' < t then Some (d\<lparr>core_expire := t\<rparr>) else None)"
    using d assms(3) by (auto simp: live_def expired_at_def not_less)
  from cache_ttl_ms_ok [OF ok' g] have "n = (if now' < t then min (uint t - uint now') (2 ^ 63 - 1) else - 2)"
    using l assms(3) by (auto split: if_splits)
  with g show ?thesis by simp
qed

theorem cache_expire_ttl_witness:
  "\<exists>c c'. cache_reachable 2 1000 (c :: (nat, nat) cache) \<and> cache_expire_at True 10 c [107] 50 = (c', 1)
    \<and> snd (cache_ttl_ms 20 c' [107]) = 30 \<and> snd (cache_ttl_ms 50 c' [107]) = - 2"
proof -
  obtain c c' :: "(nat, nat) cache" where d: "cache_ok c []" "fresh demo_alloc c"
    "cache_store_object demo_alloc (\<lambda>_. 5) c [107] demo_object 0 False = Some (c', CACHE_SET_OK)"
    "cache_reachable 2 1000 c'" "cache_create True True True 2 1000 = Some c" using demo_state by blast
  have em: "content c = Map.empty" using create_sound(4) [OF d(5)] by simp
  obtain xs' e vs where ok: "cache_ok c' xs'" and e: "content c' = (content c |` (- victim_keys c vs))([107] \<mapsto> e)"
    and x: "core_expire e = store_deadline c [107] (clock_time (store_now (\<lambda>_. 5) 0) 5) 0 False"
    using store_content [OF d(1-3)] by metis
  have x0: "core_expire e = 0" using x unfolding store_deadline_def by (auto split: option.splits)
  obtain c2 n where g: "cache_expire_at True 10 c' [107] 50 = (c2, n)" by fastforce
  have l: "live 10 (content c' [107]) = Some e" using e x0 by (simp add: live_def expired_at_def)
  obtain c0 r where f: "find_live c' [107] 10 10 = (c0, r)" by fastforce
  obtain xs0 where an: "answered c' xs' [107] 10 c0 xs0 r" using find_live_now [OF ok f] by blast
  note an' = answeredD [OF an]
  have con: "content c0 = [[107] \<mapsto> e]" using an'(3) l e em by (auto simp: purge_def)
  have "set (expire_heap c0) = {}"
  proof -
    have m: "heap_matches c0" and cat: "catalog_ok c0" using an'(1) by (simp_all add: cache_ok_def)
    have "core_expire z = 0" if "core_view c0 a = Some z" for a z
      using content_iff [OF cat, of "core_key z" z] that con x0 by (auto split: if_splits)
    then show ?thesis using m by (auto simp: heap_matches_def)
  qed
  then have "heap_reserve True c0 (heap_count c0 + 1) \<noteq> None"
    by (simp add: heap_reserve_def heap_grow.simps CACHE_HEAP_INITIAL_CAPACITY_def SIZE_MAX_def sizeof_pointer_def)
  moreover have "r \<noteq> None" using an'(5) l by auto
  ultimately have "n = 1" using g f by (auto simp: cache_expire_at_def split: if_splits option.splits)
  note g = g [unfolded this]
  from cache_expire_ttl [OF ok g, of 20] cache_expire_ttl [OF ok g, of 50] d(4) g show ?thesis by auto
qed

text \<open>
  C32. Maintenance removes expired keys and no others, those with the earliest deadlines first, at most
  as many as its budget allows, and answers how many it removed; when the budget was not used up, no
  expired key is left.  Moving hash slots meanwhile changes no content.
\<close>

theorem cache_maintain_correct:
  assumes "cache_ok c xs" "cache_maintain now c budget rehash_budget = (c', m)"
  shows "content c' \<subseteq>\<^sub>m content c \<and> m + card (dom (content c')) = card (dom (content c)) \<and> m \<le> budget
    \<and> (\<forall>k d. content c k = Some d \<longrightarrow> content c' k = None \<longrightarrow> expired_at now d
         \<and> (\<forall>k' d'. content c' k' = Some d' \<longrightarrow> core_expire d' \<noteq> 0 \<longrightarrow> core_expire d \<le> core_expire d'))
    \<and> (m < budget \<longrightarrow> (\<forall>k d. content c' k = Some d \<longrightarrow> \<not> expired_at now d))"
  using cache_maintain_ok [OF assms] by (simp add: expire_post_def)

theorem cache_maintain_correct_witness:
  "\<exists>c c' m. cache_reachable 2 1000 (c :: (nat, nat) cache) \<and> content c [107] \<noteq> None
    \<and> cache_maintain 9 c 4 8 = (c', m) \<and> m + card (dom (content c')) = card (dom (content c)) \<and> m \<le> 4"
proof -
  obtain c c' :: "(nat, nat) cache" where d: "cache_ok c []" "fresh demo_alloc c"
    "cache_store_object demo_alloc (\<lambda>_. 5) c [107] demo_object 0 False = Some (c', CACHE_SET_OK)"
    "cache_reachable 2 1000 c'" using demo_state by blast
  obtain xs' e where s: "cache_ok c' xs'" "content c' [107] = Some e" using store_stored [OF d(1-3)] by metis
  obtain c2 m where g: "cache_maintain 9 c' 4 8 = (c2, m)" by fastforce
  from cache_maintain_correct [OF s(1) g] have "m + card (dom (content c2)) = card (dom (content c'))" "m \<le> 4" by simp_all
  with g s(2) d(4) show ?thesis by blast
qed

text \<open>
  C7. Every expired key is eventually removed: a round of maintenance whose budget is at least the
  number of keys leaves exactly the keys that have not expired.
\<close>

theorem cache_maintain_complete:
  assumes ok: "cache_ok c xs" and g: "cache_maintain now c budget rehash_budget = (c', m)"
    and b: "kv_hash_count (index c) \<le> budget"
  shows "content c' = (\<lambda>k. live now (content c k))"
proof
  fix k
  note p = cache_maintain_ok [OF ok g, unfolded expire_post_def]
  have fin: "finite (dom (content c'))" using p content_finite by (auto simp: cache_inv_def cache_ok_def)
  have "card (dom (content c)) \<le> budget" using content_card [of c] ok b by (simp add: cache_ok_def)
  then have "m < budget \<or> card (dom (content c')) = 0" using p by linarith
  then have "m < budget \<or> content c' = Map.empty" using fin by (simp del: card.infinite)
  then have left: "content c' k = Some d \<Longrightarrow> \<not> expired_at now d" for d using p by auto
  have sub: "content c' k = None \<or> content c' k = content c k" using p by (metis domIff map_le_def)
  show "content c' k = live now (content c k)"
    using left sub p by (cases "content c k") (auto simp: live_def)
qed

theorem cache_maintain_complete_witness:
  "\<exists>c c' m. cache_reachable 2 1000 (c :: (nat, nat) cache) \<and> content c [107] \<noteq> None
    \<and> cache_maintain 9 c 4 8 = (c', m) \<and> content c' = (\<lambda>k. live 9 (content c k))"
proof -
  obtain c c' :: "(nat, nat) cache" where d: "cache_ok c []" "fresh demo_alloc c"
    "cache_store_object demo_alloc (\<lambda>_. 5) c [107] demo_object 0 False = Some (c', CACHE_SET_OK)"
    "cache_reachable 2 1000 c'" using demo_state by blast
  obtain xs' e where s: "cache_ok c' xs'" "content c' [107] = Some e" using store_stored [OF d(1-3)] by metis
  have "max_keys c' = 2" "bounded c'" "sound c'" using reachable_sound [OF d(4)] by (auto simp: sound_def)
  then have "kv_hash_count (index c') \<le> 4"
    using content_card [of c'] s(1) by (auto simp: bounded_def cache_ok_def)
  moreover obtain c2 m where g: "cache_maintain 9 c' 4 8 = (c2, m)" by fastforce
  ultimately have "content c2 = (\<lambda>k. live 9 (content c' k))" using cache_maintain_complete [OF s(1) g] by simp
  with g s(2) d(4) show ?thesis by blast
qed

text \<open>
  C33. After any sequence of calls on a fresh cache the statistics, which every call keeps by adding and
  subtracting, are exact, up to the width of the counters: the number of keys, of strings, of
  hashes and of sorted sets are those of the contents, the fields and members are the sums over the
  hashes and sorted sets, and the memory is the sum of the charges.
\<close>

theorem cache_stats_exact:
  fixes c :: "('m, 'o) cache"
  assumes "cache_reachable keys memory c"
  shows "stat_keys (cache_get_stats c) = card (dom (content c))
    \<and> stat_used_memory (cache_get_stats c) = of_nat (charge_sum c)
    \<and> stat_string_keys (cache_get_stats c) = of_nat (card {k. \<exists>d. content c k = Some d \<and> kv_object_type (core_object d) = STRING_TYPE})
    \<and> stat_hash_keys (cache_get_stats c) = of_nat (card {k. \<exists>d. content c k = Some d \<and> kv_object_type (core_object d) = HASH_TYPE})
    \<and> stat_zset_keys (cache_get_stats c) = of_nat (card {k. \<exists>d. content c k = Some d \<and> kv_object_type (core_object d) = ZSET_TYPE})
    \<and> stat_hash_fields (cache_get_stats c) =
        (\<Sum>k | \<exists>d. content c k = Some d \<and> kv_object_type (core_object d) = HASH_TYPE. of_nat (core_items (the (content c k))))
    \<and> stat_zset_members (cache_get_stats c) =
        (\<Sum>k | \<exists>d. content c k = Some d \<and> kv_object_type (core_object d) = ZSET_TYPE. of_nat (core_items (the (content c k))))"
proof -
  have cat: "catalog_ok c" using reachable_sound [OF assms] by (auto simp: sound_def cache_inv_def cache_ok_def)
  have fin: "finite (dom (content c))" using content_finite [OF cat] .
  have filt: "(\<Sum>k \<in> dom (content c). if kv_object_type (core_object (the (content c k))) = T then g k else 0) =
      (\<Sum>k | \<exists>d. content c k = Some d \<and> kv_object_type (core_object d) = T. g k)" for T and g :: "bytes \<Rightarrow> u64"
    unfolding sum.inter_filter [OF fin, symmetric] by (rule sum.cong) auto
  note t = total_content [OF cat]
  have "string_keys c = of_nat (card {k. \<exists>d. content c k = Some d \<and> kv_object_type (core_object d) = STRING_TYPE})"
    using t [of Strings] filt [where g = "\<lambda>_. 1" and T = STRING_TYPE] by simp
  moreover have "hash_keys c = of_nat (card {k. \<exists>d. content c k = Some d \<and> kv_object_type (core_object d) = HASH_TYPE})"
    using t [of Hashes] filt [where g = "\<lambda>_. 1" and T = HASH_TYPE] by simp
  moreover have "zset_keys c = of_nat (card {k. \<exists>d. content c k = Some d \<and> kv_object_type (core_object d) = ZSET_TYPE})"
    using t [of Zsets] filt [where g = "\<lambda>_. 1" and T = ZSET_TYPE] by simp
  moreover have "hash_fields c = (\<Sum>k | \<exists>d. content c k = Some d \<and> kv_object_type (core_object d) = HASH_TYPE. of_nat (core_items (the (content c k))))"
    using t [of Fields] filt [where T = HASH_TYPE] by simp
  moreover have "zset_members c = (\<Sum>k | \<exists>d. content c k = Some d \<and> kv_object_type (core_object d) = ZSET_TYPE. of_nat (core_items (the (content c k))))"
    using t [of Members] filt [where T = ZSET_TYPE] by simp
  ultimately show ?thesis
    using content_card [OF cat] used_memory_sum [OF cat] by (simp add: cache_get_stats_def)
qed

theorem cache_stats_exact_witness:
  "\<exists>c :: (nat, nat) cache. cache_reachable 2 1000 c \<and> content c [107] \<noteq> None
    \<and> stat_keys (cache_get_stats c) = card (dom (content c))
    \<and> stat_used_memory (cache_get_stats c) = of_nat (charge_sum c)
    \<and> stat_string_keys (cache_get_stats c) = of_nat (card {k. \<exists>d. content c k = Some d \<and> kv_object_type (core_object d) = STRING_TYPE})"
proof -
  obtain c c' :: "(nat, nat) cache" where d: "cache_ok c []" "fresh demo_alloc c"
    "cache_store_object demo_alloc (\<lambda>_. 5) c [107] demo_object 0 False = Some (c', CACHE_SET_OK)"
    "cache_reachable 2 1000 c'" using demo_state by blast
  have "content c' [107] \<noteq> None" using store_stored [OF d(1-3)] by (metis option.distinct(1))
  with cache_stats_exact [OF d(4)] d(4) show ?thesis by auto
qed

text \<open>
  C34. Destroying a cache always ends and releases every entry and every index node.
\<close>

theorem cache_destroy_releases:
  fixes c :: "('m, 'o, 'x) cache_scheme"
  assumes "cache_ok c xs"
  shows "\<exists>c'. cache_destroy c = Some c' \<and> entries c' = Map.empty \<and> nodes (index c') = []"
proof (cases "lru_enabled c")
  case True
  obtain c1 where c1: "destroy_loop c = Some c1" "cache_ok c1 []" "lru_enabled c1" using destroy_loop_ok [OF assms True] by blast
  then have "dom (entries c1) = {}" by (simp add: cache_ok_def recency_ok_def)
  then have "entries c1 = Map.empty" by simp
  with True c1 show ?thesis by (simp add: cache_destroy_def hash_clear_def nodes_def)
next
  case False
  have cat: "catalog_ok c" using assms by (simp add: cache_ok_def)
  let ?c = "foldl (\<lambda>c node. free_entry (payload node) c) c (nodes (index c))"
  have "entries ?c = Map.empty"
    using index_payloads [OF cat] unfolding free_all_entries fun_eq_iff by (metis domIff)
  moreover have "cache_destroy c = Some (?c\<lparr>index := fst (hash_clear (index c))\<rparr>)"
    using False by (simp add: cache_destroy_def iterator_collect_begin)
  ultimately show ?thesis by (simp add: hash_clear_def nodes_def)
qed

theorem cache_destroy_releases_witness:
  "\<exists>c c'. cache_reachable 2 1000 (c :: (nat, nat) cache) \<and> content c [107] \<noteq> None
    \<and> cache_destroy c = Some c' \<and> entries c' = Map.empty"
proof -
  obtain c c' :: "(nat, nat) cache" where d: "cache_ok c []" "fresh demo_alloc c"
    "cache_store_object demo_alloc (\<lambda>_. 5) c [107] demo_object 0 False = Some (c', CACHE_SET_OK)"
    "cache_reachable 2 1000 c'" using demo_state by blast
  obtain xs' e where s: "cache_ok c' xs'" "content c' [107] = Some e" using store_stored [OF d(1-3)] by metis
  with cache_destroy_releases [OF s(1)] d(4) show ?thesis by auto
qed

text \<open>
  C35. A visit that is not stopped calls back once for every key, with the value and the deadline the
  key has.
\<close>

theorem cache_visit_complete:
  assumes "cache_ok c xs"
  shows "\<exists>ds. cache_visit c (\<lambda>k v t acc. (acc @ [(k, v, t)], False)) [] =
        (map (\<lambda>d. (core_key d, core_object d, core_expire d)) ds, True)
    \<and> distinct (map core_key ds) \<and> set (map core_key ds) = dom (content c) \<and> (\<forall>d. d \<in> set ds \<longrightarrow> content c (core_key d) = Some d)"
proof -
  let ?ns = "nodes (index c)"
  let ?d = "\<lambda>n. the (core_view c (payload n))"
  have cat: "catalog_ok c" using assms by (simp add: cache_ok_def)
  then have h: "hash_inv (index c)" and m: "index_matches (core_view c) (hash_map (index c))"
    by (auto simp: catalog_ok_def)
  have ds: "distinct (map node_key ?ns)" using h by (simp add: hash_inv_def)
  have n: "core_view c (payload n) = Some (?d n) \<and> core_key (?d n) = node_key n" if "n \<in> set ?ns" for n
  proof -
    have "hash_map (index c) (node_key n) = Some (payload n)"
      using that ds by (auto simp: hash_map_eq_Some_iff)
    with index_matchesD [OF m, of "node_key n" "payload n"] show ?thesis by auto
  qed
  have keys: "map core_key (map ?d ?ns) = map node_key ?ns" using n by simp
  have v: "visit_nodes (\<lambda>n acc. (acc @ [g n], False)) ns acc = (acc @ map g ns, True)"
    for g :: "nat kv_hash_node \<Rightarrow> bytes \<times> ('a, 'b) kv_object \<times> u64" and ns acc
    by (induction ns arbitrary: acc) auto
  have "cache_visit c (\<lambda>k v t acc. (acc @ [(k, v, t)], False)) [] =
      (map (\<lambda>d. (core_key d, core_object d, core_expire d)) (map ?d ?ns), True)"
    using n core_entry_fields(2,5) [of c] by (simp add: cache_visit_def iterator_collect_begin v)
  moreover have "content c (core_key d) = Some d" if "d \<in> set (map ?d ?ns)" for d
    using that n content_iff [OF cat] by fastforce
  moreover have "set (map node_key ?ns) = dom (content c)"
    using content_dom_index [OF cat] ds by (auto simp: hash_map_eq_Some_iff dom_def)
  ultimately show ?thesis using ds keys by (intro exI [of _ "map ?d ?ns"] conjI allI impI) (simp_all only:)
qed

theorem cache_visit_complete_witness:
  "\<exists>c (ds :: (nat, nat) core list). cache_reachable 2 1000 (c :: (nat, nat) cache) \<and> content c [107] \<noteq> None
    \<and> cache_visit c (\<lambda>k v t acc. (acc @ [(k, v, t)], False)) [] =
        (map (\<lambda>d. (core_key d, core_object d, core_expire d)) ds, True) \<and> set (map core_key ds) = dom (content c)"
proof -
  obtain c c' :: "(nat, nat) cache" where d: "cache_ok c []" "fresh demo_alloc c"
    "cache_store_object demo_alloc (\<lambda>_. 5) c [107] demo_object 0 False = Some (c', CACHE_SET_OK)"
    "cache_reachable 2 1000 c'" using demo_state by blast
  obtain xs' e where s: "cache_ok c' xs'" "content c' [107] = Some e" using store_stored [OF d(1-3)] by metis
  from s(2) have "content c' [107] \<noteq> None" by simp
  with cache_visit_complete [OF s(1)] d(4) show ?thesis by blast
qed

end
