(* ===== verification/Command.thy ===== *)
theory Command
  imports Resp
begin

text \<open>
  How the command layer reads a request (\<open>src/src/service/kvstore_resp_service.c\<close>): the names of the
  commands, their arities, the integers in their arguments, and the sizes and replies it computes;
  and how the markers that tie the log to MySQL are written and read
  (\<open>append_mysql_marker\<close> there, \<open>parse_mysql_marker\<close> of \<open>src/src/app/main.c\<close>).
  An \<open>int64_t\<close> is an \<open>int\<close>; that it stays in range is part of what is shown.
\<close>

subsection \<open>Replies\<close>

definition reply_ok :: bytes where "reply_ok = ascii ''OK''"
definition reply_pong :: bytes where "reply_pong = ascii ''PONG''"
definition error_unknown :: bytes where "error_unknown = ascii ''ERR unknown command''"
definition error_arity :: bytes where "error_arity = ascii ''ERR wrong number of arguments''"
definition error_internal :: bytes where "error_internal = ascii ''ERR internal error''"
definition error_syntax :: bytes where "error_syntax = ascii ''ERR syntax error''"
definition error_integer :: bytes where "error_integer = ascii ''ERR value is not an integer or out of range''"
definition error_expire :: bytes where "error_expire = ascii ''ERR invalid expire time in SET''"
definition error_capacity :: bytes where "error_capacity = ascii ''ERR cache capacity exceeded''"
definition error_aof :: bytes where "error_aof = ascii ''ERR AOF persistence unavailable''"
definition error_mysql_queue :: bytes where
  "error_mysql_queue = ascii ''TRYAGAIN MySQL writer queue is above the high-water mark''"
definition error_wrongtype :: bytes where
  "error_wrongtype = ascii ''WRONGTYPE Operation against a key holding the wrong kind of value''"
definition error_response_too_large :: bytes where
  "error_response_too_large = ascii ''ERR response exceeds 1 MiB limit''"
definition error_rdb_disabled :: bytes where "error_rdb_disabled = ascii ''ERR RDB persistence disabled''"
definition error_save_busy :: bytes where "error_save_busy = ascii ''ERR Background save already in progress''"
definition reply_bgsave_started :: bytes where "reply_bgsave_started = ascii ''Background saving started''"
definition error_aof_busy :: bytes where
  "error_aof_busy = ascii ''TRYAGAIN AOF writer queue is above the high-water mark''"

definition SERVICE_MAX_RESPONSE :: u64 where "SERVICE_MAX_RESPONSE = 1048576"
definition SERVICE_MAX_ARRAY_ELEMENTS :: nat where "SERVICE_MAX_ARRAY_ELEMENTS = 65536"

datatype kvstore_reply =
    KVSTORE_REPLY_SIMPLE bytes
  | KVSTORE_REPLY_ERROR bytes
  | KVSTORE_REPLY_INTEGER int
  | KVSTORE_REPLY_BULK bytes
  | KVSTORE_REPLY_NULL_BULK
  | KVSTORE_REPLY_ARRAY "bytes list"

definition is_error :: "kvstore_reply \<Rightarrow> bool" where
  "is_error reply \<longleftrightarrow> (case reply of KVSTORE_REPLY_ERROR _ \<Rightarrow> True | _ \<Rightarrow> False)"

subsection \<open>Commands\<close>

datatype service_command =
    SERVICE_COMMAND_SET | SERVICE_COMMAND_GET | SERVICE_COMMAND_DEL | SERVICE_COMMAND_PING
  | SERVICE_COMMAND_EXPIRE | SERVICE_COMMAND_PEXPIRE | SERVICE_COMMAND_TTL | SERVICE_COMMAND_PTTL
  | SERVICE_COMMAND_PERSIST | SERVICE_COMMAND_INFO | SERVICE_COMMAND_DBSIZE
  | SERVICE_COMMAND_HSET | SERVICE_COMMAND_HGET | SERVICE_COMMAND_HDEL | SERVICE_COMMAND_HLEN
  | SERVICE_COMMAND_HGETALL | SERVICE_COMMAND_ZADD | SERVICE_COMMAND_ZREM | SERVICE_COMMAND_ZSCORE
  | SERVICE_COMMAND_ZCARD | SERVICE_COMMAND_ZRANGE
  | SERVICE_COMMAND_SAVE | SERVICE_COMMAND_BGSAVE | SERVICE_COMMAND_LASTSAVE | SERVICE_COMMAND_UNKNOWN

definition ascii_upper :: "byte \<Rightarrow> byte" where
  "ascii_upper b = (if 97 \<le> b \<and> b \<le> 122 then b - 32 else b)"

definition argument_equals :: "bytes \<Rightarrow> string \<Rightarrow> bool" where
  "argument_equals argument name \<longleftrightarrow>
     length argument = length name \<and> list_all2 (\<lambda>b c. ascii_upper b = of_char c) argument name"

definition find_command :: "bytes \<Rightarrow> service_command" where
  "find_command argument =
     (if length argument = 3 then
        if argument_equals argument ''SET'' then SERVICE_COMMAND_SET
        else if argument_equals argument ''GET'' then SERVICE_COMMAND_GET
        else if argument_equals argument ''DEL'' then SERVICE_COMMAND_DEL
        else if argument_equals argument ''TTL'' then SERVICE_COMMAND_TTL
        else SERVICE_COMMAND_UNKNOWN
      else if length argument = 4 then
        if argument_equals argument ''PING'' then SERVICE_COMMAND_PING
        else if argument_equals argument ''PTTL'' then SERVICE_COMMAND_PTTL
        else if argument_equals argument ''INFO'' then SERVICE_COMMAND_INFO
        else if argument_equals argument ''HSET'' then SERVICE_COMMAND_HSET
        else if argument_equals argument ''HGET'' then SERVICE_COMMAND_HGET
        else if argument_equals argument ''HDEL'' then SERVICE_COMMAND_HDEL
        else if argument_equals argument ''HLEN'' then SERVICE_COMMAND_HLEN
        else if argument_equals argument ''ZADD'' then SERVICE_COMMAND_ZADD
        else if argument_equals argument ''ZREM'' then SERVICE_COMMAND_ZREM
        else if argument_equals argument ''SAVE'' then SERVICE_COMMAND_SAVE
        else SERVICE_COMMAND_UNKNOWN
      else if length argument = 5 then
        if argument_equals argument ''ZCARD'' then SERVICE_COMMAND_ZCARD
        else SERVICE_COMMAND_UNKNOWN
      else if length argument = 6 then
        if argument_equals argument ''EXPIRE'' then SERVICE_COMMAND_EXPIRE
        else if argument_equals argument ''DBSIZE'' then SERVICE_COMMAND_DBSIZE
        else if argument_equals argument ''ZSCORE'' then SERVICE_COMMAND_ZSCORE
        else if argument_equals argument ''ZRANGE'' then SERVICE_COMMAND_ZRANGE
        else if argument_equals argument ''BGSAVE'' then SERVICE_COMMAND_BGSAVE
        else SERVICE_COMMAND_UNKNOWN
      else if length argument = 7 then
        if argument_equals argument ''PEXPIRE'' then SERVICE_COMMAND_PEXPIRE
        else if argument_equals argument ''PERSIST'' then SERVICE_COMMAND_PERSIST
        else if argument_equals argument ''HGETALL'' then SERVICE_COMMAND_HGETALL
        else SERVICE_COMMAND_UNKNOWN
      else if length argument = 8 then
        if argument_equals argument ''LASTSAVE'' then SERVICE_COMMAND_LASTSAVE
        else SERVICE_COMMAND_UNKNOWN
      else SERVICE_COMMAND_UNKNOWN)"

definition is_write_command :: "service_command \<Rightarrow> bool" where
  "is_write_command command \<longleftrightarrow> command = SERVICE_COMMAND_SET \<or> command = SERVICE_COMMAND_DEL \<or>
     command = SERVICE_COMMAND_EXPIRE \<or> command = SERVICE_COMMAND_PEXPIRE \<or>
     command = SERVICE_COMMAND_PERSIST \<or> command = SERVICE_COMMAND_HSET \<or>
     command = SERVICE_COMMAND_HDEL \<or> command = SERVICE_COMMAND_ZADD \<or> command = SERVICE_COMMAND_ZREM"

definition command_arity_valid :: "service_command \<Rightarrow> nat \<Rightarrow> bool" where
  "command_arity_valid command argument_count = (case command of
     SERVICE_COMMAND_SET \<Rightarrow> argument_count = 3 \<or> argument_count = 5
   | SERVICE_COMMAND_GET \<Rightarrow> argument_count = 2
   | SERVICE_COMMAND_DEL \<Rightarrow> argument_count = 2
   | SERVICE_COMMAND_TTL \<Rightarrow> argument_count = 2
   | SERVICE_COMMAND_PTTL \<Rightarrow> argument_count = 2
   | SERVICE_COMMAND_PERSIST \<Rightarrow> argument_count = 2
   | SERVICE_COMMAND_HLEN \<Rightarrow> argument_count = 2
   | SERVICE_COMMAND_HGETALL \<Rightarrow> argument_count = 2
   | SERVICE_COMMAND_ZCARD \<Rightarrow> argument_count = 2
   | SERVICE_COMMAND_EXPIRE \<Rightarrow> argument_count = 3
   | SERVICE_COMMAND_PEXPIRE \<Rightarrow> argument_count = 3
   | SERVICE_COMMAND_HGET \<Rightarrow> argument_count = 3
   | SERVICE_COMMAND_ZSCORE \<Rightarrow> argument_count = 3
   | SERVICE_COMMAND_PING \<Rightarrow> argument_count = 1 \<or> argument_count = 2
   | SERVICE_COMMAND_DBSIZE \<Rightarrow> argument_count = 1
   | SERVICE_COMMAND_SAVE \<Rightarrow> argument_count = 1
   | SERVICE_COMMAND_BGSAVE \<Rightarrow> argument_count = 1
   | SERVICE_COMMAND_LASTSAVE \<Rightarrow> argument_count = 1
   | SERVICE_COMMAND_INFO \<Rightarrow> argument_count = 2
   | SERVICE_COMMAND_HSET \<Rightarrow> argument_count \<ge> 4 \<and> argument_count mod 2 = 0
   | SERVICE_COMMAND_ZADD \<Rightarrow> argument_count \<ge> 4 \<and> argument_count mod 2 = 0
   | SERVICE_COMMAND_HDEL \<Rightarrow> argument_count \<ge> 3
   | SERVICE_COMMAND_ZREM \<Rightarrow> argument_count \<ge> 3
   | SERVICE_COMMAND_ZRANGE \<Rightarrow> argument_count = 4 \<or> argument_count = 5
   | SERVICE_COMMAND_UNKNOWN \<Rightarrow> False)"

subsection \<open>Integers\<close>

definition INT64_MAX :: u64 where "INT64_MAX = 9223372036854775807"

text \<open>
  The digit loop of \<open>parse_int64\<close>, \<open>parse_uint64_bytes\<close> and \<open>parse_mysql_marker\<close>; the last two have
  \<open>UINT64_MAX\<close> as the limit.
\<close>

fun digits_loop :: "u64 \<Rightarrow> u64 \<Rightarrow> bytes \<Rightarrow> u64 option" where
  "digits_loop limit magnitude [] = Some magnitude"
| "digits_loop limit magnitude (b # bs) =
     (if b < 48 \<or> b > 57 then None
      else let digit = ucast (b - 48) in
        if magnitude > (limit - digit) div 10 then None
        else digits_loop limit (magnitude * 10 + digit) bs)"

definition parse_int64 :: "bytes \<Rightarrow> int option" where
  "parse_int64 argument =
     (case argument of
        [] \<Rightarrow> None
      | b # bs \<Rightarrow>
          if b = 45 then
            if bs = [] then None
            else (case digits_loop (INT64_MAX + 1) 0 bs of
                    None \<Rightarrow> None
                  | Some magnitude \<Rightarrow>
                      Some (if magnitude = INT64_MAX + 1 then - (2 ^ 63) else - uint magnitude))
          else (case digits_loop INT64_MAX 0 argument of
                  None \<Rightarrow> None
                | Some magnitude \<Rightarrow> Some (uint magnitude)))"

definition parse_uint64_bytes :: "bytes \<Rightarrow> u64 option" where
  "parse_uint64_bytes data = (if data = [] then None else digits_loop UINT64_MAX 0 data)"

text \<open>The results -1 and -2, or the number and the milliseconds (0 for a number that is not positive).\<close>

definition duration_ms :: "bytes \<Rightarrow> u64 \<Rightarrow> bool \<Rightarrow> int + int \<times> u64" where
  "duration_ms argument multiplier require_positive =
     (case parse_int64 argument of
        None \<Rightarrow> Inl (- 1)
      | Some v \<Rightarrow>
          if v \<le> 0 then if require_positive then Inl (- 2) else Inr (v, 0)
          else if of_int v > UINT64_MAX div multiplier then Inl (- 1)
          else Inr (v, of_int v * multiplier))"

subsection \<open>Sizes\<close>

function decimal_digits :: "u64 \<Rightarrow> u64" where
  "decimal_digits v = (if v \<ge> 10 then decimal_digits (v div 10) + 1 else 1)"
  by pat_completeness auto
termination
proof (relation "measure unat")
  show "wf (measure unat)" by simp
  fix v :: u64 assume "v \<ge> 10"
  then have "unat v \<ge> 10" by (simp add: word_le_nat_alt)
  then show "(v div 10, v) \<in> measure unat" by (simp add: unat_div)
qed

declare decimal_digits.simps [simp del]

definition bulk_encoded_size :: "u64 \<Rightarrow> u64" where
  "bulk_encoded_size n =
     (if n > UINT64_MAX - decimal_digits n - 5 then UINT64_MAX
      else n + decimal_digits n + 5)"

fun estimate_loop :: "u64 \<Rightarrow> bytes list \<Rightarrow> u64" where
  "estimate_loop amount [] = amount"
| "estimate_loop amount (a # as) =
     (if of_nat (length a) > UINT64_MAX - amount then UINT64_MAX
      else estimate_loop (amount + of_nat (length a)) as)"

definition mysql_write_estimate :: "bytes list \<Rightarrow> u64" where
  "mysql_write_estimate arguments = estimate_loop 128 arguments"

text \<open>
  The doubling loop of the growing buffers: past half of \<open>bound\<close> it stops at \<open>stop\<close>.  A capacity
  of 0 is replaced before the loop is entered.
\<close>

function doubled_capacity :: "nat \<Rightarrow> nat \<Rightarrow> nat \<Rightarrow> nat \<Rightarrow> nat" where
  "doubled_capacity bound stop count capacity =
     (if 0 < capacity \<and> capacity < count then
        if capacity > bound div 2 then stop else doubled_capacity bound stop count (capacity * 2)
      else capacity)"
  by pat_completeness auto
termination
  by (relation "measure (\<lambda>(bound, stop, count, capacity). count - capacity)") auto

declare doubled_capacity.simps [simp del]

text \<open>The results -2 and -1, or the new capacity.\<close>

definition reserve_reply_elements :: "bool \<Rightarrow> nat \<Rightarrow> nat \<Rightarrow> int + nat" where
  "reserve_reply_elements allocated capacity count =
     (if count > SERVICE_MAX_ARRAY_ELEMENTS then Inl (- 2)
      else if count \<le> capacity then Inr capacity
      else let capacity = doubled_capacity SERVICE_MAX_ARRAY_ELEMENTS SERVICE_MAX_ARRAY_ELEMENTS count
                 (if capacity = 0 then 16 else capacity) in
        if \<not> allocated then Inl (- 1) else Inr capacity)"

subsection \<open>Markers\<close>

definition hexadecimal :: bytes where "hexadecimal = ascii ''0123456789abcdef''"

fun uuid_text :: "bytes \<Rightarrow> bytes" where
  "uuid_text [] = []"
| "uuid_text (b # bs) =
     hexadecimal ! unat (drop_bit 4 b) # hexadecimal ! unat (b AND 15) # uuid_text bs"

text \<open>\<open>None\<close> when the text does not fit the buffer of 64 bytes.\<close>

definition mysql_marker :: "bytes \<Rightarrow> u64 \<Rightarrow> bytes list option" where
  "mysql_marker uuid sequence =
     (let text = ascii ''KVMYSQL1:'' @ uuid_text uuid @ ascii '':'';
          digits = decimal_text (unat sequence) in
      if length digits \<ge> 64 - length text then None
      else Some [ascii ''PING'', text @ digits])"

definition decode_hex_digit :: "byte \<Rightarrow> int" where
  "decode_hex_digit v =
     (if 48 \<le> v \<and> v \<le> 57 then uint (v - 48)
      else if 97 \<le> v \<and> v \<le> 102 then uint (v - 97) + 10
      else if 65 \<le> v \<and> v \<le> 70 then uint (v - 65) + 10
      else - 1)"

fun decode_uuid :: "nat \<Rightarrow> bytes \<Rightarrow> bytes option" where
  "decode_uuid 0 text = Some []"
| "decode_uuid (Suc n) text =
     (let high = decode_hex_digit (text ! 0); low = decode_hex_digit (text ! 1) in
      if high < 0 \<or> low < 0 then None
      else map_option ((#) (of_int (high * 16) OR of_int low)) (decode_uuid n (drop 2 text)))"

datatype marker = NO_MARKER | BAD_MARKER | MARKER bytes u64

definition parse_mysql_marker :: "bytes list \<Rightarrow> marker" where
  "parse_mysql_marker arguments =
     (if length arguments \<noteq> 2 \<or> \<not> argument_equals (arguments ! 0) ''PING'' then NO_MARKER
      else let text = arguments ! 1 in
        if length text < 43 \<or> take 9 text \<noteq> ascii ''KVMYSQL1:'' \<or> text ! 41 \<noteq> 58 then NO_MARKER
        else case decode_uuid 16 (drop 9 text) of
          None \<Rightarrow> BAD_MARKER
        | Some uuid \<Rightarrow>
            (case digits_loop UINT64_MAX 0 (drop 42 text) of
               None \<Rightarrow> BAD_MARKER
             | Some sequence \<Rightarrow> if sequence = 0 then BAD_MARKER else MARKER uuid sequence))"

subsection \<open>What the digit loop accepts\<close>

lemma digit_word: "is_digit b \<Longrightarrow> unat (ucast (b - 48) :: u64) = digit_value b"
proof -
  have "unat (b - 48) < 2 ^ 8" using unsigned_less [of "b - 48", where ?'a = nat] by simp
  then have "unat (b - 48) < 2 ^ 64" by simp
  then show ?thesis by (simp add: digit_value_def unsigned_ucast_eq take_bit_nat_eq_self)
qed

lemma digits_loop_step:
  assumes b: "is_digit b" and l: "9 \<le> (limit :: u64)"
  shows "magnitude > (limit - ucast (b - 48)) div 10 \<longleftrightarrow> unat limit < unat magnitude * 10 + digit_value b"
    and "unat magnitude * 10 + digit_value b \<le> unat limit \<Longrightarrow>
      unat (magnitude * 10 + ucast (b - 48)) = unat magnitude * 10 + digit_value b"
proof -
  let ?d = "ucast (b - 48) :: u64"
  have d: "unat ?d = digit_value b" using digit_word [OF b] .
  have l': "9 \<le> unat limit" using l by (simp add: word_le_nat_alt)
  have le: "?d \<le> limit" using digit_value_le [OF b] l' by (simp add: word_le_nat_alt d)
  have "unat ((limit - ?d) div 10) = (unat limit - digit_value b) div 10"
    by (simp add: unat_div unat_sub [OF le] d)
  then show "magnitude > (limit - ?d) div 10 \<longleftrightarrow> unat limit < unat magnitude * 10 + digit_value b"
    using digit_value_le [OF b] l' by (simp add: word_less_nat_alt decimal_guard)
  assume v: "unat magnitude * 10 + digit_value b \<le> unat limit"
  have "unat limit < 2 ^ 64" using unsigned_less [of limit, where ?'a = nat] by simp
  with v have "unat magnitude * 10 + digit_value b < 2 ^ 64" by linarith
  then show "unat (magnitude * 10 + ?d) = unat magnitude * 10 + digit_value b"
    by (simp add: unat_word_ariths d mod_simps)
qed

lemma digits_loop_eq:
  assumes "9 \<le> limit" "magnitude \<le> limit"
  shows "digits_loop limit magnitude bs =
    (if list_all is_digit bs \<and> decimal_value (unat magnitude) bs \<le> unat limit
     then Some (of_nat (decimal_value (unat magnitude) bs)) else None)"
  using assms(2)
proof (induction bs arbitrary: magnitude)
  case Nil
  then show ?case by (simp add: word_le_nat_alt)
next
  case (Cons b bs)
  show ?case
  proof (cases "is_digit b")
    case False
    then show ?thesis by (auto simp: is_digit_def not_le)
  next
    case True
    note step = digits_loop_step [OF True assms(1), of magnitude]
    have nb: "\<not> (b < 48 \<or> b > 57)" using True by (auto simp: is_digit_def not_less)
    let ?v = "unat magnitude * 10 + digit_value b"
    show ?thesis
    proof (cases "unat limit < ?v")
      case over: True
      then have "unat limit < decimal_value ?v bs" using decimal_value_mono [of ?v bs] by linarith
      with over step nb show ?thesis by (simp add: Let_def)
    next
      case False
      with step have "unat (magnitude * 10 + ucast (b - 48)) = ?v" by simp
      moreover from this False have "magnitude * 10 + ucast (b - 48) \<le> limit" by (simp add: word_le_nat_alt)
      ultimately show ?thesis
        using Cons.IH False step(1) nb True by (simp add: Let_def)
    qed
  qed
qed

lemma digits_text: "digits_loop UINT64_MAX 0 (decimal_text (unat w)) = Some w"
proof -
  have "list_all is_digit (decimal_text (unat w))" using decimal_text_digits by (simp add: list_all_iff)
  moreover have "unat w \<le> unat UINT64_MAX" using unsigned_less [of w, where ?'a = nat] by (simp add: UINT64_MAX_def)
  moreover have "(9 :: u64) \<le> UINT64_MAX" by (simp add: UINT64_MAX_def)
  ultimately show ?thesis by (subst digits_loop_eq) simp_all
qed

lemma signed_loops:
  "digits_loop INT64_MAX 0 bs = (if list_all is_digit bs \<and> decimal_value 0 bs < 2 ^ 63
     then Some (of_nat (decimal_value 0 bs)) else None)"
  "digits_loop (INT64_MAX + 1) 0 bs = (if list_all is_digit bs \<and> decimal_value 0 bs \<le> 2 ^ 63
     then Some (of_nat (decimal_value 0 bs)) else None)"
  by (subst digits_loop_eq; simp add: INT64_MAX_def less_Suc_eq_le [symmetric])+

lemma uint_decimal: "n \<le> 2 ^ 63 \<Longrightarrow> uint (of_nat n :: u64) = int n"
  by (simp add: unsigned_of_nat take_bit_nat_eq_self flip: of_nat_take_bit)

lemma decimal_word_top: "n \<le> 2 ^ 63 \<Longrightarrow> (of_nat n :: u64) = INT64_MAX + 1 \<longleftrightarrow> n = 2 ^ 63"
proof -
  assume n: "n \<le> 2 ^ 63"
  have "(of_nat n :: u64) = INT64_MAX + 1 \<longleftrightarrow> uint (of_nat n :: u64) = uint (INT64_MAX + 1)"
    by (rule word_uint_eq_iff)
  then show ?thesis unfolding uint_decimal [OF n] by (simp add: INT64_MAX_def)
qed

lemma parse_int64_plain:
  "is_digit b \<Longrightarrow> parse_int64 (b # bs) = (if list_all is_digit bs \<and> decimal_value 0 (b # bs) < 2 ^ 63
     then Some (int (decimal_value 0 (b # bs))) else None)"
proof -
  assume b: "is_digit b"
  then have "b \<noteq> 45" by (auto simp: is_digit_def word_le_nat_alt)
  with b show ?thesis
    by (simp add: parse_int64_def signed_loops uint_decimal del: decimal_value_simps digits_loop.simps)
qed

lemma parse_int64_negative:
  "bs \<noteq> [] \<Longrightarrow> parse_int64 (45 # bs) = (if list_all is_digit bs \<and> decimal_value 0 bs \<le> 2 ^ 63
     then Some (- int (decimal_value 0 bs)) else None)"
  by (simp add: parse_int64_def signed_loops uint_decimal decimal_word_top del: digits_loop.simps)

lemma parse_int64_other:
  "\<not> is_digit b \<Longrightarrow> b \<noteq> 45 \<Longrightarrow> parse_int64 (b # bs) = None" "parse_int64 [] = None" "parse_int64 [45] = None"
  by (simp_all add: parse_int64_def signed_loops del: digits_loop.simps)

lemma minus_no_digit: "\<not> is_digit 45"
  by (simp add: is_digit_def)

text \<open>
  C38. An integer argument is accepted exactly when it is a non-empty row of decimal digits, with a
  minus sign in front or not, whose value fits \<open>int64_t\<close>; the result is that value.
\<close>

theorem parse_int64_exact:
  "parse_int64 argument = Some v \<longleftrightarrow> - (2 ^ 63) \<le> v \<and> v < 2 ^ 63 \<and>
     (\<exists>ds. ds \<noteq> [] \<and> list_all is_digit ds \<and>
        (argument = ds \<and> v = int (decimal_value 0 ds) \<or> argument = 45 # ds \<and> v = - int (decimal_value 0 ds)))"
proof (cases argument)
  case Nil
  then show ?thesis by (simp add: parse_int64_other)
next
  case (Cons b bs)
  show ?thesis
  proof (cases "b = 45")
    case True
    then show ?thesis
      using Cons minus_no_digit by (cases "bs = []") (auto simp: parse_int64_negative parse_int64_other)
  next
    case False
    show ?thesis
    proof (cases "is_digit b")
      case True
      with Cons False show ?thesis
        by (auto simp: parse_int64_plain simp del: decimal_value_simps)
    next
      case d: False
      with Cons False show ?thesis by (auto simp: parse_int64_other)
    qed
  qed
qed

subsection \<open>Markers are read back\<close>

lemma hex_digits:
  "n < 16 \<Longrightarrow> decode_hex_digit (hexadecimal ! n) = int n"
proof -
  assume "n < 16"
  then have "n \<in> set [0..<16]" by simp
  moreover have "list_all (\<lambda>n. decode_hex_digit (hexadecimal ! n) = int n) [0..<16]"
    by (simp add: upt_rec hexadecimal_def ascii_def decode_hex_digit_def)
  ultimately show ?thesis by (simp only: list_all_iff)
qed

lemma nibbles:
  fixes b :: byte
  shows "unat (drop_bit 4 b) < 16" "unat (b AND 15) < 16"
    "drop_bit 4 b * 16 OR b AND 15 = b"
proof -
  have "unat b < 256" using unsigned_less [of b, where ?'a = nat] by simp
  then show "unat (drop_bit 4 b) < 16" by (simp add: unsigned_drop_bit_eq drop_bit_nat_def take_bit_nat_eq_self)
  have m: "b AND 15 = take_bit 4 b" by (simp add: take_bit_eq_mask mask_eq_exp_minus_1)
  show "unat (b AND 15) < 16"
    unfolding m using take_bit_nat_less_exp [of 4 "unat b"] by (simp add: unsigned_take_bit_eq)
  have "drop_bit 4 b * 16 = push_bit 4 (drop_bit 4 b)" by (simp add: push_bit_eq_mult mult.commute)
  then show "drop_bit 4 b * 16 OR b AND 15 = b" unfolding m by (auto simp: bit_eq_iff bit_simps)
qed

lemma decode_uuid_text: "decode_uuid (length uuid) (uuid_text uuid @ rest) = Some uuid"
  by (induction uuid) (simp_all add: hex_digits nibbles Let_def)

lemma length_uuid_text: "length (uuid_text uuid) = 2 * length uuid"
  by (induction uuid) simp_all

text \<open>
  C39. The marker that is logged with a mutation is recognised when the log is scanned, and gives
  back the writer's identity and the sequence number.
\<close>

theorem mysql_marker_roundtrip:
  assumes "length uuid = 16" "sequence \<noteq> 0"
  shows "\<exists>m. mysql_marker uuid sequence = Some m \<and> parse_mysql_marker m = MARKER uuid sequence"
proof -
  let ?digits = "decimal_text (unat sequence)"
  let ?head = "ascii ''KVMYSQL1:''"
  let ?text = "?head @ uuid_text uuid @ ascii '':'' @ ?digits"
  have u: "length (uuid_text uuid) = 32" using assms(1) by (simp add: length_uuid_text)
  have h: "length ?head = 9" "ascii '':'' = [58]" by (simp_all add: ascii_def)
  have "unat sequence < 2 ^ 64" using unsigned_less [of sequence, where ?'a = nat] by simp
  then have "unat sequence < 10 ^ 20" by simp
  then have d: "length ?digits \<le> 20" by (rule length_decimal_text) simp
  have l: "length ?text \<ge> 43" using u h decimal_text_nonempty [of "unat sequence"] by (cases ?digits) simp_all
  have t: "take 9 ?text = ?head" "drop 9 ?text = uuid_text uuid @ ascii '':'' @ ?digits" "?text ! 41 = 58" "drop 42 ?text = ?digits"
    using u h by (simp_all add: nth_append)
  have p: "argument_equals (ascii ''PING'') ''PING''"
    by (simp add: argument_equals_def ascii_def ascii_upper_def)
  have "mysql_marker uuid sequence = Some [ascii ''PING'', ?text]"
    using u h d by (simp add: mysql_marker_def Let_def)
  moreover have "parse_mysql_marker [ascii ''PING'', ?text] = MARKER uuid sequence"
    using l t p assms decode_uuid_text [of uuid "ascii '':'' @ ?digits"] digits_text [of sequence]
    by (simp add: parse_mysql_marker_def Let_def)
  ultimately show ?thesis by blast
qed

theorem mysql_marker_roundtrip_witness:
  "\<exists>m. mysql_marker (replicate 16 171) 42 = Some m \<and> parse_mysql_marker m = MARKER (replicate 16 171) 42"
  using mysql_marker_roundtrip [of "replicate 16 171" 42] by simp

end
