(* ===== verification/Legacy.thy ===== *)
theory Legacy
  imports HashTable
begin

text \<open>
  The two engines of the text protocol that are built in by default beside the tree: the array of
  \<open>src/src/kvstore_array.c\<close> and the C-string interface of the hash table at the end of
  \<open>src/src/kvstore_hash.c\<close>.  Keys and values are strings without their terminator.  Answers of the
  allocator are arguments.  Both implement the contract \<open>text_engine\<close>.
\<close>

subsection \<open>The array\<close>

record kvs_array_item =
  item_key :: "bytes option"
  item_value :: "bytes option"

record array =
  array_table :: "kvs_array_item list"
  array_idx :: nat

definition KVS_ARRAY_SIZE :: nat where "KVS_ARRAY_SIZE = 1024"

definition empty_item :: kvs_array_item where
  "empty_item = \<lparr>item_key = None, item_value = None\<rparr>"

definition kvstore_array_create :: "bool \<Rightarrow> array option" where
  "kvstore_array_create allocated =
     (if \<not> allocated then None
      else Some \<lparr>array_table = replicate KVS_ARRAY_SIZE empty_item, array_idx = 0\<rparr>)"

definition kvstore_array_destory :: "array \<Rightarrow> array" where
  "kvstore_array_destory arr = arr\<lparr>array_table := [], array_idx := 0\<rparr>"

text \<open>The search loop of all operations: the position of the key among the used cells.\<close>

fun array_scan :: "kvs_array_item list \<Rightarrow> bytes \<Rightarrow> nat \<Rightarrow> nat option" where
  "array_scan [] key i = None"
| "array_scan (item # items) key i = (if item_key item = Some key then Some i else array_scan items key (i + 1))"

abbreviation array_position :: "array \<Rightarrow> bytes \<Rightarrow> nat option" where
  "array_position arr key \<equiv> array_scan (take (array_idx arr) (array_table arr)) key 0"

definition kvs_array_set :: "bool \<Rightarrow> bool \<Rightarrow> array \<Rightarrow> bytes \<Rightarrow> bytes \<Rightarrow> array \<times> int" where
  "kvs_array_set key_allocated value_allocated arr key v =
     (if array_idx arr = KVS_ARRAY_SIZE then (arr, - 1)
      else case array_position arr key of
        Some _ \<Rightarrow> (arr, 1)
      | None \<Rightarrow>
          if \<not> key_allocated then (arr, - 1)
          else if \<not> value_allocated then (arr, - 1)
          else (arr\<lparr>array_table := (array_table arr)[array_idx arr := \<lparr>item_key = Some key, item_value = Some v\<rparr>],
                    array_idx := array_idx arr + 1\<rparr>, 0))"

definition kvs_array_get :: "array \<Rightarrow> bytes \<Rightarrow> bytes option" where
  "kvs_array_get arr key =
     (case array_position arr key of None \<Rightarrow> None | Some i \<Rightarrow> item_value (array_table arr ! i))"

definition kvs_array_del :: "array \<Rightarrow> bytes \<Rightarrow> array \<times> int" where
  "kvs_array_del arr key =
     (case array_position arr key of
        None \<Rightarrow> (arr, 1)
      | Some i \<Rightarrow>
          let last_cell = array_idx arr - 1;
              t = (array_table arr)[i := empty_item];
              t = (if i \<noteq> last_cell then t[i := t ! last_cell] else t);
              t = t[last_cell := empty_item]
          in (arr\<lparr>array_table := t, array_idx := last_cell\<rparr>, 0))"

definition kvs_array_mod :: "bool \<Rightarrow> array \<Rightarrow> bytes \<Rightarrow> bytes \<Rightarrow> array \<times> int" where
  "kvs_array_mod allocated arr key v =
     (case array_position arr key of
        None \<Rightarrow> (arr, 1)
      | Some i \<Rightarrow>
          if \<not> allocated then (arr, - 1)
          else (arr\<lparr>array_table := (array_table arr)[i := (array_table arr ! i)\<lparr>item_value := Some v\<rparr>]\<rparr>, 0))"

definition kvs_array_count :: "array \<Rightarrow> int" where
  "kvs_array_count arr = int (array_idx arr)"

subsection \<open>The hash table with C strings\<close>

text \<open>The flags answer for the structure and its data.\<close>

definition legacy_value_create :: "bool \<Rightarrow> bool \<Rightarrow> bytes \<Rightarrow> bytes option" where
  "legacy_value_create allocated data_allocated v =
     (if \<not> allocated then None
      else if length v = SIZE_MAX then None
      else if \<not> data_allocated then None else Some v)"

definition set_bytes ::
  "bool \<Rightarrow> bool \<Rightarrow> hash_alloc \<Rightarrow> bytes hashtable \<Rightarrow> bytes \<Rightarrow> bytes \<Rightarrow> bool \<Rightarrow> bytes hashtable \<times> int" where
  "set_bytes allocated data_allocated alloc hash key v overwrite =
     (let hash = fst (kv_hash_rehash_step hash 1) in
      case kv_hash_find hash key of
        Some node \<Rightarrow>
          if \<not> overwrite then (hash, 1)
          else (case legacy_value_create allocated data_allocated v of
                  None \<Rightarrow> (hash, - 1)
                | Some replacement \<Rightarrow> (kv_hash_node_set_payload hash key replacement, 0))
      | None \<Rightarrow>
          (case legacy_value_create allocated data_allocated v of
             None \<Rightarrow> (hash, - 1)
           | Some replacement \<Rightarrow>
               (case kv_hash_insert alloc hash key replacement of
                  (hash, None) \<Rightarrow> (hash, - 1)
                | (hash, Some _) \<Rightarrow> (hash, 0))))"

definition kvs_hash_set ::
  "bool \<Rightarrow> bool \<Rightarrow> hash_alloc \<Rightarrow> bytes hashtable \<Rightarrow> bytes \<Rightarrow> bytes \<Rightarrow> bytes hashtable \<times> int" where
  "kvs_hash_set allocated data_allocated alloc hash key v = set_bytes allocated data_allocated alloc hash key v False"

definition kvs_hash_get :: "bytes hashtable \<Rightarrow> bytes \<Rightarrow> bytes option" where
  "kvs_hash_get hash key = (case kv_hash_find hash key of None \<Rightarrow> None | Some node \<Rightarrow> Some (payload node))"

definition kvs_hash_delete :: "bytes hashtable \<Rightarrow> bytes \<Rightarrow> bytes hashtable \<times> int" where
  "kvs_hash_delete hash key =
     (case kv_hash_remove hash key of (hash, None) \<Rightarrow> (hash, - 1) | (hash, Some v) \<Rightarrow> (hash, 0))"

definition kvs_hash_modify :: "bool \<Rightarrow> bool \<Rightarrow> bytes hashtable \<Rightarrow> bytes \<Rightarrow> bytes \<Rightarrow> bytes hashtable \<times> int" where
  "kvs_hash_modify allocated data_allocated hash key v =
     (case kv_hash_find hash key of
        None \<Rightarrow> (hash, - 1)
      | Some node \<Rightarrow>
          (case legacy_value_create allocated data_allocated v of
             None \<Rightarrow> (hash, - 1)
           | Some replacement \<Rightarrow> (kv_hash_node_set_payload hash key replacement, 0)))"

definition kvs_hash_count :: "bytes hashtable \<Rightarrow> int" where
  "kvs_hash_count hash = (let count = kv_hash_count hash in if int count > 2 ^ 31 - 1 then 2 ^ 31 - 1 else int count)"

definition kvs_hash_upsert_bytes ::
  "bool \<Rightarrow> bool \<Rightarrow> hash_alloc \<Rightarrow> bytes hashtable \<Rightarrow> bytes \<Rightarrow> bytes \<Rightarrow> bytes hashtable \<times> int" where
  "kvs_hash_upsert_bytes allocated data_allocated alloc hash key v = set_bytes allocated data_allocated alloc hash key v True"

definition kvs_hash_get_bytes :: "bytes hashtable \<Rightarrow> bytes \<Rightarrow> bytes option" where
  "kvs_hash_get_bytes hash key = (case kv_hash_find hash key of None \<Rightarrow> None | Some node \<Rightarrow> Some (payload node))"

definition kvs_hash_delete_bytes :: "bytes hashtable \<Rightarrow> bytes \<Rightarrow> bytes hashtable \<times> int" where
  "kvs_hash_delete_bytes hash key =
     (case kv_hash_remove hash key of (hash, None) \<Rightarrow> (hash, 0) | (hash, Some v) \<Rightarrow> (hash, 1))"

definition exist_kv_hashtable :: "bytes hashtable \<Rightarrow> bytes \<Rightarrow> bool" where
  "exist_kv_hashtable hash key \<longleftrightarrow> kvs_hash_get hash key \<noteq> None"

subsection \<open>The contract\<close>

text \<open>A call and its answer 0 change the abstract map; every other answer leaves it alone.\<close>

datatype engine_call = Set_call bytes bytes | Del_call bytes | Mod_call bytes bytes

locale text_engine =
  fixes inv :: "'s \<Rightarrow> bool"
    and view :: "'s \<Rightarrow> bytes \<Rightarrow> bytes option"
    and set_op :: "'a \<Rightarrow> 's \<Rightarrow> bytes \<Rightarrow> bytes \<Rightarrow> 's \<times> int"
    and get_op :: "'s \<Rightarrow> bytes \<Rightarrow> bytes option"
    and del_op :: "'s \<Rightarrow> bytes \<Rightarrow> 's \<times> int"
    and mod_op :: "'a \<Rightarrow> 's \<Rightarrow> bytes \<Rightarrow> bytes \<Rightarrow> 's \<times> int"
  assumes set_law: "inv s \<Longrightarrow> set_op a s k v = (s', r) \<Longrightarrow>
      inv s' \<and> (r = 0 \<and> view s k = None \<and> view s' = (view s)(k \<mapsto> v) \<or> r \<noteq> 0 \<and> view s' = view s)"
    and get_law: "inv s \<Longrightarrow> get_op s k = view s k"
    and del_law: "inv s \<Longrightarrow> del_op s k = (s', r) \<Longrightarrow>
      inv s' \<and> (r = 0 \<longleftrightarrow> view s k \<noteq> None) \<and> view s' = (view s)(k := None)"
    and mod_law: "inv s \<Longrightarrow> mod_op a s k v = (s', r) \<Longrightarrow>
      inv s' \<and> (r = 0 \<and> view s k \<noteq> None \<and> view s' = (view s)(k \<mapsto> v) \<or> r \<noteq> 0 \<and> view s' = view s)"
begin

fun run_call :: "'a \<Rightarrow> engine_call \<Rightarrow> 's \<Rightarrow> 's \<times> int" where
  "run_call a (Set_call k v) s = set_op a s k v"
| "run_call a (Del_call k) s = del_op s k"
| "run_call a (Mod_call k v) s = mod_op a s k v"

fun run_calls :: "('a \<times> engine_call) list \<Rightarrow> 's \<Rightarrow> 's \<times> int list" where
  "run_calls [] s = (s, [])"
| "run_calls ((a, c) # cs) s =
     (case run_call a c s of (s, r) \<Rightarrow> case run_calls cs s of (s, rs) \<Rightarrow> (s, r # rs))"

fun answered_map :: "engine_call \<Rightarrow> int \<Rightarrow> (bytes \<rightharpoonup> bytes) \<Rightarrow> (bytes \<rightharpoonup> bytes)" where
  "answered_map (Set_call k v) r m = (if r = 0 then m(k \<mapsto> v) else m)"
| "answered_map (Del_call k) r m = (if r = 0 then m(k := None) else m)"
| "answered_map (Mod_call k v) r m = (if r = 0 then m(k \<mapsto> v) else m)"

fun answered_maps :: "('a \<times> engine_call) list \<Rightarrow> int list \<Rightarrow> (bytes \<rightharpoonup> bytes) \<Rightarrow> (bytes \<rightharpoonup> bytes)" where
  "answered_maps ((a, c) # cs) (r # rs) m = answered_maps cs rs (answered_map c r m)"
| "answered_maps _ _ m = m"

lemma run_call_view:
  assumes "inv s" "run_call a c s = (s', r)"
  shows "inv s'" "view s' = answered_map c r (view s)"
proof -
  have "inv s' \<and> view s' = answered_map c r (view s)"
  proof (cases c)
    case (Set_call k v)
    then show ?thesis using set_law [OF assms(1), of a k v s' r] assms(2) by auto
  next
    case (Del_call k)
    then show ?thesis using del_law [OF assms(1), of k s' r] assms(2) by (cases "view s k") (auto simp: fun_upd_idem)
  next
    case (Mod_call k v)
    then show ?thesis using mod_law [OF assms(1), of a k v s' r] assms(2) by auto
  qed
  then show "inv s'" "view s' = answered_map c r (view s)" by auto
qed

lemma engine_refines:
  "inv s \<Longrightarrow> run_calls cs s = (s', rs) \<Longrightarrow> inv s' \<and> view s' = answered_maps cs rs (view s) \<and> get_op s' k = answered_maps cs rs (view s) k"
proof (induction cs arbitrary: s rs)
  case Nil
  then show ?case using get_law by auto
next
  case (Cons ac cs)
  obtain a c where ac: "ac = (a, c)" by (cases ac)
  obtain s1 r where r: "run_call a c s = (s1, r)" by fastforce
  obtain rs' where rs: "run_calls cs s1 = (s', rs')" "rs = r # rs'"
    using Cons.prems(2) r ac by (auto split: prod.splits)
  note v = run_call_view [OF Cons.prems(1) r]
  from Cons.IH [OF v(1) rs(1)] v(2) ac rs(2) show ?case by simp
qed

end

subsection \<open>The array implements it\<close>

abbreviation used_items :: "array \<Rightarrow> kvs_array_item list" where
  "used_items arr \<equiv> take (array_idx arr) (array_table arr)"

definition array_inv :: "array \<Rightarrow> bool" where
  "array_inv arr \<longleftrightarrow> length (array_table arr) = KVS_ARRAY_SIZE \<and> array_idx arr \<le> KVS_ARRAY_SIZE
     \<and> (\<forall>item \<in> set (used_items arr). item_key item \<noteq> None \<and> item_value item \<noteq> None)
     \<and> distinct (map item_key (used_items arr))"

definition items_map :: "kvs_array_item list \<Rightarrow> bytes \<Rightarrow> bytes option" where
  "items_map items = map_of (map (\<lambda>item. (the (item_key item), the (item_value item))) items)"

definition array_view :: "array \<Rightarrow> bytes \<Rightarrow> bytes option" where
  "array_view arr = items_map (used_items arr)"

lemma array_scan_Some:
  "array_scan items key n = Some i \<Longrightarrow> n \<le> i \<and> i - n < length items \<and> item_key (items ! (i - n)) = Some key"
  by (induction items key n rule: array_scan.induct) (auto split: if_splits simp: nth_Cons' Suc_diff_Suc)

lemma array_scan_None: "array_scan items key n = None \<longleftrightarrow> Some key \<notin> item_key ` set items"
  by (induction items key n rule: array_scan.induct) auto

lemma items_map_None:
  "\<forall>item \<in> set items. item_key item \<noteq> None \<Longrightarrow> items_map items key = None \<longleftrightarrow> Some key \<notin> item_key ` set items"
proof (induction items)
  case (Cons item items)
  then obtain k where "item_key item = Some k" by auto
  with Cons show ?case by (simp add: items_map_def)
qed (simp add: items_map_def)

lemma items_map_nth:
  assumes "distinct (map item_key items)" "\<forall>item \<in> set items. item_key item \<noteq> None \<and> item_value item \<noteq> None"
    and "i < length items" "item_key (items ! i) = Some key"
  shows "items_map items key = item_value (items ! i)"
proof -
  have "inj_on the (set (map item_key items))" 
  proof (rule inj_onI)
    fix x y assume "x \<in> set (map item_key items)" "y \<in> set (map item_key items)" "the x = the y"
    moreover from this have "x \<noteq> None" "y \<noteq> None" using assms(2) by auto
    ultimately show "x = y" using option.expand by metis
  qed
  then have "distinct (map the (map item_key items))" using assms(1) by (simp only: distinct_map [of the] simp_thms)
  then have "distinct (map fst (map (\<lambda>item. (the (item_key item), the (item_value item))) items))" by (simp add: comp_def)
  moreover have "(key, the (item_value (items ! i))) \<in> set (map (\<lambda>item. (the (item_key item), the (item_value item))) items)"
    using assms(3,4) by (auto simp: image_iff intro!: bexI [of _ "items ! i"])
  ultimately show ?thesis using assms(2,3) by (simp add: items_map_def)
qed

lemma position_ok:
  assumes "array_inv arr"
  shows "array_position arr key = None \<longleftrightarrow> array_view arr key = None"
    "array_position arr key = Some i \<Longrightarrow> i < array_idx arr \<and> item_key (array_table arr ! i) = Some key
       \<and> array_view arr key = item_value (array_table arr ! i) \<and> array_view arr key \<noteq> None"
proof -
  have it: "\<forall>item \<in> set (used_items arr). item_key item \<noteq> None \<and> item_value item \<noteq> None" "distinct (map item_key (used_items arr))"
    "array_idx arr \<le> length (array_table arr)" using assms by (auto simp: array_inv_def)
  show "array_position arr key = None \<longleftrightarrow> array_view arr key = None"
    unfolding array_view_def array_scan_None by (subst items_map_None) (use it(1) in auto)
  assume "array_position arr key = Some i"
  from array_scan_Some [OF this] it(3) have i: "i < array_idx arr" "item_key (used_items arr ! i) = Some key" by auto
  have "array_view arr key = item_value (used_items arr ! i)"
    unfolding array_view_def using items_map_nth [OF it(2,1), of i key] i it(3) by simp
  moreover have "used_items arr ! i \<in> set (used_items arr)" using i(1) it(3) by (intro nth_mem) simp
  then have "item_value (used_items arr ! i) \<noteq> None" using it(1) by blast
  ultimately show "i < array_idx arr \<and> item_key (array_table arr ! i) = Some key
       \<and> array_view arr key = item_value (array_table arr ! i) \<and> array_view arr key \<noteq> None" using i by auto
qed

lemma items_map_iff:
  assumes "distinct (map item_key items)" "\<forall>item \<in> set items. item_key item \<noteq> None \<and> item_value item \<noteq> None"
  shows "items_map items key = Some v \<longleftrightarrow> (\<exists>item \<in> set items. item_key item = Some key \<and> item_value item = Some v)"
proof
  assume "items_map items key = Some v"
  then have "(key, v) \<in> set (map (\<lambda>item. (the (item_key item), the (item_value item))) items)"
    unfolding items_map_def by (rule map_of_SomeD)
  then show "\<exists>item \<in> set items. item_key item = Some key \<and> item_value item = Some v" using assms(2) by fastforce
next
  assume "\<exists>item \<in> set items. item_key item = Some key \<and> item_value item = Some v"
  then show "items_map items key = Some v" using items_map_nth [OF assms] by (auto simp: in_set_conv_nth)
qed

lemma map_eqI: "(\<And>q v. f q = Some v \<longleftrightarrow> g q = Some v) \<Longrightarrow> f = g"
  by (rule ext) (metis not_Some_eq)

lemma take_put: "i < length t \<Longrightarrow> take (i + 1) (t[i := x]) = take i t @ [x]"
  by (simp add: take_Suc_conv_app_nth)

lemma array_set_ok:
  assumes inv: "array_inv arr" and s: "kvs_array_set a b arr k v = (arr', r)"
  shows "array_inv arr' \<and> (r = 0 \<and> array_view arr k = None \<and> array_view arr' = (array_view arr)(k \<mapsto> v)
    \<or> r \<noteq> 0 \<and> array_view arr' = array_view arr)"
proof (cases "r = 0")
  case False
  then have "arr' = arr" using s by (auto simp: kvs_array_set_def split: if_splits option.splits)
  with False inv show ?thesis by simp
next
  case True
  let ?x = "\<lparr>item_key = Some k, item_value = Some v\<rparr>"
  have full: "array_idx arr \<noteq> KVS_ARRAY_SIZE" and pos: "array_position arr k = None"
    and arr': "arr' = arr\<lparr>array_table := (array_table arr)[array_idx arr := ?x], array_idx := array_idx arr + 1\<rparr>"
    using s True by (auto simp: kvs_array_set_def split: if_splits option.splits)
  have lt: "array_idx arr < length (array_table arr)" using inv full by (auto simp: array_inv_def)
  have u: "used_items arr' = used_items arr @ [?x]" using take_put [OF lt] by (simp add: arr')
  have none: "array_view arr k = None" "Some k \<notin> item_key ` set (used_items arr)"
    using position_ok(1) [OF inv] pos array_scan_None by auto
  have "array_inv arr'" using inv none(2) lt full unfolding array_inv_def u by (auto simp: arr')
  moreover have "array_view arr' = (array_view arr)(k \<mapsto> v)"
    using none(1) unfolding array_view_def u by (auto simp: items_map_def map_add_def fun_eq_iff split: option.splits)
  ultimately show ?thesis using True none(1) by blast
qed

lemma drop_item:
  assumes "i < length items"
  shows "mset items = add_mset (items ! i) (mset (butlast (items[i := last items])))"
proof -
  let ?n = "length items - 1"
  have ne: "items \<noteq> []" using assms by auto
  show ?thesis
  proof (cases "i = ?n")
    case True
    then have "butlast (items[i := last items]) = butlast items" "items ! i = last items"
      using ne by (simp_all add: butlast_list_update last_conv_nth)
    then show ?thesis using ne append_butlast_last_id [of items] mset_append [of "butlast items" "[last items]"] by simp
  next
    case False
    then have i: "i < length (butlast items)" using assms by simp
    have "mset items = add_mset (last items) (mset (butlast items))"
      using ne append_butlast_last_id [of items] mset_append [of "butlast items" "[last items]"] by simp
    moreover have "mset ((butlast items)[i := last items]) = add_mset (last items) (mset (butlast items) - {#butlast items ! i#})"
      using mset_update [OF i] by simp
    moreover have "butlast items ! i = items ! i" using i by (simp add: nth_butlast)
    moreover have "mset (butlast items) = add_mset (items ! i) (mset (butlast items) - {#items ! i#})"
      using nth_mem_mset [OF i] calculation(3) by (simp add: insert_DiffM)
    moreover have "butlast (items[i := last items]) = (butlast items)[i := last items]"
      using False by (simp add: butlast_list_update)
    ultimately show ?thesis by (metis add_mset_commute)
  qed
qed

lemma array_del_ok:
  assumes inv: "array_inv arr" and d: "kvs_array_del arr k = (arr', r)"
  shows "array_inv arr' \<and> (r = 0 \<longleftrightarrow> array_view arr k \<noteq> None) \<and> array_view arr' = (array_view arr)(k := None)"
proof (cases "array_position arr k")
  case None
  then have "arr' = arr" "r = 1" "array_view arr k = None"
    using d position_ok(1) [OF inv, of k] by (simp_all add: kvs_array_del_def)
  then show ?thesis using inv by (simp add: fun_upd_idem)
next
  case (Some i)
  let ?n = "array_idx arr - 1" and ?t = "array_table arr" and ?u = "used_items arr"
  note p = position_ok(2) [OF inv Some]
  have len: "array_idx arr \<le> length ?t" "length ?t = KVS_ARRAY_SIZE" using inv by (auto simp: array_inv_def)
  have lu: "length ?u = array_idx arr" "i < length ?u" using p len by auto
  have arr': "array_idx arr' = ?n" "length (array_table arr') = length ?t" "r = 0"
    using d Some by (auto simp: kvs_array_del_def Let_def)
  have u': "used_items arr' = butlast (?u[i := last ?u])"
  proof (rule nth_equalityI)
    show "length (used_items arr') = length (butlast (?u[i := last ?u]))" using arr' lu len by simp
    fix j assume "j < length (used_items arr')"
    then have "j < ?n" using arr' by simp
    moreover have "last ?u = ?t ! ?n" using lu len p by (subst last_conv_nth) auto
    ultimately show "used_items arr' ! j = butlast (?u[i := last ?u]) ! j"
      using d Some p len lu by (auto simp: kvs_array_del_def Let_def nth_butlast nth_list_update)
  qed
  have m: "mset ?u = add_mset (?u ! i) (mset (used_items arr'))" unfolding u' by (rule drop_item [OF lu(2)])
  have it: "\<forall>item \<in> set ?u. item_key item \<noteq> None \<and> item_value item \<noteq> None" "distinct (map item_key ?u)"
    using inv by (auto simp: array_inv_def)
  have su: "set ?u = insert (?u ! i) (set (used_items arr'))" using m by (metis set_mset_add_mset_insert set_mset_mset)
  have "mset (map item_key ?u) = add_mset (Some k) (mset (map item_key (used_items arr')))" using m p lu by simp
  then have ds: "distinct (Some k # map item_key (used_items arr'))" using it(2) by (metis mset.simps(2) mset_eq_imp_distinct_iff)
  have it': "\<forall>item \<in> set (used_items arr'). item_key item \<noteq> None \<and> item_value item \<noteq> None" using it(1) su by blast
  have "array_inv arr'" using inv arr' it' ds by (auto simp: array_inv_def)
  moreover have "array_view arr' = (array_view arr)(k := None)"
  proof (rule map_eqI)
    fix q v
    have "array_view arr' q = Some v \<longleftrightarrow> (\<exists>item \<in> set (used_items arr'). item_key item = Some q \<and> item_value item = Some v)"
      unfolding array_view_def using items_map_iff [OF _ it'] ds by auto
    moreover have "array_view arr q = Some v \<longleftrightarrow> (\<exists>item \<in> set ?u. item_key item = Some q \<and> item_value item = Some v)"
      unfolding array_view_def by (rule items_map_iff [OF it(2,1)])
    moreover have "item_key item \<noteq> Some k" if "item \<in> set (used_items arr')" for item using ds that by force
    moreover have "item_key (?u ! i) = Some k" using p lu by simp
    ultimately show "array_view arr' q = Some v \<longleftrightarrow> ((array_view arr)(k := None)) q = Some v" unfolding su by auto
  qed
  ultimately show ?thesis using p arr'(3) by blast
qed

lemma array_mod_ok:
  assumes inv: "array_inv arr" and m: "kvs_array_mod a arr k v = (arr', r)"
  shows "array_inv arr' \<and> (r = 0 \<and> array_view arr k \<noteq> None \<and> array_view arr' = (array_view arr)(k \<mapsto> v)
    \<or> r \<noteq> 0 \<and> array_view arr' = array_view arr)"
proof (cases "r = 0")
  case False
  then have "arr' = arr" using m by (auto simp: kvs_array_mod_def split: if_splits option.splits)
  with False inv show ?thesis by simp
next
  case True
  then obtain i where i: "array_position arr k = Some i"
    "arr' = arr\<lparr>array_table := (array_table arr)[i := (array_table arr ! i)\<lparr>item_value := Some v\<rparr>]\<rparr>"
    using m by (auto simp: kvs_array_mod_def split: if_splits option.splits)
  note p = position_ok(2) [OF inv i(1)]
  let ?u = "used_items arr"
  have lu: "i < length ?u" using p inv by (auto simp: array_inv_def)
  have it: "\<forall>item \<in> set ?u. item_key item \<noteq> None \<and> item_value item \<noteq> None" "distinct (map item_key ?u)"
    using inv by (auto simp: array_inv_def)
  have u': "used_items arr' = ?u[i := (?u ! i)\<lparr>item_value := Some v\<rparr>]" using p by (simp add: i(2) take_update_swap)
  have "map item_key (used_items arr') = (map item_key ?u)[i := map item_key ?u ! i]"
    unfolding u' map_update using lu by simp
  then have keys: "map item_key (used_items arr') = map item_key ?u" by (simp only: list_update_id)
  have it': "\<forall>item \<in> set (used_items arr'). item_key item \<noteq> None \<and> item_value item \<noteq> None"
    unfolding u' using it(1) lu p by (auto dest!: set_update_subset_insert [THEN subsetD])
  have "array_inv arr'" using inv it' keys i(2) by (simp add: array_inv_def)
  moreover have "array_view arr' = (array_view arr)(k \<mapsto> v)"
  proof -
    obtain xs x ys where sp: "?u = xs @ x # ys" "x = ?u ! i" "xs = take i ?u"
      and sp': "used_items arr' = xs @ x\<lparr>item_value := Some v\<rparr> # ys"
      using id_take_nth_drop [OF lu] upd_conv_take_nth_drop [OF lu] u' by metis
    have k: "item_key x = Some k" using p lu by (simp add: sp(2))
    have "Some k \<notin> item_key ` set xs" using it(2) k unfolding sp(1) by simp
    moreover have "\<forall>item \<in> set xs. item_key item \<noteq> None" using it(1) unfolding sp(1) by simp
    ultimately have "items_map xs k = None" using items_map_None by blast
    then have "items_map (xs @ x\<lparr>item_value := Some v\<rparr> # ys) = (items_map (xs @ x # ys))(k \<mapsto> v)"
      using k by (auto simp: items_map_def map_add_def fun_eq_iff split: option.splits)
    then show ?thesis unfolding array_view_def sp' sp(1) .
  qed
  ultimately show ?thesis using True p by blast
qed

lemma array_get_ok: "array_inv arr \<Longrightarrow> kvs_array_get arr k = array_view arr k"
  using position_ok [of arr k] by (auto simp: kvs_array_get_def split: option.splits)

interpretation array_engine: text_engine array_inv array_view
  "\<lambda>(a, b) arr k v. kvs_array_set a b arr k v" kvs_array_get kvs_array_del "\<lambda>(a, b) arr k v. kvs_array_mod b arr k v"
proof
  show "array_inv arr \<Longrightarrow> (case a of (a, b) \<Rightarrow> \<lambda>arr k v. kvs_array_set a b arr k v) arr k v = (arr', r) \<Longrightarrow>
      array_inv arr' \<and> (r = 0 \<and> array_view arr k = None \<and> array_view arr' = (array_view arr)(k \<mapsto> v) \<or> r \<noteq> 0 \<and> array_view arr' = array_view arr)"
    for arr a k v arr' r using array_set_ok by (cases a) auto
  show "array_inv arr \<Longrightarrow> (case a of (a, b) \<Rightarrow> \<lambda>arr k v. kvs_array_mod b arr k v) arr k v = (arr', r) \<Longrightarrow>
      array_inv arr' \<and> (r = 0 \<and> array_view arr k \<noteq> None \<and> array_view arr' = (array_view arr)(k \<mapsto> v) \<or> r \<noteq> 0 \<and> array_view arr' = array_view arr)"
    for arr a k v arr' r using array_mod_ok by (cases a) auto
qed (use array_get_ok array_del_ok in auto)

subsection \<open>The hash table implements it\<close>

lemma set_bytes_ok:
  assumes inv: "hash_inv h" and s: "set_bytes a b alloc h k v overwrite = (h', r)"
  shows "hash_inv h' \<and> (r = 0 \<and> (overwrite \<or> hash_map h k = None) \<and> hash_map h' = (hash_map h)(k \<mapsto> v) \<or> r \<noteq> 0 \<and> hash_map h' = hash_map h)"
proof -
  obtain g m where g: "kv_hash_rehash_step h 1 = (g, m)" by fastforce
  note r = kv_hash_rehash_step_ok [OF inv g]
  have f: "map_option payload (kv_hash_find g k) = hash_map h k" using kv_hash_find_map [of g k] r by simp
  show ?thesis
  proof (cases "kv_hash_find g k")
    case (Some node)
    then have p: "hash_map g k \<noteq> None" using f r by (metis option.simps(3,9))
    with Some s g r kv_hash_node_set_payload_ok [of g k v] show ?thesis
      by (auto simp: set_bytes_def legacy_value_create_def Let_def split: if_splits)
  next
    case None
    obtain g' x where i: "kv_hash_insert alloc g k v = (g', x)" by fastforce
    have n: "hash_map h k = None" using None f by simp
    have "hash_inv g' \<and> (case x of None \<Rightarrow> hash_map g' = hash_map h | Some _ \<Rightarrow> hash_map g' = (hash_map h)(k \<mapsto> v))"
      using kv_hash_insert_ok [OF _ i] r by (auto split: option.splits)
    with None s g i r n show ?thesis
      by (auto simp: set_bytes_def legacy_value_create_def Let_def split: if_splits option.splits)
  qed
qed

lemma hash_modify_ok:
  assumes inv: "hash_inv h" and m: "kvs_hash_modify a b h k v = (h', r)"
  shows "hash_inv h' \<and> (r = 0 \<and> hash_map h k \<noteq> None \<and> hash_map h' = (hash_map h)(k \<mapsto> v) \<or> r \<noteq> 0 \<and> hash_map h' = hash_map h)"
  using m inv kv_hash_find_map [OF inv, of k, symmetric] kv_hash_node_set_payload_ok [OF inv, of k v]
  by (auto simp: kvs_hash_modify_def legacy_value_create_def split: option.splits if_splits)

lemma engine_hash_delete_ok:
  assumes inv: "hash_inv h" and d: "kvs_hash_delete h k = (h', r)"
  shows "hash_inv h' \<and> (r = 0 \<longleftrightarrow> hash_map h k \<noteq> None) \<and> hash_map h' = (hash_map h)(k := None)"
proof -
  obtain g x where g: "kv_hash_remove h k = (g, x)" by fastforce
  from kv_hash_remove_ok [OF inv g] d g show ?thesis by (auto simp: kvs_hash_delete_def split: option.splits)
qed

lemma legacy_get_ok: "hash_inv h \<Longrightarrow> kvs_hash_get h k = hash_map h k"
  using kv_hash_find_map [of h k] by (auto simp: kvs_hash_get_def split: option.splits)

interpretation hash_engine: text_engine hash_inv hash_map
  "\<lambda>(a, b, alloc) h k v. kvs_hash_set a b alloc h k v" kvs_hash_get kvs_hash_delete
  "\<lambda>(a, b, alloc) h k v. kvs_hash_modify a b h k v"
proof
  show "hash_inv h \<Longrightarrow> (case a of (a, b, alloc) \<Rightarrow> \<lambda>h k v. kvs_hash_set a b alloc h k v) h k v = (h', r) \<Longrightarrow>
      hash_inv h' \<and> (r = 0 \<and> hash_map h k = None \<and> hash_map h' = (hash_map h)(k \<mapsto> v) \<or> r \<noteq> 0 \<and> hash_map h' = hash_map h)"
    for h a k v h' r using set_bytes_ok [where overwrite = False] by (cases a) (auto simp: kvs_hash_set_def)
  show "hash_inv h \<Longrightarrow> (case a of (a, b, alloc) \<Rightarrow> \<lambda>h k v. kvs_hash_modify a b h k v) h k v = (h', r) \<Longrightarrow>
      hash_inv h' \<and> (r = 0 \<and> hash_map h k \<noteq> None \<and> hash_map h' = (hash_map h)(k \<mapsto> v) \<or> r \<noteq> 0 \<and> hash_map h' = hash_map h)"
    for h a k v h' r using hash_modify_ok by (cases a) auto
qed (use legacy_get_ok engine_hash_delete_ok in auto)

subsection \<open>Properties\<close>

text \<open>
  C36. Both engines of the text protocol are maps: after any sequence of calls on a fresh engine, whatever
  the allocator answers, a lookup returns what the calls that answered 0 have stored.
\<close>

theorem text_engines_refine:
  assumes "kvstore_array_create True = Some arr" "array_engine.run_calls calls arr = (arr', rs)"
    and "kv_hash_create True True = Some h" "hash_engine.run_calls calls2 h = (h', rs2)"
  shows "kvs_array_get arr' key = array_engine.answered_maps calls rs Map.empty key
    \<and> kvs_hash_get h' key = hash_engine.answered_maps calls2 rs2 Map.empty key"
proof -
  have a: "array_inv arr" "array_view arr = Map.empty"
    using assms(1) by (auto simp: kvstore_array_create_def array_inv_def array_view_def items_map_def)
  have h: "hash_inv h" "hash_map h = Map.empty" using kv_hash_create_ok [OF assms(3)] by auto
  from array_engine.engine_refines [OF a(1) assms(2), of key] hash_engine.engine_refines [OF h(1) assms(4), of key] a(2) h(2)
  show ?thesis by simp
qed

theorem text_engines_refine_witness:
  "\<exists>arr arr' rs. kvstore_array_create True = Some arr
    \<and> array_engine.run_calls [((True, True), Set_call [107] [118])] arr = (arr', rs) \<and> rs = [0] \<and> kvs_array_get arr' [107] = Some [118]"
proof -
  obtain h :: "bytes hashtable" where h: "kv_hash_create True True = Some h" using kv_hash_create_some [where 'p = bytes] by blast
  let ?arr = "\<lparr>array_table = replicate KVS_ARRAY_SIZE empty_item, array_idx = 0\<rparr>"
  have c: "kvstore_array_create True = Some ?arr" by (simp add: kvstore_array_create_def)
  obtain arr' where r: "array_engine.run_calls [((True, True), Set_call [107] [118])] ?arr = (arr', [0])"
  proof -
    obtain arr' where "kvs_array_set True True ?arr [107] [118] = (arr', 0)" by (simp add: kvs_array_set_def KVS_ARRAY_SIZE_def)
    with that [of arr'] show thesis by simp
  qed
  from text_engines_refine [OF c r h, of "[]" h "[]" "[107]"] r c show ?thesis by auto
qed

end
