(* ===== verification/Service.thy ===== *)
theory Service
  imports Cache Aof Command
begin

text \<open>
  The command layer (\<open>src/src/service/kvstore_resp_service.c\<close>): it executes a request on the cache,
  appends what the request changed to the append-only file, and hands the change to MySQL.
  A handler returns the new state and the reply; the outer option is that of the eviction loop of
  the cache.  Answers of the clock, the allocator and the MySQL queue are in the record
  \<open>service_env\<close>; a fresh one belongs to every request.
  The keys the cache evicts during a call are those by which \<open>evict_log\<close> has grown; the callback
  \<open>record_eviction\<close> touches the log only, so that it may run after the call.
  The commands on sorted sets and the text of INFO are arguments of the model.
\<close>

subsection \<open>State\<close>

record ('m, 'o) service =
  service_cache :: "('m, 'o) cache"
  service_aof :: "aof option"
  aof_flush_failure_reported :: bool
  reply_element_capacity :: nat
  dirty_changes :: u64
  mysql_store :: bool
  mysql_writer_uuid :: bytes
  mysql_next_sequence :: u64
  mysql_candidate_sequence :: u64
  mysql_recording_command :: bool
  mysql_mutation :: "bytes list"
  mysql_mutation_buffer_capacity :: nat
  mysql_submissions :: "(u64 \<times> bytes list) list"

record service_env =
  clock :: "nat \<Rightarrow> u64"
  string_allocated :: bool
  hash_allocated :: "nat \<Rightarrow> bool"
  field_allocated :: "nat \<Rightarrow> bool"
  field_alloc :: "nat \<Rightarrow> hash_alloc"
  clone_allocated :: "nat \<Rightarrow> bool"
  clone_alloc :: "nat \<Rightarrow> hash_alloc"
  entry_alloc :: cache_alloc
  record_allocated :: "nat \<Rightarrow> bool"
  mutation_allocated :: "nat \<Rightarrow> bool"
  marker_allocated :: bool
  commit_allocated :: "nat \<Rightarrow> bool"
  elements_allocated :: bool
  can_accept_write :: bool
  mutation_submitted :: bool
  save_callback :: "(bool \<Rightarrow> aof_error option) option"
  lastsave_callback :: "int option"

subsection \<open>Recording a change\<close>

fun required_bytes :: "nat \<Rightarrow> bytes list \<Rightarrow> nat option" where
  "required_bytes required [] = Some required"
| "required_bytes required (a # as) =
     (if length a > SIZE_MAX - required then None else required_bytes (required + length a) as)"

definition capture_mysql_mutation ::
  "bool \<Rightarrow> ('m, 'o) service \<Rightarrow> bytes list \<Rightarrow> ('m, 'o) service \<times> bool" where
  "capture_mysql_mutation allocated s arguments =
     (if \<not> mysql_recording_command s \<or> \<not> mysql_store s then (s, True)
      else if length arguments = 0 \<or> length arguments > 128 then (s, False)
      else case required_bytes 0 arguments of
        None \<Rightarrow> (s, False)
      | Some required \<Rightarrow>
          if required > mysql_mutation_buffer_capacity s then
            let capacity = doubled_capacity SIZE_MAX required required
                  (if mysql_mutation_buffer_capacity s = 0 then 512 else mysql_mutation_buffer_capacity s) in
            if \<not> allocated then (s, False)
            else (s\<lparr>mysql_mutation := arguments, mysql_mutation_buffer_capacity := capacity\<rparr>, True)
          else (s\<lparr>mysql_mutation := arguments\<rparr>, True))"

text \<open>\<open>k\<close> counts the records the request has appended before.\<close>

definition append_aof_record ::
  "service_env \<Rightarrow> nat \<Rightarrow> ('m, 'o) service \<Rightarrow> aof \<Rightarrow> bytes list \<Rightarrow> ('m, 'o) service \<times> bool" where
  "append_aof_record env k s aof arguments =
     (case aof_append (record_allocated env k) aof arguments of
        (aof, Some e) \<Rightarrow> (s\<lparr>service_aof := Some aof\<rparr>, False)
      | (aof, None) \<Rightarrow> capture_mysql_mutation (mutation_allocated env k) (s\<lparr>service_aof := Some aof\<rparr>) arguments)"

definition append_key_command ::
  "service_env \<Rightarrow> nat \<Rightarrow> ('m, 'o) service \<Rightarrow> string \<Rightarrow> bytes \<Rightarrow> ('m, 'o) service \<times> bool" where
  "append_key_command env k s command key =
     (case service_aof s of
        None \<Rightarrow> (s, True)
      | Some aof \<Rightarrow> append_aof_record env k s aof [ascii command, key])"

definition append_deadline_command ::
  "service_env \<Rightarrow> nat \<Rightarrow> ('m, 'o) service \<Rightarrow> string \<Rightarrow> bytes \<Rightarrow> u64 \<Rightarrow> ('m, 'o) service \<times> bool" where
  "append_deadline_command env k s command key deadline =
     (case service_aof s of
        None \<Rightarrow> (s, True)
      | Some aof \<Rightarrow> append_aof_record env k s aof [ascii command, key, decimal_text (unat deadline)])"

definition append_set_command ::
  "service_env \<Rightarrow> nat \<Rightarrow> ('m, 'o) service \<Rightarrow> bytes list \<Rightarrow> u64 \<Rightarrow> ('m, 'o) service \<times> bool" where
  "append_set_command env k s arguments deadline =
     (case service_aof s of
        None \<Rightarrow> (s, True)
      | Some aof \<Rightarrow>
          append_aof_record env k s aof
            ([ascii ''SET'', arguments ! 1, arguments ! 2] @
             (if deadline \<noteq> 0 then [ascii ''PXAT'', decimal_text (unat deadline)] else [])))"

definition append_original_command ::
  "service_env \<Rightarrow> nat \<Rightarrow> ('m, 'o) service \<Rightarrow> bytes list \<Rightarrow> ('m, 'o) service \<times> bool" where
  "append_original_command env k s arguments =
     (case service_aof s of
        None \<Rightarrow> (s, True)
      | Some aof \<Rightarrow>
          if length arguments = 0 \<or> length arguments > RESP_MAX_ARGUMENTS then (s, False)
          else append_aof_record env k s aof arguments)"

definition record_eviction ::
  "service_env \<Rightarrow> nat \<Rightarrow> ('m, 'o) service \<Rightarrow> bytes \<Rightarrow> ('m, 'o) service" where
  "record_eviction env k s key = fst (append_key_command env k s ''DEL'' key)"

fun record_evictions ::
  "service_env \<Rightarrow> nat \<Rightarrow> ('m, 'o) service \<Rightarrow> bytes list \<Rightarrow> ('m, 'o) service" where
  "record_evictions env k s [] = s"
| "record_evictions env k s (key # keys) = record_evictions env (k + 1) (record_eviction env k s key) keys"

text \<open>The keys evicted between two states of the cache.\<close>

definition evictions :: "('m, 'o) cache \<Rightarrow> ('m, 'o) cache \<Rightarrow> bytes list" where
  "evictions c c' = drop (length (evict_log c)) (evict_log c')"

definition after_cache ::
  "service_env \<Rightarrow> ('m, 'o) service \<Rightarrow> ('m, 'o) cache \<Rightarrow> ('m, 'o) service" where
  "after_cache env s c = record_evictions env 0 (s\<lparr>service_cache := c\<rparr>) (evictions (service_cache s) c)"

subsection \<open>Setting up\<close>

text \<open>The flags answer for the allocations of \<open>cache_create\<close>.\<close>

definition kvstore_service_init ::
  "bool \<Rightarrow> bool \<Rightarrow> bool \<Rightarrow> nat \<Rightarrow> u64 \<Rightarrow> ('m, 'o) service option" where
  "kvstore_service_init allocated index_struct index_buckets keys memory =
     (case cache_create allocated index_struct index_buckets keys memory of
        None \<Rightarrow> None
      | Some c \<Rightarrow> Some
          \<lparr>service_cache = cache_set_eviction_callback c True, service_aof = None,
           aof_flush_failure_reported = False, reply_element_capacity = 0, dirty_changes = 0,
           mysql_store = False, mysql_writer_uuid = replicate 16 0, mysql_next_sequence = 0,
           mysql_candidate_sequence = 0, mysql_recording_command = False, mysql_mutation = [],
           mysql_mutation_buffer_capacity = 0, mysql_submissions = []\<rparr>)"

definition kvstore_service_maintain :: "u64 \<Rightarrow> ('m, 'o) service \<Rightarrow> ('m, 'o) service" where
  "kvstore_service_maintain now s = s\<lparr>service_cache := fst (cache_maintain now (service_cache s) 64 16)\<rparr>"

text \<open>
  \<open>waited\<close> is what the writer thread does to the file while the flush waits for it.
\<close>

definition kvstore_service_flush ::
  "(nat \<Rightarrow> bool) \<Rightarrow> (aof \<Rightarrow> aof) \<Rightarrow> ('m, 'o) service \<Rightarrow> ('m, 'o) service \<times> bool" where
  "kvstore_service_flush alloc waited s =
     (case (case service_aof s of
              None \<Rightarrow> (None, True)
            | Some aof \<Rightarrow>
                (case aof_flush_begin alloc aof of
                   (aof, Inl e) \<Rightarrow> (Some aof, False)
                 | (aof, Inr sequence) \<Rightarrow>
                     if sequence = 0 then (Some aof, True)
                     else (Some (waited aof), aof_flush_end (waited aof) = None))) of
        (aof, flushed) \<Rightarrow>
          let s = s\<lparr>service_aof := aof\<rparr> in
          if \<not> flushed \<and> \<not> aof_flush_failure_reported s
          then (s\<lparr>aof_flush_failure_reported := True\<rparr>, False) else (s, True))"

definition kvstore_service_attach_aof :: "('m, 'o) service \<Rightarrow> aof option \<Rightarrow> ('m, 'o) service" where
  "kvstore_service_attach_aof s aof = s\<lparr>service_aof := aof\<rparr>"

definition kvstore_service_attach_mysql ::
  "('m, 'o) service \<Rightarrow> bool \<Rightarrow> bytes option \<Rightarrow> u64 \<Rightarrow> ('m, 'o) service" where
  "kvstore_service_attach_mysql s store writer_uuid next_sequence' =
     s\<lparr>mysql_store := store, mysql_next_sequence := next_sequence',
       mysql_writer_uuid := (case writer_uuid of
          Some uuid \<Rightarrow> if store then take 16 uuid else replicate 16 0
        | None \<Rightarrow> replicate 16 0)\<rparr>"

definition kvstore_service_snapshot_committed :: "('m, 'o) service \<Rightarrow> u64 \<Rightarrow> ('m, 'o) service" where
  "kvstore_service_snapshot_committed s covered_changes =
     s\<lparr>dirty_changes := (if covered_changes \<ge> dirty_changes s then 0 else dirty_changes s - covered_changes)\<rparr>"

subsection \<open>Strings and deadlines\<close>

text \<open>The options of SET: the error reply, or the time to live.\<close>

definition set_options :: "bytes list \<Rightarrow> bytes + u64" where
  "set_options arguments =
     (if length arguments = 5 then
        case (if argument_equals (arguments ! 3) ''EX'' then Some (1000 :: u64)
              else if argument_equals (arguments ! 3) ''PX'' then Some 1 else None) of
          None \<Rightarrow> Inl error_syntax
        | Some multiplier \<Rightarrow>
            (case duration_ms (arguments ! 4) multiplier True of
               Inl r \<Rightarrow> Inl (if r = - 2 then error_expire else error_integer)
             | Inr (parsed, ttl_ms) \<Rightarrow> Inr ttl_ms)
      else Inr 0)"

definition execute_set ::
  "service_env \<Rightarrow> ('m, 'o) service \<Rightarrow> bytes list \<Rightarrow> (('m, 'o) service \<times> kvstore_reply) option" where
  "execute_set env s arguments =
     (case set_options arguments of
        Inl e \<Rightarrow> Some (s, KVSTORE_REPLY_ERROR e)
      | Inr ttl_ms \<Rightarrow>
          let now = clock env 0 in
          if ttl_ms \<noteq> 0 \<and> ttl_ms > UINT64_MAX - now then Some (s, KVSTORE_REPLY_ERROR error_integer)
          else let expire_at = (if ttl_ms \<noteq> 0 then now + ttl_ms else 0) in
            case cache_set_expire_at (string_allocated env) (entry_alloc env) (\<lambda>k. clock env (k + 1))
                   (service_cache s) (arguments ! 1) (arguments ! 2) expire_at of
              None \<Rightarrow> None
            | Some (c, r) \<Rightarrow>
                let s' = after_cache env s c; k = length (evictions (service_cache s) c) in
                (case r of
                   CACHE_SET_CAPACITY \<Rightarrow> Some (s', KVSTORE_REPLY_ERROR error_capacity)
                 | CACHE_SET_RANGE \<Rightarrow> Some (s', KVSTORE_REPLY_ERROR error_integer)
                 | CACHE_SET_ERROR \<Rightarrow> Some (s', KVSTORE_REPLY_ERROR error_internal)
                 | CACHE_SET_OK \<Rightarrow>
                     (case append_set_command env k s' arguments expire_at of
                        (s', ok) \<Rightarrow> Some (s', if ok then KVSTORE_REPLY_SIMPLE reply_ok
                                               else KVSTORE_REPLY_ERROR error_aof))))"

definition execute_expire ::
  "service_env \<Rightarrow> ('m, 'o) service \<Rightarrow> bytes list \<Rightarrow> u64 \<Rightarrow> ('m, 'o) service \<times> kvstore_reply" where
  "execute_expire env s arguments multiplier =
     (case duration_ms (arguments ! 2) multiplier False of
        Inl r \<Rightarrow> (s, KVSTORE_REPLY_ERROR error_integer)
      | Inr (parsed, ttl_ms) \<Rightarrow>
          let now = clock env 0; deadline = now + ttl_ms in
          if parsed > 0 \<and> ttl_ms > UINT64_MAX - now then (s, KVSTORE_REPLY_ERROR error_integer)
          else case (if parsed \<le> 0 then cache_delete (clock env 0) (service_cache s) (arguments ! 1)
                     else cache_expire_at (heap_allocated (entry_alloc env)) (clock env 1) (service_cache s)
                            (arguments ! 1) deadline) of
            (c, r) \<Rightarrow>
              let s = s\<lparr>service_cache := c\<rparr> in
              if r = - 2 then (s, KVSTORE_REPLY_ERROR error_integer)
              else if r < 0 then (s, KVSTORE_REPLY_ERROR error_internal)
              else if r > 0 then
                case (if parsed \<le> 0 then append_key_command env 0 s ''DEL'' (arguments ! 1)
                      else append_deadline_command env 0 s ''PEXPIREAT'' (arguments ! 1) deadline) of
                  (s, ok) \<Rightarrow> (s, if ok then KVSTORE_REPLY_INTEGER r else KVSTORE_REPLY_ERROR error_aof)
              else (s, KVSTORE_REPLY_INTEGER r))"

definition execute_get ::
  "service_env \<Rightarrow> ('m, 'o) service \<Rightarrow> bytes list \<Rightarrow> ('m, 'o) service \<times> kvstore_reply" where
  "execute_get env s arguments =
     (case cache_get_object (clock env 0) (service_cache s) (arguments ! 1) True of
        (c, r) \<Rightarrow> (s\<lparr>service_cache := c\<rparr>,
          case r of
            None \<Rightarrow> KVSTORE_REPLY_NULL_BULK
          | Some obj \<Rightarrow> (case kv_object_string_value obj of
                           None \<Rightarrow> KVSTORE_REPLY_ERROR error_wrongtype
                         | Some v \<Rightarrow> KVSTORE_REPLY_BULK v)))"

definition execute_del ::
  "service_env \<Rightarrow> ('m, 'o) service \<Rightarrow> bytes list \<Rightarrow> ('m, 'o) service \<times> kvstore_reply" where
  "execute_del env s arguments =
     (case cache_delete (clock env 0) (service_cache s) (arguments ! 1) of
        (c, deleted) \<Rightarrow>
          let s = s\<lparr>service_cache := c\<rparr> in
          if deleted < 0 then (s, KVSTORE_REPLY_ERROR error_internal)
          else if deleted > 0 then
            case append_key_command env 0 s ''DEL'' (arguments ! 1) of
              (s, ok) \<Rightarrow> (s, if ok then KVSTORE_REPLY_INTEGER deleted else KVSTORE_REPLY_ERROR error_aof)
          else (s, KVSTORE_REPLY_INTEGER deleted))"

definition execute_persist ::
  "service_env \<Rightarrow> ('m, 'o) service \<Rightarrow> bytes list \<Rightarrow> ('m, 'o) service \<times> kvstore_reply" where
  "execute_persist env s arguments =
     (case cache_persist (clock env 0) (service_cache s) (arguments ! 1) of
        (c, persisted) \<Rightarrow>
          let s = s\<lparr>service_cache := c\<rparr> in
          if persisted < 0 then (s, KVSTORE_REPLY_ERROR error_internal)
          else if persisted > 0 then
            case append_key_command env 0 s ''PERSIST'' (arguments ! 1) of
              (s, ok) \<Rightarrow> (s, if ok then KVSTORE_REPLY_INTEGER persisted else KVSTORE_REPLY_ERROR error_aof)
          else (s, KVSTORE_REPLY_INTEGER persisted))"

text \<open>TTL in seconds, PTTL in milliseconds; the cache always answers.\<close>

definition execute_ttl ::
  "service_env \<Rightarrow> ('m, 'o) service \<Rightarrow> bytes list \<Rightarrow> bool \<Rightarrow> ('m, 'o) service \<times> kvstore_reply" where
  "execute_ttl env s arguments in_seconds =
     (case cache_ttl_ms (clock env 0) (service_cache s) (arguments ! 1) of
        (c, ttl_ms) \<Rightarrow> (s\<lparr>service_cache := c\<rparr>,
          KVSTORE_REPLY_INTEGER (if in_seconds \<and> ttl_ms \<ge> 0 then ttl_ms div 1000 else ttl_ms)))"

subsection \<open>Hashes\<close>

text \<open>
  \<open>kv_object_clone\<close> of \<open>src/src/engine/object.c\<close>; the copy of a sorted set is the argument
  \<open>clone_zset\<close>.  The visitor carries the copy and the number of fields it has set.
\<close>

definition clone_hash_field ::
  "service_env \<Rightarrow> bytes \<Rightarrow> bytes \<Rightarrow> ('m, 'o) kv_object \<times> nat \<Rightarrow> (('m, 'o) kv_object \<times> nat) \<times> bool" where
  "clone_hash_field env field v clone =
     (case clone of (destination, k) \<Rightarrow>
        case kv_object_hash_set (clone_allocated env k) (clone_alloc env k) destination field v of
          (destination, r) \<Rightarrow> ((destination, k + 1), r = None))"

definition kv_object_clone ::
  "service_env \<Rightarrow> (('m, 'o) kv_object \<Rightarrow> ('m, 'o) kv_object option) \<Rightarrow> ('m, 'o) kv_object
     \<Rightarrow> ('m, 'o) kv_object option" where
  "kv_object_clone env clone_zset obj =
     (case object_value obj of
        KV_OBJECT_STRING v _ \<Rightarrow> kv_object_create_string (string_allocated env) v
      | KV_OBJECT_HASH _ \<Rightarrow>
          (case kv_object_create_hash (hash_allocated env 0) (hash_allocated env 1) (hash_allocated env 2) of
             None \<Rightarrow> None
           | Some copy \<Rightarrow>
               (case kv_object_hash_visit obj (clone_hash_field env) (copy, 0) of
                  Some ((copy, _), True) \<Rightarrow> Some copy
                | _ \<Rightarrow> None))
      | KV_OBJECT_ZSET _ \<Rightarrow> clone_zset obj)"

text \<open>The loop of HSET over fields and values; \<open>None\<close> when an allocation fails.\<close>

fun hset_loop ::
  "service_env \<Rightarrow> nat \<Rightarrow> ('m, 'o) kv_object \<Rightarrow> bytes list \<Rightarrow> int \<Rightarrow> bool
     \<Rightarrow> ('m, 'o) kv_object \<times> (int \<times> bool) option" where
  "hset_loop env k working (field # v # rest) added_total changed_any =
     (case kv_object_hash_set (field_allocated env k) (field_alloc env k) working field v of
        (working, None) \<Rightarrow> (working, None)
      | (working, Some (added, changed)) \<Rightarrow>
          hset_loop env (k + 1) working rest (added_total + of_bool added) (changed_any \<or> changed))"
| "hset_loop env k working _ added_total changed_any = (working, Some (added_total, changed_any))"

definition object_error :: "cache_set_result \<Rightarrow> kvstore_reply" where
  "object_error r = KVSTORE_REPLY_ERROR (if r = CACHE_SET_CAPACITY then error_capacity else error_internal)"

text \<open>The end of HSET and HDEL: the records of the evictions, then the request itself.\<close>

definition finish_original ::
  "service_env \<Rightarrow> ('m, 'o) service \<Rightarrow> ('m, 'o) cache \<Rightarrow> bytes list \<Rightarrow> int \<Rightarrow> ('m, 'o) service \<times> kvstore_reply" where
  "finish_original env s c arguments n =
     (case append_original_command env (length (evictions (service_cache s) c)) (after_cache env s c) arguments of
        (s, ok) \<Rightarrow> (s, if ok then KVSTORE_REPLY_INTEGER n else KVSTORE_REPLY_ERROR error_aof))"

text \<open>HSET once the object to change is there: \<open>Some a\<close> is the entry changed in place.\<close>

definition hset_working ::
  "service_env \<Rightarrow> ('m, 'o) service \<Rightarrow> bytes list \<Rightarrow> nat option \<Rightarrow> ('m, 'o) kv_object
     \<Rightarrow> (('m, 'o) service \<times> kvstore_reply) option" where
  "hset_working env s arguments in_place working =
     (case hset_loop env 0 working (drop 2 arguments) 0 False of
        (working, r) \<Rightarrow>
          let s = (case in_place of
                     None \<Rightarrow> s
                   | Some a \<Rightarrow> s\<lparr>service_cache := modify a (set_object working) (service_cache s)\<rparr>) in
          (case r of
             None \<Rightarrow> Some (s, KVSTORE_REPLY_ERROR error_internal)
           | Some (added_total, changed_any) \<Rightarrow>
               if \<not> changed_any then Some (s, KVSTORE_REPLY_INTEGER added_total)
               else case (case in_place of
                            None \<Rightarrow> cache_store_object (entry_alloc env) (\<lambda>k. clock env (k + 1)) (service_cache s)
                                      (arguments ! 1) working 0 True
                          | Some a \<Rightarrow> cache_recharge_ref (clock env 1) (service_cache s) (Some a)) of
                 None \<Rightarrow> None
               | Some (c, r) \<Rightarrow>
                   if r \<noteq> CACHE_SET_OK then Some (after_cache env s c, object_error r)
                   else Some (finish_original env s c arguments added_total)))"

definition execute_hset ::
  "(('m, 'o) kv_object \<Rightarrow> ('m, 'o) kv_object option) \<Rightarrow> service_env \<Rightarrow> ('m, 'o) service \<Rightarrow> bytes list
     \<Rightarrow> (('m, 'o) service \<times> kvstore_reply) option" where
  "execute_hset clone_zset env s arguments =
     (case cache_get_hash_object_ref (clock env 0) (service_cache s) (arguments ! 1) False of
        (c, entry_ref) \<Rightarrow>
          let s = s\<lparr>service_cache := c\<rparr>; pair_count = (length arguments - 2) div 2 in
          (case entry_ref of
             None \<Rightarrow>
               (case kv_object_create_hash (hash_allocated env 0) (hash_allocated env 1) (hash_allocated env 2) of
                  None \<Rightarrow> Some (s, KVSTORE_REPLY_ERROR error_internal)
                | Some working \<Rightarrow> hset_working env s arguments None working)
           | Some a \<Rightarrow>
               let original = object (entry c a) in
               if kv_object_type original \<noteq> HASH_TYPE then Some (s, KVSTORE_REPLY_ERROR error_wrongtype)
               else if pair_count > 1 \<or> max_memory c \<noteq> 0 then
                 (case kv_object_clone env clone_zset original of
                    None \<Rightarrow> Some (s, KVSTORE_REPLY_ERROR error_internal)
                  | Some working \<Rightarrow> hset_working env s arguments None working)
               else hset_working env s arguments (Some a) original))"

text \<open>The loop of HDEL; it stops at a failure, which the answer -1 of the object reports.\<close>

fun hdel_loop ::
  "('m, 'o) kv_object \<Rightarrow> bytes list \<Rightarrow> int \<Rightarrow> ('m, 'o) kv_object \<times> int option" where
  "hdel_loop obj [] removed = (obj, Some removed)"
| "hdel_loop obj (field # rest) removed =
     (case kv_object_hash_delete obj field of
        (obj, r) \<Rightarrow> if r < 0 then (obj, None) else hdel_loop obj rest (removed + r))"

definition execute_hdel ::
  "service_env \<Rightarrow> ('m, 'o) service \<Rightarrow> bytes list \<Rightarrow> (('m, 'o) service \<times> kvstore_reply) option" where
  "execute_hdel env s arguments =
     (case cache_get_hash_object_ref (clock env 0) (service_cache s) (arguments ! 1) False of
        (c, None) \<Rightarrow> Some (s\<lparr>service_cache := c\<rparr>, KVSTORE_REPLY_INTEGER 0)
      | (c, Some a) \<Rightarrow>
          if kv_object_type (object (entry c a)) \<noteq> HASH_TYPE
          then Some (s\<lparr>service_cache := c\<rparr>, KVSTORE_REPLY_ERROR error_wrongtype)
          else case hdel_loop (object (entry c a)) (drop 2 arguments) 0 of
            (obj, r) \<Rightarrow>
              let c = modify a (set_object obj) c; s = s\<lparr>service_cache := c\<rparr> in
              (case r of
                 None \<Rightarrow> Some (s, KVSTORE_REPLY_ERROR error_internal)
               | Some removed \<Rightarrow>
                   if removed > 0 then
                     if kv_object_hash_length obj = 0 then
                       case cache_delete (clock env 1) c (arguments ! 1) of
                         (c, r) \<Rightarrow>
                           if r < 0 then Some (s\<lparr>service_cache := c\<rparr>, KVSTORE_REPLY_ERROR error_internal)
                           else Some (finish_original env s c arguments removed)
                     else case cache_recharge_ref (clock env 1) c (Some a) of
                       None \<Rightarrow> None
                     | Some (c, r) \<Rightarrow>
                         if r \<noteq> CACHE_SET_OK then Some (after_cache env s c, KVSTORE_REPLY_ERROR error_internal)
                         else Some (finish_original env s c arguments removed)
                   else Some (s, KVSTORE_REPLY_INTEGER removed)))"

definition execute_hget ::
  "service_env \<Rightarrow> ('m, 'o) service \<Rightarrow> bytes list \<Rightarrow> ('m, 'o) service \<times> kvstore_reply" where
  "execute_hget env s arguments =
     (case cache_get_hash_object_ref (clock env 0) (service_cache s) (arguments ! 1) True of
        (c, None) \<Rightarrow> (s\<lparr>service_cache := c\<rparr>, KVSTORE_REPLY_NULL_BULK)
      | (c, Some a) \<Rightarrow>
          if kv_object_type (object (entry c a)) \<noteq> HASH_TYPE
          then (s\<lparr>service_cache := c\<rparr>, KVSTORE_REPLY_ERROR error_wrongtype)
          else case kv_object_hash_get (object (entry c a)) (arguments ! 2) of
            (obj, r) \<Rightarrow> (s\<lparr>service_cache := modify a (set_object obj) c\<rparr>,
              case r of None \<Rightarrow> KVSTORE_REPLY_NULL_BULK | Some v \<Rightarrow> KVSTORE_REPLY_BULK v))"

definition execute_hlen ::
  "service_env \<Rightarrow> ('m, 'o) service \<Rightarrow> bytes list \<Rightarrow> ('m, 'o) service \<times> kvstore_reply" where
  "execute_hlen env s arguments =
     (case cache_get_hash_object_ref (clock env 0) (service_cache s) (arguments ! 1) True of
        (c, r) \<Rightarrow> (s\<lparr>service_cache := c\<rparr>,
          case r of
            None \<Rightarrow> KVSTORE_REPLY_INTEGER 0
          | Some a \<Rightarrow>
              if kv_object_type (object (entry c a)) \<noteq> HASH_TYPE then KVSTORE_REPLY_ERROR error_wrongtype
              else KVSTORE_REPLY_INTEGER (int (kv_object_hash_length (object (entry c a))))))"

record hash_array_context =
  collected :: "bytes list"
  reply_size :: u64
  too_large_reply :: bool

definition collect_hash_pair :: "bytes \<Rightarrow> bytes \<Rightarrow> hash_array_context \<Rightarrow> hash_array_context \<times> bool" where
  "collect_hash_pair field v collection =
     (let field_size = bulk_encoded_size (of_nat (length field));
          value_size = bulk_encoded_size (of_nat (length v)) in
      if field_size = UINT64_MAX \<or> value_size = UINT64_MAX \<or>
         reply_size collection > SERVICE_MAX_RESPONSE - field_size \<or>
         reply_size collection + field_size > SERVICE_MAX_RESPONSE - value_size
      then (collection\<lparr>too_large_reply := True\<rparr>, True)
      else (collection\<lparr>reply_size := reply_size collection + (field_size + value_size),
              collected := collected collection @ [field, v]\<rparr>, False))"

definition execute_hgetall ::
  "service_env \<Rightarrow> ('m, 'o) service \<Rightarrow> bytes list \<Rightarrow> ('m, 'o) service \<times> kvstore_reply" where
  "execute_hgetall env s arguments =
     (case cache_get_hash_object_ref (clock env 0) (service_cache s) (arguments ! 1) True of
        (c, None) \<Rightarrow> (s\<lparr>service_cache := c\<rparr>, KVSTORE_REPLY_ARRAY [])
      | (c, Some a) \<Rightarrow>
          let s = s\<lparr>service_cache := c\<rparr>; obj = object (entry c a) in
          if kv_object_type obj \<noteq> HASH_TYPE then (s, KVSTORE_REPLY_ERROR error_wrongtype)
          else let n = kv_object_hash_length obj in
            if n > SERVICE_MAX_ARRAY_ELEMENTS div 2
            then (s, KVSTORE_REPLY_ERROR error_response_too_large)
            else case reserve_reply_elements (elements_allocated env) (reply_element_capacity s) (n * 2) of
              Inl r \<Rightarrow> (s, KVSTORE_REPLY_ERROR (if r = - 2 then error_response_too_large else error_internal))
            | Inr capacity \<Rightarrow>
                let s = s\<lparr>reply_element_capacity := capacity\<rparr> in
                (case kv_object_hash_visit obj collect_hash_pair
                        \<lparr>collected = [], reply_size = decimal_digits (of_nat (n * 2)) + 3,
                         too_large_reply = False\<rparr> of
                   Some (context', True) \<Rightarrow> (s, KVSTORE_REPLY_ARRAY (collected context'))
                 | Some (context', False) \<Rightarrow>
                     (s, KVSTORE_REPLY_ERROR (if too_large_reply context' then error_response_too_large
                                              else error_internal))
                 | None \<Rightarrow> (s, KVSTORE_REPLY_ERROR error_internal)))"

subsection \<open>Dispatch\<close>

text \<open>\<open>ERRNO 95\<close> is \<open>ENOTSUP\<close>.\<close>

definition execute_save_command :: "service_env \<Rightarrow> bool \<Rightarrow> kvstore_reply" where
  "execute_save_command env background =
     (case save_callback env of
        None \<Rightarrow> KVSTORE_REPLY_ERROR error_rdb_disabled
      | Some save \<Rightarrow>
          (case save background of
             Some e \<Rightarrow> KVSTORE_REPLY_ERROR (if e = EBUSY then error_save_busy
                                             else if e = ERRNO 95 then error_rdb_disabled else error_internal)
           | None \<Rightarrow> KVSTORE_REPLY_SIMPLE (if background then reply_bgsave_started else reply_ok)))"

definition aof_is_failed :: "aof option \<Rightarrow> bool" where
  "aof_is_failed aof = (case aof of None \<Rightarrow> False | Some a \<Rightarrow> aof_last_error a \<noteq> None)"

text \<open>
  What the model takes from outside: the commands on sorted sets, the copy of a sorted set, and the
  texts of INFO.
\<close>

record ('m, 'o) outside =
  zset_command :: "service_env \<Rightarrow> ('m, 'o) service \<Rightarrow> service_command \<Rightarrow> bytes list
     \<Rightarrow> (('m, 'o) service \<times> kvstore_reply) option"
  clone_zset :: "('m, 'o) kv_object \<Rightarrow> ('m, 'o) kv_object option"
  info_text :: "('m, 'o) service \<Rightarrow> string \<Rightarrow> kvstore_reply"

definition execute_info_command :: "('m, 'o) outside \<Rightarrow> ('m, 'o) service \<Rightarrow> bytes list \<Rightarrow> kvstore_reply" where
  "execute_info_command ext s arguments =
     (if argument_equals (arguments ! 1) ''PERSISTENCE'' then info_text ext s ''PERSISTENCE''
      else if argument_equals (arguments ! 1) ''MYSQL'' then info_text ext s ''MYSQL''
      else if \<not> argument_equals (arguments ! 1) ''CACHE'' then KVSTORE_REPLY_ERROR error_syntax
      else info_text ext s ''CACHE'')"

text \<open>The inner \<open>None\<close> is the result -1, which sets no reply.\<close>

definition execute_command ::
  "('m, 'o) outside \<Rightarrow> service_env \<Rightarrow> ('m, 'o) service \<Rightarrow> service_command \<Rightarrow> bytes list
     \<Rightarrow> (('m, 'o) service \<times> kvstore_reply option) option" where
  "execute_command ext env s command arguments =
     (if arguments = [] then Some (s, None)
      else map_option (map_prod id Some)
       (if command = SERVICE_COMMAND_UNKNOWN then Some (s, KVSTORE_REPLY_ERROR error_unknown)
        else if \<not> command_arity_valid command (length arguments) then Some (s, KVSTORE_REPLY_ERROR error_arity)
        else if is_write_command command \<and> aof_is_failed (service_aof s) then Some (s, KVSTORE_REPLY_ERROR error_aof)
        else case command of
          SERVICE_COMMAND_SET \<Rightarrow> execute_set env s arguments
        | SERVICE_COMMAND_GET \<Rightarrow> Some (execute_get env s arguments)
        | SERVICE_COMMAND_DEL \<Rightarrow> Some (execute_del env s arguments)
        | SERVICE_COMMAND_PING \<Rightarrow>
            Some (s, if length arguments = 2 then KVSTORE_REPLY_BULK (arguments ! 1)
                     else KVSTORE_REPLY_SIMPLE reply_pong)
        | SERVICE_COMMAND_EXPIRE \<Rightarrow> Some (execute_expire env s arguments 1000)
        | SERVICE_COMMAND_PEXPIRE \<Rightarrow> Some (execute_expire env s arguments 1)
        | SERVICE_COMMAND_TTL \<Rightarrow> Some (execute_ttl env s arguments True)
        | SERVICE_COMMAND_PTTL \<Rightarrow> Some (execute_ttl env s arguments False)
        | SERVICE_COMMAND_PERSIST \<Rightarrow> Some (execute_persist env s arguments)
        | SERVICE_COMMAND_INFO \<Rightarrow> Some (s, execute_info_command ext s arguments)
        | SERVICE_COMMAND_DBSIZE \<Rightarrow>
            Some (s, KVSTORE_REPLY_INTEGER (int (stat_keys (cache_get_stats (service_cache s)))))
        | SERVICE_COMMAND_SAVE \<Rightarrow> Some (s, execute_save_command env False)
        | SERVICE_COMMAND_BGSAVE \<Rightarrow> Some (s, execute_save_command env True)
        | SERVICE_COMMAND_LASTSAVE \<Rightarrow>
            Some (s, KVSTORE_REPLY_INTEGER (case lastsave_callback env of None \<Rightarrow> 0 | Some t \<Rightarrow> t))
        | SERVICE_COMMAND_HSET \<Rightarrow> execute_hset (clone_zset ext) env s arguments
        | SERVICE_COMMAND_HGET \<Rightarrow> Some (execute_hget env s arguments)
        | SERVICE_COMMAND_HDEL \<Rightarrow> execute_hdel env s arguments
        | SERVICE_COMMAND_HLEN \<Rightarrow> Some (execute_hlen env s arguments)
        | SERVICE_COMMAND_HGETALL \<Rightarrow> Some (execute_hgetall env s arguments)
        | _ \<Rightarrow> zset_command ext env s command arguments))"

subsection \<open>Requests\<close>

definition logical_write :: "bytes list \<Rightarrow> bool" where
  "logical_write arguments \<longleftrightarrow> (let command = find_command (arguments ! 0) in
     command \<noteq> SERVICE_COMMAND_UNKNOWN \<and> command_arity_valid command (length arguments) \<and> is_write_command command)"

text \<open>The admission of a write to MySQL: an error reply, or the state with the number reserved.\<close>

definition mysql_admission ::
  "service_env \<Rightarrow> ('m, 'o) service \<Rightarrow> bytes list \<Rightarrow> ('m, 'o) service \<times> bytes option" where
  "mysql_admission env s arguments =
     (if service_aof s = None then (s, Some error_aof)
      else if mysql_write_estimate arguments = UINT64_MAX \<or> \<not> can_accept_write env then (s, Some error_mysql_queue)
      else let s = s\<lparr>mysql_candidate_sequence := mysql_next_sequence s + 1\<rparr> in
        (s, if mysql_candidate_sequence s = 0 then Some error_internal else None))"

definition append_mysql_marker :: "service_env \<Rightarrow> ('m, 'o) service \<Rightarrow> aof \<Rightarrow> u64 \<Rightarrow> ('m, 'o) service \<times> bool" where
  "append_mysql_marker env s aof sequence =
     (case mysql_marker (mysql_writer_uuid s) sequence of
        None \<Rightarrow> (s, False)
      | Some marker \<Rightarrow>
          (case aof_append (marker_allocated env) aof marker of
             (aof, e) \<Rightarrow> (s\<lparr>service_aof := Some aof\<rparr>, e = None)))"

definition rolled_back :: "('m, 'o) service \<Rightarrow> ('m, 'o) service" where
  "rolled_back s = s\<lparr>service_aof := map_option aof_transaction_rollback (service_aof s)\<rparr>"

text \<open>The end of a write request: the marker, the commit and the submission.\<close>

definition finish_write ::
  "service_env \<Rightarrow> ('m, 'o) service \<Rightarrow> bool \<Rightarrow> kvstore_reply \<Rightarrow> (('m, 'o) service \<times> kvstore_reply \<times> u64) option" where
  "finish_write env s mysql_write reply =
     (case (if mysql_write \<and> mysql_mutation s \<noteq> []
            then append_mysql_marker env s (the (service_aof s)) (mysql_candidate_sequence s) else (s, True)) of
        (s, False) \<Rightarrow> Some (rolled_back s, KVSTORE_REPLY_ERROR error_aof, 0)
      | (s, True) \<Rightarrow>
          (case aof_transaction_commit (commit_allocated env) (the (service_aof s)) of
             None \<Rightarrow> None
           | Some (aof, Inl e) \<Rightarrow> Some (rolled_back (s\<lparr>service_aof := Some aof\<rparr>), KVSTORE_REPLY_ERROR error_aof, 0)
           | Some (aof, Inr barrier) \<Rightarrow>
               let s = s\<lparr>service_aof := Some aof\<rparr> in
               if mysql_write \<and> mysql_mutation s \<noteq> [] then
                 Some (s\<lparr>mysql_next_sequence := mysql_candidate_sequence s,
                         mysql_submissions := mysql_submissions s @ [(mysql_candidate_sequence s, mysql_mutation s)]\<rparr>,
                       if mutation_submitted env then reply else KVSTORE_REPLY_ERROR error_mysql_queue, barrier)
               else Some (s, reply, barrier)))"

text \<open>The state, the reply and the sequence number the response waits for (0 for none).\<close>

definition kvstore_service_execute_with_barrier ::
  "('m, 'o) outside \<Rightarrow> service_env \<Rightarrow> ('m, 'o) service \<Rightarrow> bytes list
     \<Rightarrow> (('m, 'o) service \<times> kvstore_reply option \<times> u64) option" where
  "kvstore_service_execute_with_barrier ext env s arguments =
     (if arguments = [] then Some (s, None, 0)
      else let command = find_command (arguments ! 0);
               write_command = (logical_write arguments \<and> service_aof s \<noteq> None);
               mysql_write = (logical_write arguments \<and> mysql_store s) in
        case (if mysql_write then mysql_admission env s arguments else (s, None)) of
          (s, Some e) \<Rightarrow> Some (s, Some (KVSTORE_REPLY_ERROR e), 0)
        | (s, None) \<Rightarrow>
            (case (case service_aof s of
                     None \<Rightarrow> (None, None)
                   | Some aof \<Rightarrow> if write_command then map_prod Some id (aof_transaction_begin aof) else (Some aof, None)) of
               (_, Some e) \<Rightarrow> Some (s, Some (KVSTORE_REPLY_ERROR error_aof_busy), 0)
             | (aof, None) \<Rightarrow>
                 let s = s\<lparr>service_aof := aof, mysql_mutation := [], mysql_recording_command := mysql_write\<rparr> in
                 (case execute_command ext env s command arguments of
                    None \<Rightarrow> None
                  | Some (s, result) \<Rightarrow>
                      let s = s\<lparr>mysql_recording_command := False,
                                dirty_changes := dirty_changes s +
                                  of_bool (logical_write arguments \<and> (case result of None \<Rightarrow> False | Some r \<Rightarrow> \<not> is_error r))\<rparr> in
                      if \<not> write_command then Some (s, result, 0)
                      else (case result of
                              None \<Rightarrow> Some (rolled_back s, None, 0)
                            | Some reply \<Rightarrow> map_option (map_prod id (map_prod Some id)) (finish_write env s mysql_write reply)))))"

definition kvstore_service_execute ::
  "('m, 'o) outside \<Rightarrow> service_env \<Rightarrow> ('m, 'o) service \<Rightarrow> bytes list
     \<Rightarrow> (('m, 'o) service \<times> kvstore_reply option) option" where
  "kvstore_service_execute ext env s arguments =
     map_option (map_prod id fst) (kvstore_service_execute_with_barrier ext env s arguments)"

subsection \<open>Replay\<close>

definition kvstore_service_replay_aof ::
  "('m, 'o) outside \<Rightarrow> service_env \<Rightarrow> ('m, 'o) service \<Rightarrow> bytes list \<Rightarrow> (('m, 'o) service \<times> bool) option" where
  "kvstore_service_replay_aof ext env s arguments =
     (if arguments = [] then Some (s, False)
      else let is = argument_equals (arguments ! 0); n = length arguments; now = clock env 0;
               key = arguments ! 1; c = service_cache s in
        if is ''PING'' \<and> (n = 1 \<or> n = 2) then Some (s, True)
        else if is ''SET'' then
          if n \<noteq> 3 \<and> n \<noteq> 5 then Some (s, False)
          else case (if n = 5 then
                       if \<not> argument_equals (arguments ! 3) ''PXAT'' then None
                       else case parse_uint64_bytes (arguments ! 4) of
                         None \<Rightarrow> None | Some deadline \<Rightarrow> if deadline = 0 then None else Some deadline
                     else Some 0) of
            None \<Rightarrow> Some (s, False)
          | Some deadline \<Rightarrow>
              if deadline \<noteq> 0 \<and> deadline \<le> now then
                (case cache_delete (clock env 1) c key of (c, r) \<Rightarrow> Some (s\<lparr>service_cache := c\<rparr>, \<not> r < 0))
              else (case cache_set_expire_at (string_allocated env) (entry_alloc env) (\<lambda>k. clock env (k + 1))
                           c key (arguments ! 2) deadline of
                      None \<Rightarrow> None
                    | Some (c, r) \<Rightarrow> Some (after_cache env s c, r = CACHE_SET_OK))
        else if is ''DEL'' \<and> n = 2 then
          (case cache_delete (clock env 1) c key of (c, r) \<Rightarrow> Some (s\<lparr>service_cache := c\<rparr>, \<not> r < 0))
        else if is ''PERSIST'' \<and> n = 2 then
          (case cache_persist (clock env 1) c key of (c, r) \<Rightarrow> Some (s\<lparr>service_cache := c\<rparr>, \<not> r < 0))
        else if is ''PEXPIREAT'' \<and> n = 3 then
          (case parse_uint64_bytes (arguments ! 2) of
             None \<Rightarrow> Some (s, False)
           | Some deadline \<Rightarrow>
               if deadline = 0 then Some (s, False)
               else case (if deadline \<le> now then cache_delete (clock env 1) c key
                          else cache_expire_at (heap_allocated (entry_alloc env)) (clock env 1) c key deadline) of
                 (c, r) \<Rightarrow> Some (s\<lparr>service_cache := c\<rparr>, \<not> r < 0))
        else if is ''HSET'' \<or> is ''HDEL'' \<or> is ''ZADD'' \<or> is ''ZREM'' then
          if n > RESP_MAX_ARGUMENTS then Some (s, False)
          else (case kvstore_service_execute ext env s arguments of
                  None \<Rightarrow> None
                | Some (s, result) \<Rightarrow> Some (s, case result of None \<Rightarrow> False | Some reply \<Rightarrow> \<not> is_error reply))
        else Some (s, False))"

end
