(* ===== verification/ServiceSpec.thy ===== *)
theory ServiceSpec
  imports Service CacheProps AofProps
begin

text \<open>
  What a request does to the contents of the cache and to the log, stated together: the records it
  appends describe the change it makes.
\<close>

subsection \<open>Values and records\<close>

datatype ('m, 'o) stored_value = Text bytes | Fields "bytes \<Rightarrow> bytes option" | Sorted "('m, 'o) zset"

type_synonym ('m, 'o) slot = "(('m, 'o) stored_value \<times> u64) option"

definition value_of :: "('m, 'o) kv_object \<Rightarrow> ('m, 'o) stored_value" where
  "value_of obj = (case object_value obj of
     KV_OBJECT_STRING v _ \<Rightarrow> Text v | KV_OBJECT_HASH _ \<Rightarrow> Fields (object_fields obj) | KV_OBJECT_ZSET z \<Rightarrow> Sorted z)"

text \<open>A key's value and deadline, without what concerns memory.\<close>

definition view :: "('m, 'o) cache \<Rightarrow> bytes \<Rightarrow> ('m, 'o) slot" where
  "view c k = map_option (\<lambda>d. (value_of (core_object d), core_expire d)) (content c k)"

fun set_pairs :: "bytes list \<Rightarrow> (bytes \<Rightarrow> bytes option) \<Rightarrow> bytes \<Rightarrow> bytes option" where
  "set_pairs (field # v # rest) m = set_pairs rest (m(field \<mapsto> v))"
| "set_pairs _ m = m"

definition deadline_text :: "bytes \<Rightarrow> u64" where
  "deadline_text b = (case parse_uint64_bytes b of None \<Rightarrow> 0 | Some d \<Rightarrow> d)"

definition hset_effect :: "bytes list \<Rightarrow> ('m, 'o) slot \<Rightarrow> ('m, 'o) slot" where
  "hset_effect pairs x = (case x of
     None \<Rightarrow> Some (Fields (set_pairs pairs Map.empty), 0)
   | Some (Fields m, d) \<Rightarrow> Some (Fields (set_pairs pairs m), d)
   | Some y \<Rightarrow> Some y)"

definition hdel_effect :: "bytes list \<Rightarrow> ('m, 'o) slot \<Rightarrow> ('m, 'o) slot" where
  "hdel_effect fs x = (case x of
     Some (Fields m, d) \<Rightarrow>
       (let m' = (\<lambda>f. if f \<in> set fs then None else m f) in
        if m' = m then x else if m' = Map.empty then None else Some (Fields m', d))
   | _ \<Rightarrow> x)"

text \<open>What a record of the log means for the key it names.\<close>

definition record_effect :: "bytes list \<Rightarrow> ('m, 'o) slot \<Rightarrow> ('m, 'o) slot" where
  "record_effect r x =
     (let is = argument_equals (r ! 0) in
      if is ''SET'' then Some (Text (r ! 2), if length r = 5 then deadline_text (r ! 4) else 0)
      else if is ''DEL'' then None
      else if is ''PERSIST'' then map_option (\<lambda>(v, d). (v, 0)) x
      else if is ''PEXPIREAT'' then map_option (\<lambda>(v, d). (v, deadline_text (r ! 2))) x
      else if is ''HSET'' then hset_effect (drop 2 r) x
      else if is ''HDEL'' then hdel_effect (drop 2 r) x
      else x)"

fun apply_log :: "bytes list list \<Rightarrow> bytes \<Rightarrow> ('m, 'o) slot \<Rightarrow> ('m, 'o) slot" where
  "apply_log [] k x = x"
| "apply_log (r # rs) k x = apply_log rs k (if 1 < length r \<and> r ! 1 = k then record_effect r x else x)"

text \<open>A slot with no deadline, or one after \<open>T\<close>; and a record that sets no other deadline for \<open>k\<close>.\<close>

definition slot_ok :: "u64 \<Rightarrow> ('m, 'o) slot \<Rightarrow> bool" where
  "slot_ok T x = (case x of None \<Rightarrow> True | Some (v, d) \<Rightarrow> d = 0 \<or> T < d)"

definition record_deadline :: "bytes list \<Rightarrow> u64" where
  "record_deadline r =
     (if argument_equals (r ! 0) ''SET'' \<and> length r = 5 then deadline_text (r ! 4)
      else if argument_equals (r ! 0) ''PEXPIREAT'' then deadline_text (r ! 2) else 0)"

definition safe :: "u64 \<Rightarrow> bytes \<Rightarrow> bytes list \<Rightarrow> bool" where
  "safe T k r \<longleftrightarrow> (1 < length r \<and> r ! 1 = k \<longrightarrow> record_deadline r = 0 \<or> T < record_deadline r)"

lemma apply_log_append: "apply_log (rs @ rs') k x = apply_log rs' k (apply_log rs k x)"
  by (induction rs arbitrary: x) simp_all

lemma equals_iff: "argument_equals a n \<longleftrightarrow> map ascii_upper a = ascii n"
  by (auto simp: argument_equals_def ascii_def list_all2_conv_all_nth list_eq_iff_nth_eq)

lemma equals_unique: "argument_equals a n \<Longrightarrow> argument_equals a m \<Longrightarrow> ascii n = ascii m"
  by (simp add: equals_iff)

lemma record_names [simp]:
  "argument_equals (ascii ''SET'') ''SET''" "argument_equals (ascii ''DEL'') ''DEL''"
  "argument_equals (ascii ''PERSIST'') ''PERSIST''" "argument_equals (ascii ''PEXPIREAT'') ''PEXPIREAT''"
  "argument_equals (ascii ''PXAT'') ''PXAT''"
  by (simp_all add: equals_iff ascii_def ascii_upper_def)

lemma other_names [simp]:
  "ascii ''SET'' \<noteq> ascii ''DEL''" "ascii ''SET'' \<noteq> ascii ''PERSIST''" "ascii ''SET'' \<noteq> ascii ''PEXPIREAT''"
  "ascii ''DEL'' \<noteq> ascii ''PERSIST''" "ascii ''DEL'' \<noteq> ascii ''PEXPIREAT''" "ascii ''PERSIST'' \<noteq> ascii ''PEXPIREAT''"
  "ascii ''HSET'' \<noteq> ascii ''SET''" "ascii ''HSET'' \<noteq> ascii ''DEL''" "ascii ''HSET'' \<noteq> ascii ''PERSIST''"
  "ascii ''HSET'' \<noteq> ascii ''PEXPIREAT''" "ascii ''HDEL'' \<noteq> ascii ''SET''" "ascii ''HDEL'' \<noteq> ascii ''DEL''"
  "ascii ''HDEL'' \<noteq> ascii ''PERSIST''" "ascii ''HDEL'' \<noteq> ascii ''PEXPIREAT''" "ascii ''HDEL'' \<noteq> ascii ''HSET''"
  "ascii ''PING'' \<noteq> ascii ''SET''" "ascii ''PING'' \<noteq> ascii ''DEL''" "ascii ''PING'' \<noteq> ascii ''PERSIST''"
  "ascii ''PING'' \<noteq> ascii ''PEXPIREAT''" "ascii ''PING'' \<noteq> ascii ''HSET''" "ascii ''PING'' \<noteq> ascii ''HDEL''"
  by (simp_all add: ascii_def)

lemma deadline_text_decimal [simp]: "deadline_text (decimal_text (unat d)) = d"
  by (simp add: deadline_text_def parse_uint64_bytes_def digits_text)

lemma record_effects [simp]:
  "record_effect [ascii ''SET'', k, v] x = Some (Text v, 0)"
  "record_effect [ascii ''SET'', k, v, p, t] x = Some (Text v, deadline_text t)"
  "record_effect [ascii ''DEL'', k] x = None"
  "record_effect [ascii ''PERSIST'', k] x = map_option (\<lambda>(v, d). (v, 0)) x"
  "record_effect [ascii ''PEXPIREAT'', k, t] x = map_option (\<lambda>(v, d). (v, deadline_text t)) x"
  by (simp_all add: record_effect_def Let_def equals_iff ascii_def ascii_upper_def)

lemma record_deadlines [simp]:
  "record_deadline [ascii ''SET'', k, v] = 0" "record_deadline [ascii ''DEL'', k] = 0"
  "record_deadline [ascii ''PERSIST'', k] = 0"
  "record_deadline [ascii ''SET'', k, v, p, t] = deadline_text t"
  "record_deadline [ascii ''PEXPIREAT'', k, t] = deadline_text t"
  by (simp_all add: record_deadline_def equals_iff ascii_def ascii_upper_def)

lemma slot_ok_simps [simp]:
  "slot_ok T None" "slot_ok T (Some (v, 0))" "slot_ok T (Some (v, d)) \<longleftrightarrow> d = 0 \<or> T < d"
  by (simp_all add: slot_ok_def)

lemma slot_ok_map:
  "d = 0 \<or> T < d \<Longrightarrow> slot_ok T (map_option (\<lambda>(v, _). (v, d)) x)"
  by (cases x) (auto simp: slot_ok_def)

lemma hash_slot_ok:
  assumes "slot_ok T x" shows "slot_ok T (hset_effect pairs x)" "slot_ok T (hdel_effect fs x)"
  using assms by (auto simp: slot_ok_def hset_effect_def hdel_effect_def Let_def
      split: option.splits stored_value.splits prod.splits)

lemma effect_slot_ok:
  assumes x: "slot_ok T x" and d: "record_deadline r = 0 \<or> T < record_deadline r"
  shows "slot_ok T (record_effect r x)"
  using d x slot_ok_map [of 0 T x] slot_ok_map [of "deadline_text (r ! 2)" T x] hash_slot_ok [OF x]
  unfolding record_effect_def record_deadline_def Let_def by (auto split: if_splits)

lemma apply_slot_ok: "slot_ok T x \<Longrightarrow> list_all (safe T k) rs \<Longrightarrow> slot_ok T (apply_log rs k x)"
proof (induction rs arbitrary: x)
  case (Cons r rs)
  then show ?case using effect_slot_ok [of T x r] by (auto simp: safe_def)
qed simp

subsection \<open>Appending\<close>

definition logged :: "bytes list list \<Rightarrow> aof option \<Rightarrow> aof option \<Rightarrow> bool" where
  "logged rs x x' = (case x of
     None \<Rightarrow> x' = None
   | Some a \<Rightarrow> transaction_active a \<and> list_all aof_writable rs
       \<and> (\<exists>cap. x' = Some (a\<lparr>transaction := transaction a @ log_of rs, transaction_capacity := cap\<rparr>)))"

definition ready :: "('m, 'o) service \<Rightarrow> bool" where
  "ready s \<longleftrightarrow> (\<forall>a. service_aof s = Some a \<longrightarrow> transaction_active a)"

lemma logged_nothing: "transaction_active a \<Longrightarrow> logged [] (Some a) (Some a)"
  unfolding logged_def by (simp, rule exI [of _ "transaction_capacity a"], simp)

lemma logged_refl: "ready s \<Longrightarrow> logged [] (service_aof s) (service_aof s)"
  by (cases "service_aof s") (simp_all add: logged_nothing ready_def, simp add: logged_def)

lemma logged_Some:
  "logged rs (Some a) y \<longleftrightarrow> transaction_active a \<and> list_all aof_writable rs
     \<and> (\<exists>cap. y = Some (a\<lparr>transaction := transaction a @ log_of rs, transaction_capacity := cap\<rparr>))"
  by (simp add: logged_def)

lemma logged_trans: "logged rs x y \<Longrightarrow> logged rs' y z \<Longrightarrow> logged (rs @ rs') x z"
proof (cases x)
  case (Some a)
  assume 1: "logged rs x y" and 2: "logged rs' y z"
  from 1 Some obtain cap where y: "transaction_active a" "list_all aof_writable rs"
    "y = Some (a\<lparr>transaction := transaction a @ log_of rs, transaction_capacity := cap\<rparr>)" by (auto simp: logged_Some)
  from 2 [unfolded y(3) logged_Some] obtain cap' where
    "list_all aof_writable rs'" "z = Some (a\<lparr>transaction := transaction a @ log_of rs @ log_of rs', transaction_capacity := cap'\<rparr>)"
    by auto
  with y Some show ?thesis unfolding Some logged_Some by (intro conjI exI [of _ cap']) simp_all
qed (simp add: logged_def)

lemma logged_ready: "logged rs (service_aof s) (service_aof s') \<Longrightarrow> ready s'"
  by (auto simp: logged_def ready_def split: option.splits)

lemma aof_append_ok:
  assumes "transaction_active a" "aof_append b a args = (a', None)"
  shows "logged [args] (Some a) (Some a')"
proof -
  have n: "aof_last_error a = None" using assms(2) by (auto simp: aof_append_def split: option.splits)
  obtain n where n': "encoded_size args = Inr n" using assms(2) n by (auto simp: aof_append_def split: sum.splits)
  obtain t c e where t: "append_to b (transaction a) (transaction_capacity a) args n = (t, c, e)" by (metis prod_cases3)
  have "a' = a\<lparr>transaction := t, transaction_capacity := c\<rparr>" "e = None"
    using assms n n' t by (auto simp: aof_append_def)
  moreover have "t = transaction a @ resp_frame args"
    using t \<open>e = None\<close> by (auto simp: append_to_def encode_record_frame split: if_splits sum.splits)
  ultimately show ?thesis using n' assms(1) by (auto simp: logged_def encoded_size_Inr)
qed

lemma capture_fields:
  "capture_mysql_mutation b s args = (s', ok) \<Longrightarrow> service_aof s' = service_aof s \<and> service_cache s' = service_cache s"
  by (auto simp: capture_mysql_mutation_def Let_def split: if_splits option.splits)

definition appended :: "('m, 'o) service \<Rightarrow> bytes list \<Rightarrow> ('m, 'o) service \<Rightarrow> bool \<Rightarrow> bool" where
  "appended s r s' ok \<longleftrightarrow> service_cache s' = service_cache s
     \<and> (ok \<longrightarrow> logged [r] (service_aof s) (service_aof s'))"

lemma append_aof_record_ok:
  assumes "ready s" "service_aof s = Some a" "append_aof_record env k s a args = (s', ok)"
  shows "appended s args s' ok"
proof -
  obtain a' e where a: "aof_append (record_allocated env k) a args = (a', e)" by fastforce
  have act: "transaction_active a" using assms by (simp add: ready_def)
  show ?thesis
  proof (cases e)
    case None
    with assms(3) a have "capture_mysql_mutation (mutation_allocated env k) (s\<lparr>service_aof := Some a'\<rparr>) args = (s', ok)"
      by (simp add: append_aof_record_def)
    from capture_fields [OF this] aof_append_ok [OF act] a None assms(2) show ?thesis by (simp add: appended_def)
  next
    case (Some e')
    with assms(3) a show ?thesis by (auto simp: append_aof_record_def appended_def)
  qed
qed

lemma append_none:
  "service_aof s = None \<Longrightarrow> append_key_command env k s cmd key = (s, True)"
  "service_aof s = None \<Longrightarrow> append_deadline_command env k s cmd key t = (s, True)"
  "service_aof s = None \<Longrightarrow> append_set_command env k s args t = (s, True)"
  "service_aof s = None \<Longrightarrow> append_original_command env k s args = (s, True)"
  by (simp_all add: append_key_command_def append_deadline_command_def append_set_command_def append_original_command_def)

lemma appended_refl: "service_aof s = None \<Longrightarrow> appended s r s True"
  by (simp add: appended_def logged_def)

lemma append_key_command_ok:
  assumes "ready s" "append_key_command env k s cmd key = (s', ok)"
  shows "appended s [ascii cmd, key] s' ok"
proof (cases "service_aof s")
  case None
  then show ?thesis using assms(2) by (auto simp: append_none appended_refl)
next
  case (Some a)
  then show ?thesis using append_aof_record_ok [OF assms(1) Some, of env k "[ascii cmd, key]"] assms(2)
    by (simp add: append_key_command_def)
qed

lemma append_deadline_command_ok:
  assumes "ready s" "append_deadline_command env k s cmd key t = (s', ok)"
  shows "appended s [ascii cmd, key, decimal_text (unat t)] s' ok"
proof (cases "service_aof s")
  case None
  then show ?thesis using assms(2) by (auto simp: append_none appended_refl)
next
  case (Some a)
  then show ?thesis using append_aof_record_ok [OF assms(1) Some, of env k "[ascii cmd, key, decimal_text (unat t)]"] assms(2)
    by (simp add: append_deadline_command_def)
qed

definition set_record :: "bytes \<Rightarrow> bytes \<Rightarrow> u64 \<Rightarrow> bytes list" where
  "set_record key v t = [ascii ''SET'', key, v] @ (if t \<noteq> 0 then [ascii ''PXAT'', decimal_text (unat t)] else [])"

lemma append_set_command_ok:
  assumes "ready s" "append_set_command env k s args t = (s', ok)"
  shows "appended s (set_record (args ! 1) (args ! 2) t) s' ok"
proof (cases "service_aof s")
  case None
  then show ?thesis using assms(2) by (auto simp: append_none appended_refl)
next
  case (Some a)
  then show ?thesis using append_aof_record_ok [OF assms(1) Some, of env k "set_record (args ! 1) (args ! 2) t"] assms(2)
    by (simp add: append_set_command_def set_record_def)
qed

lemma append_original_command_ok:
  assumes "ready s" "append_original_command env k s args = (s', ok)"
  shows "appended s args s' ok"
proof (cases "service_aof s")
  case None
  then show ?thesis using assms(2) by (auto simp: append_none appended_refl)
next
  case (Some a)
  then show ?thesis using append_aof_record_ok [OF assms(1) Some, of env k args] assms(2)
    by (auto simp: appended_def append_original_command_def split: if_splits)
qed

text \<open>The file took the records of all evictions.\<close>

fun evictions_accepted :: "service_env \<Rightarrow> nat \<Rightarrow> ('m, 'o) service \<Rightarrow> bytes list \<Rightarrow> bool" where
  "evictions_accepted env k s [] \<longleftrightarrow> True"
| "evictions_accepted env k s (key # keys) \<longleftrightarrow> snd (append_key_command env k s ''DEL'' key)
     \<and> evictions_accepted env (k + 1) (record_eviction env k s key) keys"

definition del_records :: "bytes list \<Rightarrow> bytes list list" where
  "del_records keys = map (\<lambda>k. [ascii ''DEL'', k]) keys"

lemma record_evictions_ok:
  assumes "ready s" "evictions_accepted env k s keys"
  shows "service_cache (record_evictions env k s keys) = service_cache s
    \<and> logged (del_records keys) (service_aof s) (service_aof (record_evictions env k s keys))"
  using assms
proof (induction keys arbitrary: k s)
  case Nil
  then show ?case by (simp add: logged_refl del_records_def)
next
  case (Cons key keys)
  obtain s1 where a: "append_key_command env k s ''DEL'' key = (s1, True)" using Cons.prems(2) by (cases "append_key_command env k s ''DEL'' key") auto
  note ap = append_key_command_ok [OF Cons.prems(1) a, unfolded appended_def]
  have r1: "record_eviction env k s key = s1" using a by (simp add: record_eviction_def)
  have "ready s1" using ap logged_ready by blast
  with Cons.IH [of s1 "k + 1"] Cons.prems(2) r1 ap logged_trans [of "[[ascii ''DEL'', key]]"] show ?case
    by (auto simp: del_records_def)
qed

lemma capture_cache_indep:
  "capture_mysql_mutation b (s\<lparr>service_cache := c\<rparr>) args = map_prod (\<lambda>s. s\<lparr>service_cache := c\<rparr>) id (capture_mysql_mutation b s args)"
  by (cases "required_bytes 0 args") (simp_all add: capture_mysql_mutation_def Let_def)

lemma append_cache_indep:
  "append_key_command env k (s\<lparr>service_cache := c\<rparr>) cmd key = map_prod (\<lambda>s. s\<lparr>service_cache := c\<rparr>) id (append_key_command env k s cmd key)"
proof (cases "service_aof s")
  case None
  then show ?thesis by (simp add: append_none)
next
  case (Some a)
  obtain a' e where a: "aof_append (record_allocated env k) a [ascii cmd, key] = (a', e)" by fastforce
  have eq: "s\<lparr>service_aof := Some a', service_cache := c\<rparr> = s\<lparr>service_cache := c, service_aof := Some a'\<rparr>" by simp
  note cap = capture_cache_indep [where s = "s\<lparr>service_aof := Some a'\<rparr>" and c = c, unfolded eq]
  show ?thesis by (cases e) (simp_all add: append_key_command_def append_aof_record_def Some a cap)
qed

lemma accepted_cache_indep:
  "evictions_accepted env k (s\<lparr>service_cache := c\<rparr>) keys = evictions_accepted env k s keys"
  by (induction keys arbitrary: k s)
    (simp_all add: append_cache_indep record_eviction_def)

lemma after_cache_ok:
  assumes "ready s" "evictions_accepted env 0 s (evictions (service_cache s) c)"
  shows "service_cache (after_cache env s c) = c"
    "logged (del_records (evictions (service_cache s) c)) (service_aof s) (service_aof (after_cache env s c))"
proof -
  have "ready (s\<lparr>service_cache := c\<rparr>)" using assms(1) by (simp add: ready_def)
  from record_evictions_ok [OF this, of env 0] assms(2) show
    "service_cache (after_cache env s c) = c"
    "logged (del_records (evictions (service_cache s) c)) (service_aof s) (service_aof (after_cache env s c))"
    by (simp_all add: after_cache_def accepted_cache_indep)
qed

end
