(* ===== verification/ServiceOps.thy ===== *)
theory ServiceOps
  imports ServiceSpec
begin

text \<open>
  The handlers of the command layer: for every key whose deadlines lie after the time \<open>T\<close>, the
  records a request appends, applied to the old value, give the new one.  \<open>T\<close> bounds every
  reading of the clock.
\<close>

subsection \<open>Contents\<close>

definition object_ok :: "('m, 'o) kv_object \<Rightarrow> bool" where
  "object_ok obj \<longleftrightarrow> (kv_object_type obj = HASH_TYPE \<longrightarrow> hash_object_inv obj)"

definition service_ok :: "('m, 'o) cache \<Rightarrow> bool" where
  "service_ok c \<longleftrightarrow> sound c \<and> on_evict c \<and> (\<forall>k d. content c k = Some d \<longrightarrow> object_ok (core_object d))"

lemma service_okD:
  assumes "service_ok c"
  shows "sound c" "on_evict c" "\<And>k d. content c k = Some d \<Longrightarrow> object_ok (core_object d)" "\<exists>xs. cache_ok c xs"
  using assms by (auto simp: service_ok_def sound_def cache_inv_def)

lemma service_ok_submap:
  assumes "service_ok c" "sound c'" "same_setup c c'" "content c' \<subseteq>\<^sub>m content c"
  shows "service_ok c'"
  using assms unfolding service_ok_def same_setup_def map_le_def by (metis domI)

lemma service_ok_update:
  assumes "service_ok c" "sound c'" "same_setup c c'" "content c' = (content c)(key \<mapsto> d)" "object_ok (core_object d)"
  shows "service_ok c'"
  using assms by (auto simp: service_ok_def same_setup_def)

definition readings :: "u64 \<Rightarrow> service_env \<Rightarrow> bool" where
  "readings T env \<longleftrightarrow> T < UINT64_MAX \<and> (\<forall>k. clock env k \<le> T)"

lemma slot_ok_live:
  assumes "slot_ok T (view c k)" "content c k = Some d" "t \<le> T"
  shows "\<not> expired_at t d" "live t (content c k) = Some d"
proof -
  have "core_expire d = 0 \<or> T < core_expire d" using assms(1,2) by (simp add: view_def)
  with assms(3) show "\<not> expired_at t d" unfolding expired_at_def by (meson leD order_trans)
  then show "live t (content c k) = Some d" using assms(2) by (simp add: live_def)
qed

lemma slot_ok_live_eq: "slot_ok T (view c k) \<Longrightarrow> t \<le> T \<Longrightarrow> live t (content c k) = content c k"
  using slot_ok_live(2) [of T c k _ t] by (cases "content c k") (simp add: live_def, metis)

lemma view_purge:
  assumes "content c' = purge key t (content c)" "t \<le> T" "slot_ok T (view c k)"
  shows "view c' k = view c k"
  using slot_ok_live_eq [of T c key t] assms by (auto simp: view_def purge_def)

lemma view_same: "content c' k = content c k \<Longrightarrow> view c' k = view c k"
  by (simp add: view_def)

lemma same_value_of: "same_value o1 o2 \<Longrightarrow> value_of o1 = value_of o2"
  by (auto simp: same_value_def value_of_def)

lemma apply_del_records: "apply_log (del_records ks) k x = (if k \<in> set ks then None else x)"
  by (induction ks arbitrary: x) (simp_all add: del_records_def)

lemma stored_evictions:
  assumes s: "stored c key obj charge e t vs c'" and ev: "on_evict c"
  shows "evictions c c' = [core_key (victim c a). a \<leftarrow> vs, \<not> expired_at t (victim c a)]"
    "set (evictions c c') \<subseteq> victim_keys c vs" "key \<notin> set (evictions c c')"
proof -
  show evs: "evictions c c' = [core_key (victim c a). a \<leftarrow> vs, \<not> expired_at t (victim c a)]"
    using s ev by (simp add: stored_def evictions_def)
  then show sub: "set (evictions c c') \<subseteq> victim_keys c vs" by (auto simp: victim_keys_def split: if_splits)
  have "key \<notin> victim_keys c vs" using s unfolding stored_def by blast
  with sub show "key \<notin> set (evictions c c')" by blast
qed

lemma stored_view:
  assumes ok: "cache_ok c xs" and s: "stored c key obj charge e t vs c'" and ev: "on_evict c" and t: "t \<le> T"
    and k: "slot_ok T (view c k)"
  shows "view c' k = (if k = key then Some (value_of obj, e) else if k \<in> set (evictions c c') then None else view c k)"
proof -
  have cat: "catalog_ok c" using ok by (simp add: cache_ok_def)
  note evs = stored_evictions [OF s ev]
  obtain d where d: "content c' = (content c |` (- victim_keys c vs))(key \<mapsto> d)" "core_expire d = e" "same_value (core_object d) obj"
    using s by (auto simp: stored_def)
  show "view c' k = (if k = key then Some (value_of obj, e) else if k \<in> set (evictions c c') then None else view c k)"
  proof (cases "k = key")
    case True
    with d same_value_of [OF d(3)] show ?thesis by (simp add: view_def)
  next
    case False
    have "k \<in> set (evictions c c')" if v: "k \<in> victim_keys c vs"
    proof -
      obtain a where a: "a \<in> set vs" "k = core_key (victim c a)" using v by (auto simp: victim_keys_def)
      have "a \<in> dom (entries c)" using s a(1) by (auto simp: stored_def)
      then have "core_view c a = Some (victim c a)" by (auto simp: victim_def core_view_def)
      then have "content c k = Some (victim c a)" using content_iff [OF cat] a(2) by blast
      then have "\<not> expired_at t (victim c a)" using slot_ok_live(1) [OF k _ t] by blast
      with a show ?thesis unfolding evs(1) by force
    qed
    with evs(2) False d(1) show ?thesis by (auto simp: view_def restrict_map_def)
  qed
qed

subsection \<open>Effects\<close>

definition step_ok :: "u64 \<Rightarrow> ('m, 'o) service \<Rightarrow> bytes list list \<Rightarrow> ('m, 'o) service \<Rightarrow> bool" where
  "step_ok T s rs s' \<longleftrightarrow> service_ok (service_cache s') \<and> logged rs (service_aof s) (service_aof s')
     \<and> (\<forall>k. slot_ok T (view (service_cache s) k) \<longrightarrow> list_all (safe T k) rs \<longrightarrow>
          view (service_cache s') k = apply_log rs k (view (service_cache s) k))"

lemma step_ok_quiet:
  assumes "ready s" "service_ok (service_cache s')" "service_aof s' = service_aof s"
    and "\<And>k. slot_ok T (view (service_cache s) k) \<Longrightarrow> view (service_cache s') k = view (service_cache s) k"
  shows "step_ok T s [] s'"
  using assms logged_refl [of s] by (simp add: step_ok_def)

lemma step_ok_appended:
  assumes "ready s" "service_ok c'" "appended (s\<lparr>service_cache := c'\<rparr>) r s' True"
    and "\<And>k. slot_ok T (view (service_cache s) k) \<Longrightarrow> safe T k r \<Longrightarrow>
       view c' k = apply_log [r] k (view (service_cache s) k)"
  shows "step_ok T s [r] s'"
  using assms by (simp add: step_ok_def appended_def)

lemma purge_service_ok:
  assumes "service_ok c" "cache_ok c' xs'" "same_setup c c'" "content c' = purge key t (content c)"
  shows "service_ok c'"
proof -
  obtain xs where ok: "cache_ok c xs" using service_okD(4) [OF assms(1)] by blast
  have le: "content c' \<subseteq>\<^sub>m content c" using assms(4) purge_submap by metis
  with sound_keep [OF service_okD(1) [OF assms(1)] ok assms(2,3)] show ?thesis
    using service_ok_submap [OF assms(1) _ assms(3)] by blast
qed

subsection \<open>Reading\<close>

lemma purge_step:
  assumes "ready s" "service_ok (service_cache s)" "cache_ok c' xs'" "same_setup (service_cache s) c'"
    "content c' = purge key t (content (service_cache s))" "t \<le> T"
  shows "step_ok T s [] (s\<lparr>service_cache := c'\<rparr>)"
  by (rule step_ok_quiet [OF assms(1)])
    (use purge_service_ok [OF assms(2-5)] view_purge [OF assms(5,6)] in simp_all)

lemma read_step:
  assumes "ready s" "service_ok (service_cache s)" "readings T env"
    "cache_get_object_ref (clock env i) (service_cache s) key b = (c', r)"
  shows "step_ok T s [] (s\<lparr>service_cache := c'\<rparr>)"
proof -
  obtain xs where ok: "cache_ok (service_cache s) xs" using service_okD(4) [OF assms(2)] by blast
  from cache_get_object_ref_ok [OF ok assms(4)] obtain xs' where rp: "read_post (service_cache s) xs key (clock env i) b c' xs' r" by blast
  show ?thesis
    by (rule purge_step [OF assms(1,2), of c' xs' key "clock env i"]) (use rp assms(3) in \<open>simp_all add: read_post_def readings_def\<close>)
qed

lemma read_hash_step:
  assumes "ready s" "service_ok (service_cache s)" "readings T env"
    "cache_get_hash_object_ref (clock env i) (service_cache s) key b = (c', r)"
  shows "step_ok T s [] (s\<lparr>service_cache := c'\<rparr>)"
proof -
  obtain xs where ok: "cache_ok (service_cache s) xs" using service_okD(4) [OF assms(2)] by blast
  from cache_get_hash_object_ref_ok [OF ok assms(4)] obtain xs' where rp: "read_post (service_cache s) xs key (clock env i) b c' xs' r" by blast
  show ?thesis
    by (rule purge_step [OF assms(1,2), of c' xs' key "clock env i"]) (use rp assms(3) in \<open>simp_all add: read_post_def readings_def\<close>)
qed

lemma execute_get_ok:
  assumes "ready s" "service_ok (service_cache s)" "readings T env" "execute_get env s args = (s', reply)"
  shows "step_ok T s [] s'"
proof -
  obtain c' r where r: "cache_get_object_ref (clock env 0) (service_cache s) (args ! 1) True = (c', r)" by fastforce
  with assms(4) have "s' = s\<lparr>service_cache := c'\<rparr>" by (simp add: execute_get_def cache_get_object_def)
  with read_step [OF assms(1-3) r] show ?thesis by simp
qed

lemma execute_ttl_ok:
  assumes "ready s" "service_ok (service_cache s)" "readings T env" "execute_ttl env s args b = (s', reply)"
  shows "step_ok T s [] s'"
proof -
  obtain xs where ok: "cache_ok (service_cache s) xs" using service_okD(4) [OF assms(2)] by blast
  obtain c' n where r: "cache_ttl_ms (clock env 0) (service_cache s) (args ! 1) = (c', n)" by fastforce
  with assms(4) have s': "s' = s\<lparr>service_cache := c'\<rparr>" by (simp add: execute_ttl_def)
  from cache_ttl_ms_ok [OF ok r] obtain xs' where "cache_ok c' xs'" "same_setup (service_cache s) c'"
    "content c' = purge (args ! 1) (clock env 0) (content (service_cache s))" by blast
  from purge_step [OF assms(1,2) this] assms(3) show ?thesis by (simp add: s' readings_def)
qed

subsection \<open>Deletion and deadlines\<close>

lemma delete_step:
  assumes "service_ok c" "cache_delete t c key = (c', n)" "t \<le> T"
  shows "service_ok c'" "n = 0 \<or> n = 1" "content c' = (content c)(key := None)"
    "n = 0 \<Longrightarrow> slot_ok T (view c key) \<Longrightarrow> content c key = None"
    "evict_log c' = evict_log c" "same_setup c c'"
proof -
  obtain xs where ok: "cache_ok c xs" using service_okD(4) [OF assms(1)] by blast
  from cache_delete_ok [OF ok assms(2)] obtain xs' where d: "cache_ok c' xs'" "content c' = (content c)(key := None)"
    "same_setup c c'" "n = (if live t (content c key) = None then 0 else 1)" "evict_log c' = evict_log c" by blast
  show "service_ok c'"
    using service_ok_submap [OF assms(1) _ d(3)] delete_sound [OF service_okD(1) [OF assms(1)] assms(2)] d(2) map_le_delete by metis
  show "n = 0 \<or> n = 1" "content c' = (content c)(key := None)" using d by auto
  show "content c key = None" if "n = 0" "slot_ok T (view c key)"
    using d(4) that(1) slot_ok_live_eq [OF that(2) assms(3)] by (simp split: if_splits)
  show "evict_log c' = evict_log c" "same_setup c c'" using d by auto
qed

text \<open>A deletion that reported a key logs DEL; one that reported none changes nothing visible.\<close>

lemma delete_step_ok:
  assumes "ready s" "service_ok (service_cache s)" "cache_delete t (service_cache s) key = (c', n)" "t \<le> T"
  shows "n = 0 \<Longrightarrow> step_ok T s [] (s\<lparr>service_cache := c'\<rparr>)"
    "appended (s\<lparr>service_cache := c'\<rparr>) [ascii ''DEL'', key] s' True \<Longrightarrow> step_ok T s [[ascii ''DEL'', key]] s'"
proof -
  note d = delete_step [OF assms(2-4)]
  show "step_ok T s [] (s\<lparr>service_cache := c'\<rparr>)" if "n = 0"
    by (rule step_ok_quiet [OF assms(1)]) (use d that in \<open>auto simp: view_def\<close>)
  show "step_ok T s [[ascii ''DEL'', key]] s'" if "appended (s\<lparr>service_cache := c'\<rparr>) [ascii ''DEL'', key] s' True"
    by (rule step_ok_appended [OF assms(1) d(1) that]) (use d in \<open>auto simp: view_def\<close>)
qed

lemma ready_cache [simp]: "ready (s\<lparr>service_cache := c\<rparr>) = ready s"
  by (simp add: ready_def)

lemma execute_del_ok:
  assumes "ready s" "service_ok (service_cache s)" "readings T env" "execute_del env s args = (s', reply)"
    "reply \<noteq> KVSTORE_REPLY_ERROR error_aof"
  shows "\<exists>rs. step_ok T s rs s'"
proof -
  obtain c' n where r: "cache_delete (clock env 0) (service_cache s) (args ! 1) = (c', n)" by fastforce
  have t: "clock env 0 \<le> T" using assms(3) by (simp add: readings_def)
  note d = delete_step_ok [OF assms(1,2) r t]
  obtain s1 ok where a: "append_key_command env 0 (s\<lparr>service_cache := c'\<rparr>) ''DEL'' (args ! 1) = (s1, ok)" by fastforce
  from append_key_command_ok [OF _ a] assms(1) have ap: "appended (s\<lparr>service_cache := c'\<rparr>) [ascii ''DEL'', args ! 1] s1 ok" by simp
  from delete_step(2) [OF assms(2) r t] have "n = 0 \<or> n = 1" .
  then show ?thesis
  proof
    assume n: "n = 0"
    then have "s' = s\<lparr>service_cache := c'\<rparr>" using assms(4) r by (simp add: execute_del_def)
    with d(1) [OF n] show ?thesis by blast
  next
    assume n: "n = 1"
    then have "s' = s1" ok using assms(4,5) r a by (auto simp: execute_del_def split: if_splits)
    with d(2) [of s1] ap show ?thesis by auto
  qed
qed

lemma persist_step:
  assumes "service_ok c" "cache_persist t c key = (c', n)" "t \<le> T"
  shows "service_ok c'" "n = 0 \<or> n = 1"
    "slot_ok T (view c k) \<Longrightarrow> view c' k = (if k = key then map_option (\<lambda>(v, d). (v, 0)) (view c k) else view c k)"
    "n = 0 \<Longrightarrow> slot_ok T (view c k) \<Longrightarrow> view c' k = view c k"
proof -
  obtain xs where ok: "cache_ok c xs" using service_okD(4) [OF assms(1)] by blast
  from cache_persist_ok [OF ok assms(2)] obtain xs' where su: "same_setup c c'" and p: "case live t (content c key) of
       None \<Rightarrow> n = 0 \<and> content c' = (content c)(key := None)
     | Some d \<Rightarrow> n = (if core_expire d = 0 then 0 else 1) \<and> content c' = (content c)(key \<mapsto> d\<lparr>core_expire := 0\<rparr>)" by blast
  have s: "sound c'" using persist_sound [OF service_okD(1) [OF assms(1)] assms(2)] by blast
  show "service_ok c'"
  proof (cases "live t (content c key)")
    case None
    with p map_le_delete [of "content c" key] service_ok_submap [OF assms(1) s su] show ?thesis by simp
  next
    case (Some d)
    then have "object_ok (core_object (d\<lparr>core_expire := 0\<rparr>))" using service_okD(3) [OF assms(1) live_some] by simp
    with p Some service_ok_update [OF assms(1) s su] show ?thesis by simp
  qed
  show "n = 0 \<or> n = 1" using p by (auto split: option.splits)
  have other: "content c' k = content c k" if "k \<noteq> key" for k using p that by (auto split: option.splits)
  have own: "content c' key = map_option (\<lambda>d. d\<lparr>core_expire := 0\<rparr>) (content c key)"
    "n = 0 \<Longrightarrow> content c' key = content c key" if "slot_ok T (view c key)"
    using p slot_ok_live_eq [OF that assms(3)] by (auto split: option.splits if_splits)
  show "view c' k = (if k = key then map_option (\<lambda>(v, d). (v, 0)) (view c k) else view c k)" if "slot_ok T (view c k)"
    using own(1) other [of k] that by (cases "content c key") (auto simp: view_def)
  show "view c' k = view c k" if "n = 0" "slot_ok T (view c k)"
    using own(2) other [of k] that by (cases "k = key") (auto simp: view_def)
qed

lemma execute_persist_ok:
  assumes "ready s" "service_ok (service_cache s)" "readings T env" "execute_persist env s args = (s', reply)"
    "reply \<noteq> KVSTORE_REPLY_ERROR error_aof"
  shows "\<exists>rs. step_ok T s rs s'"
proof -
  obtain c' n where r: "cache_persist (clock env 0) (service_cache s) (args ! 1) = (c', n)" by fastforce
  have t: "clock env 0 \<le> T" using assms(3) by (simp add: readings_def)
  note d = persist_step [OF assms(2) r t]
  obtain s1 ok where a: "append_key_command env 0 (s\<lparr>service_cache := c'\<rparr>) ''PERSIST'' (args ! 1) = (s1, ok)" by fastforce
  from append_key_command_ok [OF _ a] assms(1) have ap: "appended (s\<lparr>service_cache := c'\<rparr>) [ascii ''PERSIST'', args ! 1] s1 ok" by simp
  from d(2) show ?thesis
  proof
    assume n: "n = 0"
    then have "s' = s\<lparr>service_cache := c'\<rparr>" using assms(4) r by (simp add: execute_persist_def)
    with step_ok_quiet [OF assms(1), of s'] d(1) d(4) [OF n] show ?thesis by auto
  next
    assume n: "n = 1"
    then have "s' = s1" ok using assms(4,5) r a by (auto simp: execute_persist_def split: if_splits)
    moreover have "step_ok T s [[ascii ''PERSIST'', args ! 1]] s1" if "appended (s\<lparr>service_cache := c'\<rparr>) [ascii ''PERSIST'', args ! 1] s1 True"
      by (rule step_ok_appended [OF assms(1) d(1) that]) (use d(3) in auto)
    ultimately show ?thesis using ap by auto
  qed
qed

lemma uint64_le_div: "x \<le> UINT64_MAX div m \<Longrightarrow> m \<noteq> 0 \<Longrightarrow> unat (x * m) = unat x * unat m"
proof -
  assume x: "x \<le> UINT64_MAX div m" and m: "m \<noteq> 0"
  have "unat x \<le> unat UINT64_MAX div unat m" using x by (simp add: word_le_nat_alt unat_div)
  then have "unat x * unat m \<le> unat UINT64_MAX div unat m * unat m" by (rule mult_le_mono1)
  also have "\<dots> \<le> unat UINT64_MAX" by simp
  finally have "unat x * unat m < 2 ^ 64" by (simp add: UINT64_MAX_def)
  then show ?thesis by (simp add: unat_word_ariths)
qed

lemma uint64_add: "x \<le> UINT64_MAX - now \<Longrightarrow> unat (now + x) = unat now + unat x"
proof -
  assume x: "x \<le> UINT64_MAX - now"
  have le: "now \<le> UINT64_MAX" using unsigned_less [of now, where ?'a = nat] by (simp add: word_le_nat_alt UINT64_MAX_def)
  have "unat x \<le> unat UINT64_MAX - unat now" using x by (simp add: word_le_nat_alt unat_sub [OF le])
  moreover have "unat now \<le> unat UINT64_MAX" using le by (simp add: word_le_nat_alt)
  ultimately have "unat now + unat x \<le> unat UINT64_MAX" by simp
  then have "unat now + unat x < 2 ^ 64" by (simp add: UINT64_MAX_def)
  then show ?thesis by (simp add: unat_word_ariths)
qed

lemma parsed_range: "parse_int64 a = Some v \<Longrightarrow> - (2 ^ 63) \<le> v \<and> v < 2 ^ 63"
proof (cases a)
  case (Cons b bs)
  assume p: "parse_int64 a = Some v"
  show ?thesis
  proof (cases "b = 45")
    case True
    with Cons p show ?thesis by (cases "bs = []") (auto simp: parse_int64_negative parse_int64_other split: if_splits)
  next
    case False
    with Cons p show ?thesis
      by (cases "is_digit b") (auto simp: parse_int64_plain parse_int64_other simp del: decimal_value_simps split: if_splits)
  qed
qed (simp add: parse_int64_other)

lemma duration_positive:
  assumes "duration_ms a m b = Inr (v, ms)" "0 < v" "m \<noteq> 0"
  shows "ms \<noteq> 0" "unat ms = nat v * unat m"
proof -
  from assms have p: "parse_int64 a = Some v" "of_int v \<le> UINT64_MAX div m" "ms = of_int v * m"
    by (auto simp: duration_ms_def split: option.splits if_splits)
  have "unat (of_int v :: u64) = nat v"
    using parsed_range [OF p(1)] assms(2) by (simp add: unsigned_of_int take_bit_int_eq_self)
  with uint64_le_div [OF p(2) assms(3)] p(3) show u: "unat ms = nat v * unat m" by simp
  have "0 < unat m" using assms(3) by (simp add: unat_gt_0)
  with u assms(2) have "unat ms \<noteq> 0" by simp
  then show "ms \<noteq> 0" by auto
qed

lemma deadline_nonzero: "ttl \<noteq> 0 \<Longrightarrow> \<not> ttl > UINT64_MAX - now \<Longrightarrow> now + ttl \<noteq> 0"
proof -
  assume t: "ttl \<noteq> 0" "\<not> ttl > UINT64_MAX - now"
  then have "unat (now + ttl) = unat now + unat ttl" by (intro uint64_add) simp
  moreover have "0 < unat ttl" using t(1) by (simp add: unat_gt_0)
  ultimately have "unat (now + ttl) \<noteq> 0" by simp
  then show ?thesis by auto
qed

lemma expire_step:
  assumes "service_ok c" "cache_expire_at b t c key dl = (c', n)" "t \<le> T" "dl \<noteq> 0"
  shows "service_ok c'" "n = 0 \<or> n = 1 \<or> n = - 1"
    "n = 1 \<Longrightarrow> slot_ok T (view c k) \<Longrightarrow> view c' k = (if k = key then map_option (\<lambda>(v, d). (v, dl)) (view c k) else view c k)"
    "n \<noteq> 1 \<Longrightarrow> slot_ok T (view c k) \<Longrightarrow> view c' k = view c k"
    "n = - 1 \<Longrightarrow> \<exists>d. content c key = Some d"
proof -
  obtain xs where ok: "cache_ok c xs" using service_okD(4) [OF assms(1)] by blast
  from cache_expire_at_ok [OF ok assms(2,4)] obtain xs' where su: "same_setup c c'" and p: "case live t (content c key) of
       None \<Rightarrow> n = 0 \<and> content c' = (content c)(key := None)
     | Some d \<Rightarrow> n = 1 \<and> content c' = (content c)(key \<mapsto> d\<lparr>core_expire := dl\<rparr>)
         \<or> n = - 1 \<and> content c' = content c \<and> core_expire d = 0" by blast
  have s: "sound c'" using expire_at_sound [OF service_okD(1) [OF assms(1)] assms(2)] by blast
  show "service_ok c'"
  proof (cases "live t (content c key)")
    case None
    with p map_le_delete [of "content c" key] service_ok_submap [OF assms(1) s su] show ?thesis by simp
  next
    case (Some d)
    then have "object_ok (core_object (d\<lparr>core_expire := dl\<rparr>))" using service_okD(3) [OF assms(1) live_some] by simp
    with p Some service_ok_update [OF assms(1) s su] service_ok_submap [OF assms(1) s su] show ?thesis by auto
  qed
  show "n = 0 \<or> n = 1 \<or> n = - 1" using p by (auto split: option.splits)
  have other: "content c' k = content c k" if "k \<noteq> key" for k using p that by (auto split: option.splits)
  have own: "n = 1 \<Longrightarrow> content c' key = map_option (\<lambda>d. d\<lparr>core_expire := dl\<rparr>) (content c key)"
    "n \<noteq> 1 \<Longrightarrow> content c' key = content c key" if "slot_ok T (view c key)"
    using p slot_ok_live_eq [OF that assms(3)] by (auto split: option.splits if_splits)
  show "view c' k = (if k = key then map_option (\<lambda>(v, d). (v, dl)) (view c k) else view c k)" if "n = 1" "slot_ok T (view c k)"
    using own(1) other [of k] that by (cases "content c key") (auto simp: view_def)
  show "view c' k = view c k" if "n \<noteq> 1" "slot_ok T (view c k)"
    using own(2) other [of k] that by (cases "k = key") (auto simp: view_def)
  show "\<exists>d. content c key = Some d" if "n = - 1"
    using p that live_some [of t c key] by (auto split: option.splits)
qed

lemma execute_expire_ok:
  assumes "ready s" "service_ok (service_cache s)" "readings T env" "execute_expire env s args m = (s', reply)"
    "reply \<noteq> KVSTORE_REPLY_ERROR error_aof" "m \<noteq> 0"
  shows "\<exists>rs. step_ok T s rs s'"
proof (cases "duration_ms (args ! 2) m False")
  case (Inl r)
  then have "s' = s" using assms(4) by (simp add: execute_expire_def)
  with step_ok_quiet [OF assms(1,2)] show ?thesis by auto
next
  case (Inr p)
  obtain v ms where p: "p = (v, ms)" by fastforce
  have t: "clock env 0 \<le> T" "clock env 1 \<le> T" using assms(3) by (simp_all add: readings_def)
  let ?now = "clock env 0" and ?key = "args ! 1"
  show ?thesis
  proof (cases "v \<le> 0")
    case True
    obtain c' n where r: "cache_delete ?now (service_cache s) ?key = (c', n)" by fastforce
    note d = delete_step_ok [OF assms(1,2) r t(1)]
    obtain s1 ok where a: "append_key_command env 0 (s\<lparr>service_cache := c'\<rparr>) ''DEL'' ?key = (s1, ok)" by fastforce
    from append_key_command_ok [OF _ a] assms(1) have ap: "appended (s\<lparr>service_cache := c'\<rparr>) [ascii ''DEL'', ?key] s1 ok" by simp
    from delete_step(2) [OF assms(2) r t(1)] show ?thesis
    proof
      assume n: "n = 0"
      then have "s' = s\<lparr>service_cache := c'\<rparr>" using assms(4) r Inr p True by (simp add: execute_expire_def)
      with d(1) [OF n] show ?thesis by blast
    next
      assume n: "n = 1"
      then have "s' = s1" ok using assms(4,5) r a Inr p True by (auto simp: execute_expire_def Let_def split: if_splits)
      with d(2) [of s1] ap show ?thesis by auto
    qed
  next
    case v: False
    show ?thesis
    proof (cases "ms > UINT64_MAX - ?now")
      case True
      then have "s' = s" using assms(4) Inr p v by (simp add: execute_expire_def Let_def)
      with step_ok_quiet [OF assms(1,2)] show ?thesis by auto
    next
      case False
      let ?dl = "?now + ms"
      have dl: "?dl \<noteq> 0" using duration_positive(1) [OF Inr [unfolded p] _ assms(6)] v deadline_nonzero [OF _ False] by simp
      obtain c' n where r: "cache_expire_at (heap_allocated (entry_alloc env)) (clock env 1) (service_cache s) ?key ?dl = (c', n)"
        by fastforce
      note e = expire_step [OF assms(2) r t(2) dl]
      obtain s1 ok where a: "append_deadline_command env 0 (s\<lparr>service_cache := c'\<rparr>) ''PEXPIREAT'' ?key ?dl = (s1, ok)" by fastforce
      let ?r = "[ascii ''PEXPIREAT'', ?key, decimal_text (unat ?dl)]"
      from append_deadline_command_ok [OF _ a] assms(1) have ap: "appended (s\<lparr>service_cache := c'\<rparr>) ?r s1 ok" by simp
      show ?thesis
      proof (cases "n = 1")
        case True
        then have "s' = s1" ok using assms(4,5) r a Inr p v False by (auto simp: execute_expire_def Let_def split: if_splits)
        moreover have "step_ok T s [?r] s1" if "appended (s\<lparr>service_cache := c'\<rparr>) ?r s1 True"
          by (rule step_ok_appended [OF assms(1) e(1) that]) (use e(3) [OF True] in auto)
        ultimately show ?thesis using ap by auto
      next
        case n: False
        then have "s' = s\<lparr>service_cache := c'\<rparr>" using assms(4) r Inr p v False e(2) by (auto simp: execute_expire_def Let_def)
        with step_ok_quiet [OF assms(1), of s'] e(1) e(4) [OF n] show ?thesis by auto
      qed
    qed
  qed
qed

subsection \<open>Storing\<close>

lemma capture_cache: "service_cache (fst (capture_mysql_mutation b s args)) = service_cache s"
  using capture_fields [of b s args] by (metis prod.collapse)

lemma record_evictions_cache [simp]: "service_cache (record_evictions env k s keys) = service_cache s"
proof (induction keys arbitrary: k s)
  case (Cons key keys)
  have "service_cache (record_eviction env k s key) = service_cache s"
    by (cases "service_aof s") (auto simp: record_eviction_def append_key_command_def append_aof_record_def
        capture_cache split: prod.split option.split)
  with Cons.IH show ?case by simp
qed simp

lemma after_cache_cache [simp]: "service_cache (after_cache env s c) = c"
  by (simp add: after_cache_def)

lemma append_set_cache: "append_set_command env k s args t = (s', ok) \<Longrightarrow> service_cache s' = service_cache s"
  by (cases "service_aof s") (auto simp: append_set_command_def append_aof_record_def
      dest: capture_fields split: prod.splits option.splits)

lemma append_original_cache: "append_original_command env k s args = (s', ok) \<Longrightarrow> service_cache s' = service_cache s"
  by (cases "service_aof s") (auto simp: append_original_command_def append_aof_record_def
      dest: capture_fields split: prod.splits option.splits if_splits)

text \<open>The records of the evictions and one record after them.\<close>

lemma evict_append_ok:
  assumes "ready s" "service_ok c'" "evictions_accepted env 0 s (evictions (service_cache s) c')"
    and a: "ready (after_cache env s c') \<Longrightarrow> appended (after_cache env s c') r s' True"
    and v: "\<And>k. slot_ok T (view (service_cache s) k) \<Longrightarrow> safe T k r \<Longrightarrow> view c' k =
      apply_log [r] k (if k \<in> set (evictions (service_cache s) c') then None else view (service_cache s) k)"
  shows "step_ok T s (del_records (evictions (service_cache s) c') @ [r]) s'"
proof -
  note l = after_cache_ok [OF assms(1,3)]
  have ap: "service_cache s' = c'" "logged [r] (service_aof (after_cache env s c')) (service_aof s')"
    using a [OF logged_ready [OF l(2)]] by (simp_all add: appended_def)
  show ?thesis
    using logged_trans [OF l(2) ap(2)] v assms(2) ap(1)
    by (simp add: step_ok_def apply_log_append apply_del_records del: apply_log.simps)
qed

lemma same_value_ok: "same_value o1 o2 \<Longrightarrow> object_ok o2 \<Longrightarrow> object_ok o1"
  by (auto simp: same_value_def object_ok_def kv_object_type_def)

lemma store_step:
  assumes c: "service_ok c" and f: "fresh alloc c" and o: "object_ok obj"
    and st: "cache_store_object alloc clk c key obj e preserve = Some (c', r)"
    and T: "T < UINT64_MAX" "\<And>i. clk i \<le> T"
  shows "service_ok c'" "r \<noteq> CACHE_SET_RANGE"
    "r = CACHE_SET_OK \<Longrightarrow> key \<notin> set (evictions c c')"
    "r = CACHE_SET_OK \<Longrightarrow> slot_ok T (view c k) \<Longrightarrow> view c' k = (if k = key
       then Some (value_of obj, if preserve then (case view c key of None \<Rightarrow> e | Some (v, d) \<Rightarrow> d) else e)
       else if k \<in> set (evictions c c') then None else view c k)"
    "r \<noteq> CACHE_SET_OK \<Longrightarrow> evictions c c' = []"
    "r \<noteq> CACHE_SET_OK \<Longrightarrow> slot_ok T (view c k) \<Longrightarrow> view c' k = view c k"
    "prefix (evict_log c) (evict_log c')"
proof -
  obtain xs where ok: "cache_ok c xs" using service_okD(4) [OF c] by blast
  have fr: "\<And>a. entry_allocated alloc = Some a \<Longrightarrow> entries c a = None" using f by (simp add: fresh_def)
  let ?t = "clock_time (store_now clk e) (clk 1)" and ?t2 = "clock_time (store_now clk e) (clk 2)"
  have t: "?t \<le> T" "?t2 \<le> T" using T(2) by (simp_all add: not_le)
  have "store_outcome clk c xs key obj e preserve (Some (c', r))"
    using cache_store_object_ok [where alloc = alloc and clock = clk, OF ok fr] st by metis
  then obtain xs' where ok': "cache_ok c' xs'" and su: "same_setup c c'" and post: "store_post clk c xs key obj e preserve c' xs' r"
    unfolding store_outcome_def by auto
  have s: "sound c'" using store_sound [OF service_okD(1) [OF c] f st] by blast
  show "r \<noteq> CACHE_SET_RANGE" using post by (auto simp: store_post_def Let_def)
  have stored: "\<exists>vs. stored c key obj (entry_memory_charge (length key) obj) (store_deadline c key ?t e preserve) ?t2 vs c'" if "r = CACHE_SET_OK"
    using post that unfolding store_post_def Let_def by auto
  have quiet: "content c' = purge key ?t (content c) \<or> c' = c" "evict_log c' = evict_log c" if "r \<noteq> CACHE_SET_OK"
    using post that unfolding store_post_def Let_def by (cases r; auto)+
  show "service_ok c'"
  proof (cases "r = CACHE_SET_OK")
    case True
    then obtain vs d where "content c' = (content c |` (- victim_keys c vs))(key \<mapsto> d)" "same_value (core_object d) obj"
      using stored unfolding stored_def by blast
    then show ?thesis using c s su same_value_ok [OF _ o] by (auto simp: service_ok_def same_setup_def restrict_map_def split: if_splits)
  next
    case False
    with quiet(1) purge_service_ok [OF c ok' su] c show ?thesis by blast
  qed
  show "key \<notin> set (evictions c c')" if "r = CACHE_SET_OK"
    using stored [OF that] stored_evictions(3) [OF _ service_okD(2) [OF c]] by blast
  show "view c' k = (if k = key
       then Some (value_of obj, if preserve then (case view c key of None \<Rightarrow> e | Some (v, d) \<Rightarrow> d) else e)
       else if k \<in> set (evictions c c') then None else view c k)" if r: "r = CACHE_SET_OK" and k: "slot_ok T (view c k)"
  proof -
    obtain vs where "stored c key obj (entry_memory_charge (length key) obj) (store_deadline c key ?t e preserve) ?t2 vs c'"
      using stored [OF r] by blast
    note v = stored_view [OF ok this service_okD(2) [OF c] t(2) k]
    have dl: "store_deadline c k ?t e preserve = (if preserve then (case view c k of None \<Rightarrow> e | Some (v, d) \<Rightarrow> d) else e)"
      using slot_ok_live_eq [OF k t(1)] by (auto simp: store_deadline_def view_def split: option.split)
    show ?thesis
    proof (cases "k = key")
      case True
      with v dl show ?thesis by (simp only: if_True refl)
    next
      case False
      with v show ?thesis by (simp only: if_False)
    qed
  qed
  show "prefix (evict_log c) (evict_log c')"
    using stored quiet(2) by (cases "r = CACHE_SET_OK") (auto simp: stored_def)
  show "evictions c c' = []" if "r \<noteq> CACHE_SET_OK" using quiet(2) [OF that] by (simp add: evictions_def)
  show "view c' k = view c k" if "r \<noteq> CACHE_SET_OK" "slot_ok T (view c k)"
    using quiet(1) [OF that(1)] view_purge [OF _ t(1) that(2)] by auto
qed

lemma string_value_of: "kv_object_create_string b v = Some obj \<Longrightarrow> value_of obj = Text v \<and> object_ok obj"
  by (auto simp: kv_object_create_string_def value_of_def object_ok_def kv_object_type_def split: if_splits)

lemma set_record_effect:
  "record_effect (set_record key v t) x = Some (Text v, t)" "record_deadline (set_record key v t) = t"
  "apply_log [set_record key v t] k x = (if k = key then Some (Text v, t) else x)"
  by (auto simp: set_record_def)

lemma execute_set_ok:
  assumes "ready s" "service_ok (service_cache s)" "readings T env" "fresh (entry_alloc env) (service_cache s)"
    "execute_set env s args = Some (s', reply)" "reply \<noteq> KVSTORE_REPLY_ERROR error_aof"
    "evictions_accepted env 0 s (evictions (service_cache s) (service_cache s'))"
  shows "\<exists>rs. step_ok T s rs s'"
proof (cases "set_options args")
  case (Inl e)
  then have "s' = s" using assms(5) by (simp add: execute_set_def)
  with step_ok_quiet [OF assms(1,2)] show ?thesis by auto
next
  case (Inr ttl)
  let ?c = "service_cache s" and ?now = "clock env 0" and ?key = "args ! 1" and ?v = "args ! 2"
  let ?e = "if ttl \<noteq> 0 then ?now + ttl else 0" and ?clk = "\<lambda>k. clock env (k + 1)"
  show ?thesis
  proof (cases "ttl \<noteq> 0 \<and> ttl > UINT64_MAX - ?now")
    case True
    then have "s' = s" using assms(5) Inr by (simp add: execute_set_def Let_def)
    with step_ok_quiet [OF assms(1,2)] show ?thesis by auto
  next
    case False
    obtain c' r where r: "cache_set_expire_at (string_allocated env) (entry_alloc env) ?clk ?c ?key ?v ?e = Some (c', r)"
      using assms(5) Inr False by (auto simp: execute_set_def Let_def split: option.splits)
    show ?thesis
    proof (cases "kv_object_create_string (string_allocated env) ?v :: ('a, 'b) kv_object option")
      case None
      then have "c' = ?c" "r = CACHE_SET_ERROR" using r by (simp_all add: cache_set_expire_at_def)
      then have "s' = after_cache env s ?c" using assms(5) Inr False r by (auto simp: execute_set_def Let_def)
      then have "s' = s" by (simp add: after_cache_def evictions_def)
      with step_ok_quiet [OF assms(1,2)] show ?thesis by auto
    next
      case (Some obj)
      note obj = string_value_of [OF Some]
      have st: "cache_store_object (entry_alloc env) ?clk ?c ?key obj ?e False = Some (c', r)"
        using r Some by (simp add: cache_set_expire_at_def)
      have T: "T < UINT64_MAX" "\<And>i. ?clk i \<le> T" using assms(3) by (auto simp: readings_def)
      note ss = store_step [OF assms(2,4) conjunct2 [OF obj] st T]
      let ?s1 = "after_cache env s c'"
      obtain s2 b where a: "append_set_command env (length (evictions ?c c')) ?s1 args ?e = (s2, b)" by fastforce
      show ?thesis
      proof (cases "r = CACHE_SET_OK")
        case True
        have s': "s' = s2" b using assms(5,6) Inr False r True a by (auto simp: execute_set_def Let_def split: if_splits)
        have c2: "service_cache s' = c'" using append_set_cache [OF a] s' by simp
        have "step_ok T s (del_records (evictions ?c c') @ [set_record ?key ?v ?e]) s'"
        proof (rule evict_append_ok [OF assms(1) ss(1)])
          show "evictions_accepted env 0 s (evictions ?c c')" using assms(7) c2 by simp
          show "appended ?s1 (set_record ?key ?v ?e) s' True" if "ready ?s1"
            using append_set_command_ok [OF that a] s' by simp
          show "view c' k = apply_log [set_record ?key ?v ?e] k (if k \<in> set (evictions ?c c') then None else view ?c k)"
            if "slot_ok T (view ?c k)" for k
            using ss(4) [OF True that] obj unfolding set_record_effect by (simp only: if_False)
        qed
        then show ?thesis by blast
      next
        case no: False
        then have s': "s' = ?s1" using assms(5) Inr False r ss(2) by (cases r) (auto simp: execute_set_def Let_def)
        have "?s1 = s\<lparr>service_cache := c'\<rparr>" using ss(5) [OF no] by (simp add: after_cache_def)
        with s' step_ok_quiet [OF assms(1), of s'] ss(1) ss(6) [OF no] show ?thesis by auto
      qed
    qed
  qed
qed

end
