(* ===== verification/ServiceHash.thy ===== *)
theory ServiceHash
  imports ServiceOps
begin

text \<open>
  The handlers for hashes: the loops over fields, the copy of a hash, and the effect of HSET and HDEL
  on the contents and on the log.
\<close>

subsection \<open>Loops over fields\<close>

lemma hash_typed: "hash_object_inv obj \<Longrightarrow> kv_object_type obj = HASH_TYPE"
  by (auto simp: hash_object_inv_alt kv_object_type_def)

lemma hash_object_ok: "hash_object_inv obj \<Longrightarrow> object_ok obj"
  by (simp add: object_ok_def)

lemma hash_value_of: "hash_object_inv obj \<Longrightarrow> value_of obj = Fields (object_fields obj)"
  by (auto simp: hash_object_inv_alt value_of_def)

lemma hset_loop_ok:
  "hash_object_inv w \<Longrightarrow> hset_loop env k w pairs n ch = (w', r) \<Longrightarrow> hash_object_inv w'
     \<and> (\<forall>n' ch'. r = Some (n', ch') \<longrightarrow> object_fields w' = set_pairs pairs (object_fields w)
          \<and> (\<not> ch' \<longrightarrow> \<not> ch \<and> object_fields w' = object_fields w))"
proof (induction env k w pairs n ch arbitrary: w' r rule: hset_loop.induct)
  case (1 env k w field v rest n ch)
  obtain w1 q where s: "kv_object_hash_set (field_allocated env k) (field_alloc env k) w field v = (w1, q)" by fastforce
  have p: "hash_set_post w field v w1 q" by (rule hash_set_ok [OF "1.prems"(1) s])
  then have inv: "hash_object_inv w1" by (simp add: hash_set_post_def)
  show ?case
  proof (cases q)
    case None
    with "1.prems" s inv show ?thesis by auto
  next
    case (Some ac)
    obtain a c where ac: "ac = (a, c)" by fastforce
    with Some "1.prems"(2) s have l: "hset_loop env (k + 1) w1 rest (n + of_bool a) (ch \<or> c) = (w', r)" by simp
    note ih = "1.IH" [OF s [symmetric] Some ac [symmetric] inv l]
    have f: "object_fields w1 = (object_fields w)(field \<mapsto> v)" "c = (object_fields w field \<noteq> Some v)"
      using p Some ac by (simp_all add: hash_set_post_def)
    have same: "\<not> c \<Longrightarrow> object_fields w1 = object_fields w" using f by (simp add: fun_upd_idem)
    show ?thesis
    proof (intro conjI allI impI)
      show "hash_object_inv w'" using ih by blast
      fix n' ch' assume r: "r = Some (n', ch')"
      have "object_fields w' = set_pairs rest (object_fields w1)" using ih r by blast
      then show "object_fields w' = set_pairs (field # v # rest) (object_fields w)" by (simp only: f(1) set_pairs.simps)
      assume "\<not> ch'"
      with ih r have "\<not> (ch \<or> c)" "object_fields w' = object_fields w1" by blast+
      then show "\<not> ch" "object_fields w' = object_fields w" using same by simp_all
    qed
  qed
qed auto

lemma hset_single_failed:
  assumes "hash_object_inv w" "hset_loop env k w pairs n ch = (w', None)" "length pairs \<le> 3"
  shows "object_fields w' = object_fields w"
proof -
  from assms(2) obtain field v rest where pairs: "pairs = field # v # rest"
    by (cases "(env, k, w, pairs, n, ch)" rule: hset_loop.cases) auto
  obtain w1 q where s: "kv_object_hash_set (field_allocated env k) (field_alloc env k) w field v = (w1, q)" by fastforce
  have "length rest \<le> 1" using assms(3) pairs by simp
  then have "rest = [] \<or> (\<exists>x. rest = [x])" by (cases rest) auto
  then have "q = None" "w' = w1" using assms(2) pairs s by (cases q; auto)+
  with hash_set_ok [OF assms(1) s] show ?thesis by (simp add: hash_set_post_def)
qed

lemma hdel_loop_ok:
  "hash_object_inv obj \<Longrightarrow> hdel_loop obj fs n = (obj', r) \<Longrightarrow> hash_object_inv obj'
     \<and> object_fields obj' = (\<lambda>f. if f \<in> set fs then None else object_fields obj f)
     \<and> (\<exists>m. r = Some m \<and> n \<le> m \<and> (m = n \<longleftrightarrow> object_fields obj' = object_fields obj))"
proof (induction fs arbitrary: obj n)
  case Nil
  then show ?case by auto
next
  case (Cons f fs)
  obtain o1 q where d: "kv_object_hash_delete obj f = (o1, q)" by fastforce
  note ok = hash_delete_ok [OF Cons.prems(1) d]
  then have l: "hdel_loop o1 fs (n + q) = (obj', r)" using Cons.prems(2) d by (auto split: if_splits)
  from Cons.IH [OF _ l] ok obtain m where m: "hash_object_inv obj'" "r = Some m" "n + q \<le> m"
      "object_fields obj' = (\<lambda>x. if x \<in> set fs then None else object_fields o1 x)"
      "m = n + q \<longleftrightarrow> object_fields obj' = object_fields o1" by blast
  show ?case
  proof (cases "object_fields obj f")
    case None
    then have "q = 0" "object_fields o1 = object_fields obj" using ok by (auto split: if_splits)
    with m None show ?thesis by (auto simp: fun_eq_iff)
  next
    case (Some v)
    then have "q = 1" "object_fields o1 = (object_fields obj)(f := None)" using ok by (auto split: if_splits)
    moreover from this m(4) Some have "object_fields obj' f \<noteq> object_fields obj f" by simp
    ultimately show ?thesis using m by (auto simp: fun_eq_iff)
  qed
qed

lemma finite_fields: "hash_object_inv obj \<Longrightarrow> finite (dom (object_fields obj))"
proof -
  assume "hash_object_inv obj"
  then obtain t where "object_value obj = KV_OBJECT_HASH t" unfolding hash_object_inv_alt by auto
  then have "dom (object_fields obj) \<subseteq> node_key ` set (nodes t)"
    by (auto simp: object_fields_hash) (metis hash_map_eq_None_iff option.distinct(1))
  then show ?thesis by (rule finite_subset) simp
qed

lemma no_fields: "hash_object_inv obj \<Longrightarrow> kv_object_hash_length obj = 0 \<longleftrightarrow> object_fields obj = Map.empty"
  using hash_length_ok [of obj] finite_fields [of obj] by auto

subsection \<open>The copy of a hash\<close>

lemma clone_visit:
  assumes "hash_object_inv copy" "visit_nodes (\<lambda>node. clone_hash_field env (node_key node) (hv_data (payload node))) ns (copy, k) = ((copy', k'), True)"
  shows "hash_object_inv copy'
    \<and> object_fields copy' = object_fields copy ++ map_of (rev (map (\<lambda>node. (node_key node, hv_data (payload node))) ns))"
  using assms
proof (induction ns arbitrary: copy k)
  case Nil
  then show ?case by simp
next
  case (Cons n ns)
  obtain c1 q where s: "kv_object_hash_set (clone_allocated env k) (clone_alloc env k) copy (node_key n) (hv_data (payload n)) = (c1, q)"
    by fastforce
  have p: "hash_set_post copy (node_key n) (hv_data (payload n)) c1 q" by (rule hash_set_ok [OF Cons.prems(1) s])
  have e: "clone_hash_field env (node_key n) (hv_data (payload n)) (copy, k) = ((c1, k + 1), q = None)"
    using s by (simp add: clone_hash_field_def)
  have q: "q \<noteq> None" using Cons.prems(2) e by (cases q) simp_all
  then have "object_fields c1 = (object_fields copy)(node_key n \<mapsto> hv_data (payload n))" "hash_object_inv c1"
    using p by (auto simp: hash_set_post_def)
  moreover have "visit_nodes (\<lambda>node. clone_hash_field env (node_key node) (hv_data (payload node))) ns (c1, k + 1) = ((copy', k'), True)"
    using Cons.prems(2) e q by (cases q) simp_all
  ultimately show ?case using Cons.IH [of c1 "k + 1"] by (auto simp: map_add_def fun_eq_iff split: option.splits)
qed

lemma map_of_values: "map_of (map (\<lambda>n. (f n, g (h n))) ns) x = map_option g (map_of (map (\<lambda>n. (f n, h n)) ns) x)"
  by (induction ns) auto

lemma clone_hash_ok:
  assumes inv: "hash_object_inv obj" and c: "kv_object_clone env cz obj = Some copy"
  shows "hash_object_inv copy" "object_fields copy = object_fields obj"
proof -
  obtain t where t: "object_value obj = KV_OBJECT_HASH t" "hash_inv t" using inv unfolding hash_object_inv_alt by auto
  obtain c0 k' where c0: "kv_object_create_hash (hash_allocated env 0) (hash_allocated env 1) (hash_allocated env 2) = Some c0"
    and v: "kv_object_hash_visit obj (clone_hash_field env) (c0, 0) = Some ((copy, k'), True)"
    using c t(1) by (auto simp: kv_object_clone_def split: option.splits prod.splits bool.splits)
  have "visit_nodes (\<lambda>node. clone_hash_field env (node_key node) (hv_data (payload node))) (nodes t) (c0, 0) = ((copy, k'), True)"
    using v t(1) by (simp add: kv_object_hash_visit_def iterator_collect_begin)
  note cv = clone_visit [OF _ this]
  have c0': "hash_object_inv c0" "object_fields c0 = Map.empty" using create_hash_ok [OF c0] by simp_all
  let ?l = "map (\<lambda>node. (node_key node, hv_data (payload node))) (nodes t)"
  have dist: "distinct (map fst ?l)" using t(2) by (simp add: hash_inv_def comp_def)
  have "map_of (rev ?l) = map_of ?l" using map_of_inject_set [of "rev ?l" ?l] dist by (simp add: rev_map [symmetric])
  also have "\<dots> = object_fields obj"
    unfolding object_fields_hash [OF t(1)] hash_map_def by (rule ext) (rule map_of_values)
  finally show "object_fields copy = object_fields obj" using cv [OF c0'(1)] c0'(2) by simp
  show "hash_object_inv copy" using cv [OF c0'(1)] by simp
qed

subsection \<open>In-place changes\<close>

lemma mutate_step:
  assumes c: "service_ok c" and d: "core_view c a = Some d" and o: "object_ok obj"
    and ty: "kv_object_type obj = kv_object_type (core_object d)"
  shows "service_ok (modify a (set_object obj) c)"
    "content (modify a (set_object obj) c) = (content c)(core_key d \<mapsto> d\<lparr>core_object := obj\<rparr>)"
    "core_view (modify a (set_object obj) c) a = Some (d\<lparr>core_object := obj\<rparr>)"
    "same_setup c (modify a (set_object obj) c)" "evict_log (modify a (set_object obj) c) = evict_log c"
proof -
  obtain xs where ok: "cache_ok c xs" using service_okD(4) [OF c] by blast
  note so = set_object_ok [OF ok d ty refl]
  show "content (modify a (set_object obj) c) = (content c)(core_key d \<mapsto> d\<lparr>core_object := obj\<rparr>)" by (rule so(2))
  show "core_view (modify a (set_object obj) c) a = Some (d\<lparr>core_object := obj\<rparr>)" using so(3) by simp
  show su: "same_setup c (modify a (set_object obj) c)" "evict_log (modify a (set_object obj) c) = evict_log c"
    by (simp_all add: same_setup_def)
  obtain e where "entries c a = Some e" "d = core e" using d by (auto simp: core_view_Some)
  then have "sound (modify a (set_object obj) c)" using mutate_sound [OF service_okD(1) [OF c]] ty by simp
  from service_ok_update [OF c this su(1) so(2)] o show "service_ok (modify a (set_object obj) c)" by simp
qed

lemma mutate_view:
  assumes "service_ok c" "core_view c a = Some d" "object_ok obj" "kv_object_type obj = kv_object_type (core_object d)"
  shows "view (modify a (set_object obj) c) k = (if k = core_key d then Some (value_of obj, core_expire d) else view c k)"
  using mutate_step(2) [OF assms] by (simp add: view_def)

text \<open>What the lookup of a hash gives to a handler.\<close>

lemma hash_lookup:
  assumes "service_ok c" "cache_get_hash_object_ref t c key b = (c', r)"
  shows "service_ok c'" "evict_log c' = evict_log c" "same_setup c c'"
    "t \<le> T \<Longrightarrow> slot_ok T (view c k) \<Longrightarrow> view c' k = view c k"
    "r = None \<Longrightarrow> t \<le> T \<Longrightarrow> slot_ok T (view c key) \<Longrightarrow> content c key = None"
    "r = Some a \<Longrightarrow> \<exists>d. core_view c' a = Some d \<and> content c' key = Some d \<and> core_key d = key \<and> object (entry c' a) = core_object d
       \<and> object_ok (core_object d)"
proof -
  obtain xs where ok: "cache_ok c xs" using service_okD(4) [OF assms(1)] by blast
  from cache_get_hash_object_ref_ok [OF ok assms(2)] obtain xs' where rp: "read_post c xs key t b c' xs' r" by blast
  then have p: "cache_ok c' xs'" "content c' = purge key t (content c)" "same_setup c c'" "evict_log c' = evict_log c"
    "Option.bind r (core_view c') = live t (content c key)" "r = None \<longleftrightarrow> live t (content c key) = None"
    by (simp_all add: read_post_def)
  show s: "service_ok c'" by (rule purge_service_ok [OF assms(1) p(1,3,2)])
  show "evict_log c' = evict_log c" "same_setup c c'" using p by auto
  show "view c' k = view c k" if "t \<le> T" "slot_ok T (view c k)" using view_purge [OF p(2) that] .
  show "content c key = None" if "r = None" "t \<le> T" "slot_ok T (view c key)"
    using p(6) that(1) slot_ok_live_eq [OF that(3,2)] by simp
  assume a: "r = Some a"
  then obtain d where d: "live t (content c key) = Some d" "core_view c' a = Some d"
    using p(5,6) by (cases "live t (content c key)") auto
  then have k: "content c key = Some d" "content c' key = Some d" using p(2) live_some [OF d(1)] by (auto simp: purge_def)
  have "core_key d = key" using content_key [of c' key d] p(1) k(2) by (simp add: cache_ok_def)
  with d k service_okD(3) [OF s k(2)] core_entry_fields [OF d(2)] show "\<exists>d. core_view c' a = Some d \<and> content c' key = Some d
      \<and> core_key d = key \<and> object (entry c' a) = core_object d \<and> object_ok (core_object d)" by auto
qed

lemma hash_lookup_entries:
  assumes "service_ok c" "cache_get_hash_object_ref t c key b = (c', r)" "fresh alloc c"
  shows "fresh alloc c'"
proof -
  obtain xs where ok: "cache_ok c xs" using service_okD(4) [OF assms(1)] by blast
  obtain c0 where f: "find_live_hash t c key = (c0, r)" and c': "c' = read_entry c0 r b"
    using assms(2) by (auto simp: cache_get_hash_object_ref_def read_entry_def split: prod.splits option.splits)
  obtain xs0 where an: "answered c xs key t c0 xs0 r" using find_live_hash_ok [OF ok f] by blast
  have "\<And>a. r = Some a \<Longrightarrow> entries c0 a \<noteq> None" using answeredD(7) [OF an] by blast
  note rd = read_entry_ok(4) [where b = b, OF answeredD(1) [OF an] this]
  have "core_view c' \<subseteq>\<^sub>m core_view c" using an rd by (simp add: c' answered_def looked_up_def)
  then have "dom (entries c') \<subseteq> dom (entries c)" by (rule dom_submap)
  with assms(3) show ?thesis by (auto simp: fresh_def)
qed

lemma stored_service_ok:
  assumes c: "service_ok c" and s: "sound c'" and o: "object_ok obj" and st: "stored c key obj charge e t vs c'"
  shows "service_ok c'"
proof -
  obtain d where d: "content c' = (content c |` (- victim_keys c vs))(key \<mapsto> d)" "same_value (core_object d) obj"
    using st unfolding stored_def by blast
  have su: "same_setup c c'" using st unfolding stored_def by blast
  show ?thesis
    using c s su d same_value_ok [OF d(2) o] by (auto simp: service_ok_def same_setup_def restrict_map_def split: if_splits)
qed

lemma recharge_step:
  assumes c: "service_ok c" and a: "core_view c a = Some d"
    and r: "cache_recharge_ref t c (Some a) = Some (c', CACHE_SET_OK)" and t: "t \<le> T"
  shows "service_ok c'" "core_key d \<notin> set (evictions c c')"
    "slot_ok T (view c k) \<Longrightarrow> view c' k = (if k = core_key d then Some (value_of (core_object d), core_expire d)
       else if k \<in> set (evictions c c') then None else view c k)"
    "prefix (evict_log c) (evict_log c')"
proof -
  obtain xs where ok: "cache_ok c xs" using service_okD(4) [OF c] by blast
  have en: "entries c a \<noteq> None" using a by (auto simp: core_view_Some)
  let ?t = "if core_expire d \<noteq> 0 then t else 0"
  obtain vs where st: "stored c (core_key d) (core_object d) (entry_memory_charge (length (core_key d)) (core_object d))
      (core_expire d) ?t vs c'"
    using cache_recharge_ref_ok [OF ok a, of t] r by (auto simp: recharge_post_def)
  have s: "sound c'" using recharge_ref_sound [OF service_okD(1) [OF c] en r] by blast
  have "catalog_ok c" using ok by (simp add: cache_ok_def)
  then have "content c (core_key d) = Some d" using content_iff a by blast
  then have o: "object_ok (core_object d)" using service_okD(3) [OF c] by blast
  show "service_ok c'" by (rule stored_service_ok [OF c s o st])
  show "core_key d \<notin> set (evictions c c')" by (rule stored_evictions(3) [OF st service_okD(2) [OF c]])
  show "prefix (evict_log c) (evict_log c')" using st by (simp add: stored_def)
  have t': "?t \<le> T" using t by simp
  show "slot_ok T (view c k) \<Longrightarrow> view c' k = (if k = core_key d then Some (value_of (core_object d), core_expire d)
       else if k \<in> set (evictions c c') then None else view c k)"
    by (rule stored_view [OF ok st service_okD(2) [OF c] t'])
qed

subsection \<open>HSET\<close>

lemma evict_append_from:
  assumes "ready s0" "service_aof s = service_aof s0" "service_ok c'"
    and acc: "evictions_accepted env 0 s (evictions (service_cache s) c')"
    and a: "ready (after_cache env s c') \<Longrightarrow> appended (after_cache env s c') r s' True"
    and v: "\<And>k. slot_ok T (view (service_cache s0) k) \<Longrightarrow> safe T k r \<Longrightarrow> view c' k =
      apply_log [r] k (if k \<in> set (evictions (service_cache s) c') then None else view (service_cache s0) k)"
  shows "step_ok T s0 (del_records (evictions (service_cache s) c') @ [r]) s'"
proof -
  have "ready s" using assms(1,2) by (simp add: ready_def)
  note l = after_cache_ok [OF this acc]
  have ap: "service_cache s' = c'" "logged [r] (service_aof (after_cache env s c')) (service_aof s')"
    using a [OF logged_ready [OF l(2)]] by (simp_all add: appended_def)
  show ?thesis
    using logged_trans [OF l(2) ap(2)] v assms(2,3) ap(1)
    by (simp add: step_ok_def apply_log_append apply_del_records del: apply_log.simps)
qed

text \<open>
  A write to a hash: what it appends describes what it does, and whether it appends or not, the
  keys that were not evicted change as the request says.
\<close>

definition hash_step :: "u64 \<Rightarrow> ('m, 'o) service \<Rightarrow> bytes list \<Rightarrow> ('m, 'o) service \<Rightarrow> bool" where
  "hash_step T s args s' \<longleftrightarrow> (\<exists>rs. step_ok T s rs s')
     \<and> prefix (evict_log (service_cache s)) (evict_log (service_cache s'))
     \<and> (\<forall>k. slot_ok T (view (service_cache s) k) \<longrightarrow> view (service_cache s') k =
          apply_log [args] k (if k \<in> set (evictions (service_cache s) (service_cache s')) then None else view (service_cache s) k))"

lemma hash_step_quiet:
  assumes "ready s" "service_ok c'" "evict_log c' = evict_log (service_cache s)"
    and v: "\<And>k. slot_ok T (view (service_cache s) k) \<Longrightarrow> view c' k = view (service_cache s) k"
    and e: "slot_ok T (view (service_cache s) (args ! 1)) \<Longrightarrow> record_effect args (view (service_cache s) (args ! 1)) = view (service_cache s) (args ! 1)"
  shows "hash_step T s args (s\<lparr>service_cache := c'\<rparr>)"
proof -
  have "evictions (service_cache s) c' = []" using assms(3) by (simp add: evictions_def)
  moreover have "\<exists>rs. step_ok T s rs (s\<lparr>service_cache := c'\<rparr>)" using step_ok_quiet [OF assms(1), of "s\<lparr>service_cache := c'\<rparr>"] assms(2) v by auto
  ultimately show ?thesis using v e assms(3) by (auto simp: hash_step_def)
qed

lemma evictions_cong: "evict_log c1 = evict_log c \<Longrightarrow> evictions c1 c' = evictions c c'"
  by (simp add: evictions_def)

lemma finish_original_ok:
  assumes "ready s0" "s = s0\<lparr>service_cache := c\<rparr>" "evict_log c = evict_log (service_cache s0)" "service_ok c'"
    and f: "finish_original env s c' args n = (s', reply)" "reply \<noteq> KVSTORE_REPLY_ERROR error_aof"
    and acc: "evictions_accepted env 0 s0 (evictions (service_cache s0) (service_cache s'))"
    and pre: "prefix (evict_log c) (evict_log c')"
    and v: "\<And>k. slot_ok T (view (service_cache s0) k) \<Longrightarrow> view c' k =
      apply_log [args] k (if k \<in> set (evictions c c') then None else view (service_cache s0) k)"
  shows "hash_step T s0 args s'"
proof -
  obtain s2 b where a: "append_original_command env (length (evictions c c')) (after_cache env s c') args = (s2, b)" by fastforce
  have s': "s' = s2" b using f a assms(2) by (auto simp: finish_original_def split: if_splits)
  have c2: "service_cache s' = c'" using append_original_cache [OF a] s'(1) by simp
  have sc: "service_cache s = c" "service_aof s = service_aof s0" using assms(2) by simp_all
  have "step_ok T s0 (del_records (evictions (service_cache s) c') @ [args]) s'"
  proof (rule evict_append_from [OF assms(1) sc(2) assms(4)])
    show "evictions_accepted env 0 s (evictions (service_cache s) c')"
      using acc c2 evictions_cong [OF assms(3)] by (simp add: assms(2) accepted_cache_indep)
    show "appended (after_cache env s c') args s' True" if "ready (after_cache env s c')"
      using append_original_command_ok [OF that a] s' by simp
    show "view c' k = apply_log [args] k (if k \<in> set (evictions (service_cache s) c') then None else view (service_cache s0) k)"
      if "slot_ok T (view (service_cache s0) k)" for k using v [OF that] sc(1) by simp
  qed
  then show ?thesis
    unfolding hash_step_def using v c2 pre assms(3) evictions_cong [OF assms(3), of c'] by (auto simp del: apply_log.simps)
qed

lemma hset_record:
  assumes "argument_equals (args ! 0) ''HSET''" "length args \<ge> 2"
  shows "record_effect args x = hset_effect (drop 2 args) x"
    "apply_log [args] k x = (if k = args ! 1 then hset_effect (drop 2 args) x else x)"
proof -
  have "map ascii_upper (args ! 0) = ascii ''HSET''" using assms(1) by (simp add: equals_iff)
  then show "record_effect args x = hset_effect (drop 2 args) x"
    by (simp add: record_effect_def Let_def equals_iff)
  with assms(2) show "apply_log [args] k x = (if k = args ! 1 then hset_effect (drop 2 args) x else x)" by auto
qed

lemma set_pairs_value: "m f \<noteq> None \<Longrightarrow> set_pairs pairs m f \<noteq> None"
  by (induction pairs m rule: set_pairs.induct) auto

lemma set_pairs_nonempty: "set_pairs (field # v # rest) m \<noteq> Map.empty"
  using set_pairs_value [of "m(field \<mapsto> v)" field rest] by (metis fun_upd_same option.distinct(1) set_pairs.simps(1))

definition base_fields :: "('m, 'o) slot \<Rightarrow> (bytes \<Rightarrow> bytes option) \<Rightarrow> bool" where
  "base_fields x m = (case x of None \<Rightarrow> m = Map.empty | Some (v, d) \<Rightarrow> v = Fields m)"

lemma hset_effect_base:
  "base_fields x m \<Longrightarrow> hset_effect pairs x = Some (Fields (set_pairs pairs m), case x of None \<Rightarrow> 0 | Some (v, d) \<Rightarrow> d)"
  by (auto simp: base_fields_def hset_effect_def split: option.splits)

lemma at_least_four:
  assumes "length xs \<ge> 4"
  obtains a b c d rest where "xs = a # b # c # d # rest"
proof -
  have "Suc (Suc (Suc (Suc 0))) \<le> length xs" using assms by simp
  then show ?thesis using that by (auto simp only: Suc_le_length_iff)
qed

lemma hset_unchanged:
  assumes "base_fields x m" "set_pairs (drop 2 args) m = m" "length args \<ge> 4"
  shows "hset_effect (drop 2 args) x = x"
proof -
  obtain f v rest where "drop 2 args = f # v # rest"
    by (rule at_least_four [OF assms(3)]) (use that in simp)
  with assms(2) set_pairs_nonempty [of f v rest m] have "m \<noteq> Map.empty" by auto
  with assms(1,2) show ?thesis by (auto simp: base_fields_def hset_effect_def split: option.splits)
qed

lemma hset_copied:
  assumes r0: "ready s0" and c1: "service_ok c1" "fresh (entry_alloc env) c1" "evict_log c1 = evict_log (service_cache s0)"
    and T: "readings T env"
    and v1: "\<And>k. slot_ok T (view (service_cache s0) k) \<Longrightarrow> view c1 k = view (service_cache s0) k"
    and w: "hash_object_inv w" "slot_ok T (view (service_cache s0) (args ! 1)) \<Longrightarrow> base_fields (view (service_cache s0) (args ! 1)) (object_fields w)"
    and run: "hset_working env (s0\<lparr>service_cache := c1\<rparr>) args None w = Some (s', reply)" "\<not> is_error reply"
    and acc: "evictions_accepted env 0 s0 (evictions (service_cache s0) (service_cache s'))"
    and name: "argument_equals (args ! 0) ''HSET''" "length args \<ge> 4"
  shows "hash_step T s0 args s'"
proof -
  have len: "length args \<ge> 2" using name(2) by simp
  let ?s = "s0\<lparr>service_cache := c1\<rparr>" and ?key = "args ! 1"
  obtain w' r where l: "hset_loop env 0 w (drop 2 args) 0 False = (w', r)" by fastforce
  note lo = hset_loop_ok [OF w(1) l]
  have "r \<noteq> None" using run l by (cases r) (auto simp: hset_working_def is_error_def Let_def)
  then obtain n ch where r: "r = Some (n, ch)" by auto
  show ?thesis
  proof (cases ch)
    case False
    then have s': "s' = ?s" using run(1) l r by (simp add: hset_working_def Let_def)
    have same: "set_pairs (drop 2 args) (object_fields w) = object_fields w" using lo r False by metis
    show ?thesis
      unfolding s'
    proof (rule hash_step_quiet [OF r0 c1(1,3) v1])
      assume k: "slot_ok T (view (service_cache s0) ?key)"
      show "record_effect args (view (service_cache s0) ?key) = view (service_cache s0) ?key"
        unfolding hset_record(1) [OF name(1) len] by (rule hset_unchanged [OF w(2) [OF k] same name(2)])
    qed simp_all
  next
    case True
    obtain c' q where st: "cache_store_object (entry_alloc env) (\<lambda>k. clock env (k + 1)) c1 ?key w' 0 True = Some (c', q)"
      using run(1) l r True by (auto simp: hset_working_def Let_def split: option.splits)
    have q: "q = CACHE_SET_OK" using run l r True st by (auto simp: hset_working_def object_error_def is_error_def Let_def split: if_splits)
    have f: "finish_original env ?s c' args n = (s', reply)" using run(1) l r True st q by (simp add: hset_working_def Let_def)
    have T': "T < UINT64_MAX" "\<And>i. clock env (i + 1) \<le> T" using T by (auto simp: readings_def)
    note ss = store_step [OF c1(1,2) hash_object_ok [OF conjunct1 [OF lo]] st T']
    have ev: "?key \<notin> set (evictions c1 c')" by (rule ss(3) [OF q])
    show ?thesis
    proof (rule finish_original_ok [OF r0 refl c1(3) ss(1) f _ acc ss(7)])
      show "reply \<noteq> KVSTORE_REPLY_ERROR error_aof" using run(2) by (auto simp: is_error_def)
      fix k assume k: "slot_ok T (view (service_cache s0) k)"
      have k1: "slot_ok T (view c1 k)" using k v1 [OF k] by simp
      note v = ss(4) [OF q k1]
      show "view c' k = apply_log [args] k (if k \<in> set (evictions c1 c') then None else view (service_cache s0) k)"
      proof (cases "k = ?key")
        case True
        have b: "base_fields (view (service_cache s0) k) (object_fields w)" using w(2) k True by simp
        have "value_of w' = Fields (set_pairs (drop 2 args) (object_fields w))" using lo r by (simp add: hash_value_of)
        with v v1 [OF k] True ev hset_effect_base [OF b] show ?thesis unfolding hset_record(2) [OF name(1) len] by simp
      next
        case False
        with v v1 [OF k] show ?thesis unfolding hset_record(2) [OF name(1) len] by simp
      qed
    qed
  qed
qed

lemma hset_in_place:
  assumes r0: "ready s0" and c1: "service_ok c1" "evict_log c1 = evict_log (service_cache s0)"
    and T: "readings T env"
    and v1: "\<And>k. slot_ok T (view (service_cache s0) k) \<Longrightarrow> view c1 k = view (service_cache s0) k"
    and d: "core_view c1 a = Some d" "core_key d = args ! 1" "content c1 (args ! 1) = Some d" "hash_object_inv (core_object d)"
    and run: "hset_working env (s0\<lparr>service_cache := c1\<rparr>) args (Some a) (core_object d) = Some (s', reply)" "\<not> is_error reply"
    and acc: "evictions_accepted env 0 s0 (evictions (service_cache s0) (service_cache s'))"
    and name: "argument_equals (args ! 0) ''HSET''" "length args \<ge> 4"
  shows "hash_step T s0 args s'"
proof -
  have len: "length args \<ge> 2" using name(2) by simp
  let ?key = "args ! 1" and ?w = "core_object d"
  obtain w' r where l: "hset_loop env 0 ?w (drop 2 args) 0 False = (w', r)" by fastforce
  note lo = hset_loop_ok [OF d(4) l]
  let ?c2 = "modify a (set_object w') c1" and ?d2 = "d\<lparr>core_object := w'\<rparr>"
  let ?s2 = "s0\<lparr>service_cache := ?c2\<rparr>"
  have o: "object_ok w'" "kv_object_type w' = kv_object_type ?w" using lo d(4) by (simp_all add: hash_object_ok hash_typed)
  note m = mutate_step [OF c1(1) d(1) o]
  have mv: "view ?c2 k = (if k = ?key then Some (Fields (object_fields w'), core_expire d) else view c1 k)" for k
    using mutate_view [OF c1(1) d(1) o] d(2) lo by (simp add: hash_value_of)
  have "r \<noteq> None" using run l by (cases r) (auto simp: hset_working_def is_error_def Let_def)
  then obtain n ch where r: "r = Some (n, ch)" by auto
  have vd: "view (service_cache s0) ?key = Some (Fields (object_fields ?w), core_expire d)" if "slot_ok T (view (service_cache s0) ?key)"
    using v1 [OF that] d(3,4) by (simp add: view_def hash_value_of)
  show ?thesis
  proof (cases ch)
    case False
    then have s': "s' = ?s2" using run(1) l r by (simp add: hset_working_def Let_def)
    have same: "object_fields w' = object_fields ?w" "set_pairs (drop 2 args) (object_fields ?w) = object_fields ?w"
      using lo r False by metis+
    show ?thesis
      unfolding s'
    proof (rule hash_step_quiet [OF r0 m(1)])
      show "evict_log ?c2 = evict_log (service_cache s0)" using m(5) c1(2) by simp
      show "view ?c2 k = view (service_cache s0) k" if "slot_ok T (view (service_cache s0) k)" for k
        using mv [of k] vd v1 [OF that] that same(1) by auto
      assume k: "slot_ok T (view (service_cache s0) ?key)"
      have "base_fields (view (service_cache s0) ?key) (object_fields ?w)" using vd [OF k] by (simp add: base_fields_def)
      from hset_unchanged [OF this same(2) name(2)]
      show "record_effect args (view (service_cache s0) ?key) = view (service_cache s0) ?key"
        unfolding hset_record(1) [OF name(1) len] .
    qed
  next
    case True
    obtain c' q where st: "cache_recharge_ref (clock env 1) ?c2 (Some a) = Some (c', q)"
      using run(1) l r True by (auto simp: hset_working_def Let_def split: option.splits)
    have q: "q = CACHE_SET_OK" using run l r True st by (auto simp: hset_working_def object_error_def is_error_def Let_def split: if_splits)
    have f: "finish_original env ?s2 c' args n = (s', reply)" using run(1) l r True st q by (simp add: hset_working_def Let_def)
    have t: "clock env 1 \<le> T" using T by (simp add: readings_def)
    note rs = recharge_step [OF m(1,3) st [unfolded q] t]
    have lg: "evict_log ?c2 = evict_log (service_cache s0)" using m(5) c1(2) by simp
    show ?thesis
    proof (rule finish_original_ok [OF r0 refl lg rs(1) f _ acc rs(4)])
      show "reply \<noteq> KVSTORE_REPLY_ERROR error_aof" using run(2) by (auto simp: is_error_def)
      fix k assume k: "slot_ok T (view (service_cache s0) k)"
      have k2: "slot_ok T (view ?c2 k)" using k v1 [OF k] mv [of k] vd by (auto split: if_splits)
      note v = rs(3) [OF k2]
      have ev: "?key \<notin> set (evictions ?c2 c')" using rs(2) d(2) by simp
      show "view c' k = apply_log [args] k (if k \<in> set (evictions ?c2 c') then None else view (service_cache s0) k)"
      proof (cases "k = ?key")
        case True
        have "base_fields (view (service_cache s0) k) (object_fields ?w)" using vd k True by (simp add: base_fields_def)
        note he = hset_effect_base [OF this, of "drop 2 args"]
        have "value_of w' = Fields (set_pairs (drop 2 args) (object_fields ?w))" using lo r by (simp add: hash_value_of)
        with v True ev he vd k d(2) show ?thesis unfolding hset_record(2) [OF name(1) len] by simp
      next
        case False
        with v v1 [OF k] mv [of k] d(2) show ?thesis unfolding hset_record(2) [OF name(1) len] by simp
      qed
    qed
  qed
qed

lemma wrongtype_other: "error_wrongtype \<noteq> error_internal" "error_wrongtype \<noteq> error_capacity" "error_wrongtype \<noteq> error_aof"
  by (simp_all add: error_wrongtype_def error_internal_def error_capacity_def error_aof_def ascii_def)

lemma finish_original_reply: "snd (finish_original env s c args n) \<noteq> KVSTORE_REPLY_ERROR error_wrongtype"
  using wrongtype_other by (auto simp: finish_original_def split: prod.split)

lemma hset_working_reply: "hset_working env s args ip w \<noteq> Some (s', KVSTORE_REPLY_ERROR error_wrongtype)"
  using finish_original_reply [of env] wrongtype_other
  by (auto simp: hset_working_def object_error_def Let_def prod_eq_iff split: prod.splits option.splits if_splits)

lemma execute_hset_ok:
  assumes s0: "ready s" "service_ok (service_cache s)" "readings T env" "fresh (entry_alloc env) (service_cache s)"
    and run: "execute_hset cz env s args = Some (s', reply)"
      "\<not> is_error reply \<or> reply = KVSTORE_REPLY_ERROR error_wrongtype"
    and acc: "evictions_accepted env 0 s (evictions (service_cache s) (service_cache s'))"
    and name: "argument_equals (args ! 0) ''HSET''" "length args \<ge> 4"
  shows "\<exists>rs. step_ok T s rs s'" "\<not> is_error reply \<Longrightarrow> hash_step T s args s'"
proof -
  let ?key = "args ! 1"
  obtain c1 r where g: "cache_get_hash_object_ref (clock env 0) (service_cache s) ?key False = (c1, r)" by fastforce
  let ?s1 = "s\<lparr>service_cache := c1\<rparr>"
  have t: "clock env 0 \<le> T" using s0(3) by (simp add: readings_def)
  note lk = hash_lookup [OF s0(2) g]
  have v1: "\<And>k. slot_ok T (view (service_cache s) k) \<Longrightarrow> view c1 k = view (service_cache s) k" using lk(4) [OF t] .
  have fr: "fresh (entry_alloc env) c1" by (rule hash_lookup_entries [OF s0(2) g s0(4)])
  have quiet: "\<exists>rs. step_ok T s rs s'" if "s' = ?s1"
    using step_ok_quiet [OF s0(1), of ?s1] lk(1) v1 that by auto
  have both: "(\<exists>rs. step_ok T s rs s') \<and> (\<not> is_error reply \<longrightarrow> hash_step T s args s')" if "hash_step T s args s'"
    using that by (simp add: hash_step_def)
  have ne: "\<not> is_error reply" if "hset_working env ?s1 args ip w = Some (s', reply)" for ip w
    using run(2) that hset_working_reply by metis
  have ni: "reply \<noteq> KVSTORE_REPLY_ERROR error_internal" using run(2) wrongtype_other by (auto simp: is_error_def)
  have "(\<exists>rs. step_ok T s rs s') \<and> (\<not> is_error reply \<longrightarrow> hash_step T s args s')"
  proof (cases r)
    case None
    obtain w where w: "kv_object_create_hash (hash_allocated env 0) (hash_allocated env 1) (hash_allocated env 2) = Some w"
      and h: "hset_working env ?s1 args None w = Some (s', reply)"
      using run(1) g None ni by (auto simp: execute_hset_def Let_def split: option.splits)
    have b: "base_fields (view (service_cache s) ?key) (object_fields w)" if "slot_ok T (view (service_cache s) ?key)"
      using lk(5) [OF None t that] create_hash_ok [OF w] by (simp add: base_fields_def view_def)
    have "hash_object_inv w" using create_hash_ok [OF w] by blast
    from hset_copied [OF s0(1) lk(1) fr lk(2) s0(3) v1 this b h ne [OF h] acc name] show ?thesis by (rule both)
  next
    case (Some a)
    obtain d where d: "core_view c1 a = Some d" "content c1 ?key = Some d" "core_key d = ?key"
      "object (entry c1 a) = core_object d" "object_ok (core_object d)" using lk(6) [OF Some] by blast
    show ?thesis
    proof (cases "kv_object_type (core_object d) = HASH_TYPE")
      case False
      then have "s' = ?s1" "is_error reply" using run(1) g Some d(4) by (auto simp: execute_hset_def Let_def is_error_def)
      with quiet show ?thesis by simp
    next
      case ty: True
      then have inv: "hash_object_inv (core_object d)" using d(5) by (simp add: object_ok_def)
      show ?thesis
      proof (cases "(length args - 2) div 2 > 1 \<or> max_memory c1 \<noteq> 0")
        case True
        obtain w where w: "kv_object_clone env cz (core_object d) = Some w" and h: "hset_working env ?s1 args None w = Some (s', reply)"
          using run(1) g Some d(4) ty True ni by (auto simp: execute_hset_def Let_def split: option.splits)
        note cl = clone_hash_ok [OF inv w]
        have "view c1 ?key = Some (Fields (object_fields (core_object d)), core_expire d)"
          using d(2) inv by (simp add: view_def hash_value_of)
        then have b: "base_fields (view (service_cache s) ?key) (object_fields w)" if "slot_ok T (view (service_cache s) ?key)"
          using v1 [OF that, symmetric] cl(2) by (simp add: base_fields_def)
        from hset_copied [OF s0(1) lk(1) fr lk(2) s0(3) v1 cl(1) b h ne [OF h] acc name] show ?thesis by (rule both)
      next
        case False
        then have h: "hset_working env ?s1 args (Some a) (core_object d) = Some (s', reply)"
          using run(1) g Some d(4) ty by (auto simp: execute_hset_def Let_def)
        from hset_in_place [OF s0(1) lk(1,2) s0(3) v1 d(1,3,2) inv h ne [OF h] acc name] show ?thesis by (rule both)
      qed
    qed
  qed
  then show "\<exists>rs. step_ok T s rs s'" "\<not> is_error reply \<Longrightarrow> hash_step T s args s'" by simp_all
qed

subsection \<open>HDEL\<close>

lemma hdel_record:
  assumes "argument_equals (args ! 0) ''HDEL''" "length args \<ge> 2"
  shows "record_effect args x = hdel_effect (drop 2 args) x"
    "apply_log [args] k x = (if k = args ! 1 then hdel_effect (drop 2 args) x else x)"
proof -
  have "map ascii_upper (args ! 0) = ascii ''HDEL''" using assms(1) by (simp add: equals_iff)
  then show "record_effect args x = hdel_effect (drop 2 args) x"
    by (simp add: record_effect_def Let_def equals_iff)
  with assms(2) show "apply_log [args] k x = (if k = args ! 1 then hdel_effect (drop 2 args) x else x)" by auto
qed

lemma execute_hdel_ok:
  assumes s0: "ready s" "service_ok (service_cache s)" "readings T env"
    and run: "execute_hdel env s args = Some (s', reply)"
      "\<not> is_error reply \<or> reply = KVSTORE_REPLY_ERROR error_wrongtype"
    and acc: "evictions_accepted env 0 s (evictions (service_cache s) (service_cache s'))"
    and name: "argument_equals (args ! 0) ''HDEL''" "length args \<ge> 2"
  shows "\<exists>rs. step_ok T s rs s'" "\<not> is_error reply \<Longrightarrow> hash_step T s args s'"
proof -
  let ?key = "args ! 1" and ?fs = "drop 2 args"
  obtain c1 r where g: "cache_get_hash_object_ref (clock env 0) (service_cache s) ?key False = (c1, r)" by fastforce
  let ?s1 = "s\<lparr>service_cache := c1\<rparr>"
  have t: "clock env 0 \<le> T" "clock env 1 \<le> T" using s0(3) by (simp_all add: readings_def)
  note lk = hash_lookup [OF s0(2) g]
  have v1: "\<And>k. slot_ok T (view (service_cache s) k) \<Longrightarrow> view c1 k = view (service_cache s) k" using lk(4) [OF t(1)] .
  have quiet: "\<exists>rs. step_ok T s rs s'" if "s' = ?s1"
    using step_ok_quiet [OF s0(1), of ?s1] lk(1) v1 that by auto
  have ni: "reply \<noteq> KVSTORE_REPLY_ERROR error_internal" "reply \<noteq> KVSTORE_REPLY_ERROR error_aof"
    using run(2) wrongtype_other by (auto simp: is_error_def)
  have both: "(\<exists>rs. step_ok T s rs s') \<and> (\<not> is_error reply \<longrightarrow> hash_step T s args s')" if "hash_step T s args s'"
    using that by (simp add: hash_step_def)
  have "(\<exists>rs. step_ok T s rs s') \<and> (\<not> is_error reply \<longrightarrow> hash_step T s args s')"
  proof (cases r)
    case None
    then have s': "s' = ?s1" using run(1) g by (simp add: execute_hdel_def)
    have "hash_step T s args ?s1"
    proof (rule hash_step_quiet [OF s0(1) lk(1,2) v1])
      assume "slot_ok T (view (service_cache s) ?key)"
      from lk(5) [OF None t(1) this] show "record_effect args (view (service_cache s) ?key) = view (service_cache s) ?key"
        unfolding hdel_record(1) [OF name] by (simp add: view_def hdel_effect_def)
    qed
    then show ?thesis unfolding s' using both s' by blast
  next
    case (Some a)
    obtain d where d: "core_view c1 a = Some d" "content c1 ?key = Some d" "core_key d = ?key"
      "object (entry c1 a) = core_object d" "object_ok (core_object d)" using lk(6) [OF Some] by blast
    show ?thesis
    proof (cases "kv_object_type (core_object d) = HASH_TYPE")
      case False
      then have "s' = ?s1" "is_error reply" using run(1) g Some d(4) by (auto simp: execute_hdel_def is_error_def)
      with quiet show ?thesis by simp
    next
      case ty: True
      then have inv: "hash_object_inv (core_object d)" using d(5) by (simp add: object_ok_def)
      obtain w q where l: "hdel_loop (core_object d) ?fs 0 = (w, q)" by fastforce
      from hdel_loop_ok [OF inv l] obtain n where wi: "hash_object_inv w"
        "object_fields w = (\<lambda>f. if f \<in> set ?fs then None else object_fields (core_object d) f)"
        and q: "q = Some n" "0 \<le> n" "n = 0 \<longleftrightarrow> object_fields w = object_fields (core_object d)" by blast
      let ?c2 = "modify a (set_object w) c1"
      let ?s2 = "s\<lparr>service_cache := ?c2\<rparr>"
      have o: "object_ok w" "kv_object_type w = kv_object_type (core_object d)" using wi(1) ty by (simp_all add: hash_object_ok hash_typed)
      note m = mutate_step [OF lk(1) d(1) o]
      have mv: "view ?c2 k = (if k = ?key then Some (Fields (object_fields w), core_expire d) else view c1 k)" for k
        using mutate_view [OF lk(1) d(1) o] d(3) wi(1) by (simp add: hash_value_of)
      have vd: "view (service_cache s) ?key = Some (Fields (object_fields (core_object d)), core_expire d)" if "slot_ok T (view (service_cache s) ?key)"
        using v1 [OF that] d(2) inv by (simp add: view_def hash_value_of)
      have lg: "evict_log ?c2 = evict_log (service_cache s)" using m(5) lk(2) by simp
      have eff: "hdel_effect ?fs (view (service_cache s) ?key) = (if object_fields w = object_fields (core_object d)
          then view (service_cache s) ?key else if object_fields w = Map.empty then None else Some (Fields (object_fields w), core_expire d))"
        if "slot_ok T (view (service_cache s) ?key)" using vd [OF that] wi(2) by (simp add: hdel_effect_def)
      show ?thesis
      proof (cases "n = 0")
        case True
        then have s': "s' = ?s2" using run(1) g Some d(4) ty l q by (simp add: execute_hdel_def Let_def)
        have "hash_step T s args ?s2"
        proof (rule hash_step_quiet [OF s0(1) m(1) lg])
          show "view ?c2 k = view (service_cache s) k" if "slot_ok T (view (service_cache s) k)" for k
            using mv [of k] vd v1 [OF that] that q True by auto
          assume "slot_ok T (view (service_cache s) ?key)"
          from eff [OF this] q(3) True show "record_effect args (view (service_cache s) ?key) = view (service_cache s) ?key"
            unfolding hdel_record(1) [OF name] by simp
        qed
        then show ?thesis using both s' by blast
      next
        case False
        with q(2) have n: "n > 0" by simp
        have ch: "object_fields w \<noteq> object_fields (core_object d)" using q(3) n by simp
        show ?thesis
        proof (cases "kv_object_hash_length w = 0")
          case True
          then have e: "object_fields w = Map.empty" using no_fields [OF wi(1)] by blast
          obtain c' z where cd: "cache_delete (clock env 1) ?c2 ?key = (c', z)" by fastforce
          note del = delete_step [OF m(1) cd t(2)]
          have f: "finish_original env ?s2 c' args n = (s', reply)"
            using run(1) g Some d(4) ty l q n True cd del(2) by (auto simp: execute_hdel_def Let_def)
          have "hash_step T s args s'"
          proof (rule finish_original_ok [OF s0(1) refl lg del(1) f ni(2) acc])
            show "prefix (evict_log ?c2) (evict_log c')" using del(5) by simp
          next
            fix k assume k: "slot_ok T (view (service_cache s) k)"
            have ev: "evictions ?c2 c' = []" using del(5) by (simp add: evictions_def)
            show "view c' k = apply_log [args] k (if k \<in> set (evictions ?c2 c') then None else view (service_cache s) k)"
              unfolding hdel_record(2) [OF name] using del(3) mv [of k] v1 [OF k] eff e ch k ev by (auto simp: view_def)
          qed
          then show ?thesis by (rule both)
        next
          case len: False
          then have e: "object_fields w \<noteq> Map.empty" unfolding no_fields [OF wi(1)] .
          obtain c' z where st: "cache_recharge_ref (clock env 1) ?c2 (Some a) = Some (c', z)"
            using run(1) g Some d(4) ty l q n len by (auto simp: execute_hdel_def Let_def split: option.splits)
          have z: "z = CACHE_SET_OK"
            using run(1) ni(1) g Some d(4) ty l q n len st by (auto simp: execute_hdel_def Let_def split: if_splits)
          have f: "finish_original env ?s2 c' args n = (s', reply)"
            using run(1) g Some d(4) ty l q n len st z by (auto simp: execute_hdel_def Let_def)
          note rs = recharge_step [OF m(1,3) st [unfolded z] t(2)]
          have "hash_step T s args s'"
          proof (rule finish_original_ok [OF s0(1) refl lg rs(1) f ni(2) acc rs(4)])
            fix k assume k: "slot_ok T (view (service_cache s) k)"
            have k2: "slot_ok T (view ?c2 k)" using k v1 [OF k] mv [of k] vd by (auto split: if_splits)
            note v = rs(3) [OF k2]
            have ev: "?key \<notin> set (evictions ?c2 c')" using rs(2) d(3) by simp
            show "view c' k = apply_log [args] k (if k \<in> set (evictions ?c2 c') then None else view (service_cache s) k)"
            proof (cases "k = ?key")
              case True
              with v ev eff k e ch d(3) wi(1) show ?thesis unfolding hdel_record(2) [OF name] by (simp add: hash_value_of)
            next
              case False
              with v v1 [OF k] mv [of k] d(3) show ?thesis unfolding hdel_record(2) [OF name] by simp
            qed
          qed
          then show ?thesis by (rule both)
        qed
      qed
    qed
  qed
  then show "\<exists>rs. step_ok T s rs s'" "\<not> is_error reply \<Longrightarrow> hash_step T s args s'" by simp_all
qed

end
