(* ===== verification/Spec2Isabelle.thy ===== *)
theory Spec2Isabelle
  imports Prelude Resp Buffer HashTable Object HeapList ExpireHeap Lru Cache CacheInv CacheEvict CacheStore CacheSpec CacheOps Aof AofCodec AofProps AofRun AofSpec CacheProps Command Legacy Service ServiceHash ServiceOps ServiceSpec
begin

text \<open>
  A verification development of storeSystem, an in-memory key-value cache server in C.

  \<^bold>\<open>The program.\<close>  A client's bytes arrive in a network buffer (\<open>src/src/net/buffer.c\<close>), are parsed as RESP
  requests (\<open>src/src/protocol/resp.c\<close>) and executed by the command service
  (\<open>src/src/service/kvstore_resp_service.c\<close>).  The service works on a cache (\<open>src/src/cache/cache.c\<close>) of typed
  objects (\<open>src/src/engine/object.c\<close>), both built on one hash table (\<open>src/src/kvstore_hash.c\<close>).  A write
  appends records to the append-only file (\<open>src/src/persistence/aof.c\<close>), whose second thread writes and
  synchronises them; the reply waits for the sequence number of its commit.  A restart replays the file.

  \<^bold>\<open>The theories.\<close>
  \<^item> \<open>Prelude\<close>: bytes, words, decimal text, and the generic lemmas.
  \<^item> \<open>Resp\<close>: the request parser and the reply encoders.
  \<^item> \<open>Buffer\<close>: the network buffer, with memory and positions; the locale \<open>byte_fifo\<close> is its contract.
  \<^item> \<open>HashTable\<close>: chaining, incremental rehashing, iteration; the locale \<open>dictionary\<close> is its contract.
  \<^item> \<open>Object\<close>: strings and hashes with their memory accounting.
  \<^item> \<open>HeapList\<close>, \<open>ExpireHeap\<close>, \<open>Lru\<close>, \<open>Cache\<close>: the expiration heap, the recency list and the operations
    of the cache, as extensions of one record of entries by address.
  \<^item> \<open>CacheInv\<close>, \<open>CacheEvict\<close>, \<open>CacheStore\<close>, \<open>CacheSpec\<close>, \<open>CacheOps\<close>, \<open>CacheProps\<close>: the invariant, eviction,
    the specification of each operation against the abstract contents, and the properties.
  \<^item> \<open>AofCodec\<close>, \<open>Aof\<close>: records and replay; the state shared by the two threads and their steps.
  \<^item> \<open>AofRun\<close>, \<open>AofSpec\<close>, \<open>AofProps\<close>: the interleaving of the threads as a step relation, its invariant,
    and what acknowledgement, crash and replay guarantee.
  \<^item> \<open>Legacy\<close>: the array engine and the C-string interface of the hash table, under the locale \<open>text_engine\<close>.
  \<^item> \<open>Command\<close>: names, arities and integers of requests, and the markers of the MySQL log.
  \<^item> \<open>Service\<close>: the handlers, the whole of a request with its transaction, and replay of one record.
  \<^item> \<open>ServiceSpec\<close>, \<open>ServiceOps\<close>, \<open>ServiceHash\<close>: what a record means for a key, and that the records
    a handler appends describe the change it made.

  \<^bold>\<open>How code and model correspond.\<close>  A C function has a definition of the same name; helpers for its loops
  carry the name of what the loop does.  A struct is a record, an enum a datatype.  \<open>uint64_t\<close> is \<open>64 word\<close>
  and wraps; \<open>size_t\<close> is \<open>nat\<close> with the guards of the code against \<open>SIZE_MAX\<close> written out; \<open>int64_t\<close> is
  \<open>int\<close>.  Pointers to cache entries are addresses in the map \<open>entries\<close>.  An early return is a branch; \<open>-1\<close>
  with \<open>errno\<close> is \<open>Inl\<close> of the error.  What the allocator, the clock and system calls answer are arguments,
  and no theorem restricts them unless it says so.

  \<^bold>\<open>What is shown.\<close>  The parser inverts the encoder, never reads outside its input, and more input never
  changes an accepted request.  The buffer is a byte queue.  The hash table is a map over any sequence of
  calls, and rehashing ends.  Every cache call keeps the invariant of index, heap, list and counters, keeps
  the limits and has exactly the specified effect on the contents; evictions are least recently used and
  as few as possible.  In every interleaving of the two threads of the append-only file, the file with the
  queue is what was committed, an acknowledged commit is in the file (and synchronised under the policy
  \<open>always\<close>), and a replay after a crash gives a prefix of the commits with all acknowledged ones.

  \<^bold>\<open>Bounds and loops.\<close>  Loops are total functions: structural recursion, or a measure.  The loops of
  eviction and of the commit are \<open>partial_function (option)\<close>; that they return is proved
  (\<open>cache_store_correct\<close>, \<open>aof_commit_torn\<close> and the lemmas of \<open>AofSpec\<close>).  No fuel is used.
  The theorems on runs of the append-only file need fewer than \<open>2 ^ 64\<close> commits, the range of the
  sequence numbers.

  \<^bold>\<open>Not modelled.\<close>
  \<^item> Sorted sets (the second half of \<open>object.c\<close> and the Z commands): their order is that of C doubles.
    The object and cache models take the sorted set as a type parameter; the service takes its commands
    as an argument.
  \<^item> RDB snapshots (\<open>rdb.c\<close>): stdio on the copy of a forked child.  The checkpoint they share with the
    append-only file is modelled.
  \<^item> The reactor (\<open>reactor.c\<close>) and the application (\<open>main.c\<close>): epoll, signals, fork and options.
    The marker parser of \<open>main.c\<close> is modelled.
  \<^item> \<open>mysql_store.c\<close>: threads around the MySQL client library.  Its answers are arguments.
  \<^item> The dispatch of the text protocol (\<open>kvstore.c\<close>), the red-black tree engine, the unused skip list and
    memory pool, the coroutine entry, the benchmarks and the tests.
\<close>

end
